(* ===== verification/Alyrn_Prelude.thy ===== *)
theory Alyrn_Prelude
  imports Main "HOL-Library.Word" "HOL-Library.Monad_Syntax"
begin

text \<open>
  Shared vocabulary of the Alyrn development.

  \<^item> An \<^verbatim>\<open>ALYRN_CHECK\<close> that fails aborts the process. An operation that can do so
    returns an option; \<open>None\<close> is the abort, and \<open>check b\<close> is the macro itself.
  \<^item> \<^verbatim>\<open>Result<T>\<close> is a sum: \<open>Inl\<close> carries the errno value of the
    \<^verbatim>\<open>std::error_code\<close>, \<open>Inr\<close> the value.
  \<^item> \<^verbatim>\<open>std::size_t\<close> counters whose bounds are proved are natural numbers; values that are
    packed, masked or shifted are 64-bit words.
  \<^item> Pointers are natural-number addresses, \<open>0\<close> is \<^verbatim>\<open>nullptr\<close>.
\<close>

section \<open>Types\<close>

type_synonym errno = int
type_synonym 'a result = "errno + 'a"
type_synonym addr = nat
type_synonym byte = "8 word"
type_synonym u64 = "64 word"

abbreviation (input) Ok :: "'a \<Rightarrow> 'a result" where
  "Ok \<equiv> Inr"

abbreviation (input) Err :: "errno \<Rightarrow> 'a result" where
  "Err \<equiv> Inl"

abbreviation (input) nullptr :: addr where
  "nullptr \<equiv> 0"

text \<open>The Linux errno values the library uses.\<close>

abbreviation (input) ENOENT :: errno where "ENOENT \<equiv> 2"
abbreviation (input) EINTR :: errno where "EINTR \<equiv> 4"
abbreviation (input) EIO :: errno where "EIO \<equiv> 5"
abbreviation (input) EBADF :: errno where "EBADF \<equiv> 9"
abbreviation (input) EAGAIN :: errno where "EAGAIN \<equiv> 11"
abbreviation (input) ENOMEM :: errno where "ENOMEM \<equiv> 12"
abbreviation (input) EBUSY :: errno where "EBUSY \<equiv> 16"
abbreviation (input) EEXIST :: errno where "EEXIST \<equiv> 17"
abbreviation (input) EINVAL :: errno where "EINVAL \<equiv> 22"
abbreviation (input) ENOSPC :: errno where "ENOSPC \<equiv> 28"
abbreviation (input) EPIPE :: errno where "EPIPE \<equiv> 32"
abbreviation (input) ETIME :: errno where "ETIME \<equiv> 62"
abbreviation (input) EPROTO :: errno where "EPROTO \<equiv> 71"
abbreviation (input) EOVERFLOW :: errno where "EOVERFLOW \<equiv> 75"
abbreviation (input) ENOBUFS :: errno where "ENOBUFS \<equiv> 105"
abbreviation (input) EALREADY :: errno where "EALREADY \<equiv> 114"
abbreviation (input) ECANCELED :: errno where "ECANCELED \<equiv> 125"

section \<open>Aborting checks\<close>

definition check :: "bool \<Rightarrow> unit option" where
  "check b = (if b then Some () else None)"

lemma check_simps [simp]:
  "check True = Some ()"
  "check False = None"
  by (simp_all add: check_def)

lemma check_eq_Some [simp]: "check b = Some u \<longleftrightarrow> b"
  by (simp add: check_def)

lemma check_eq_None [simp]: "check b = None \<longleftrightarrow> \<not> b"
  by (simp add: check_def)

lemma bind_check_eq_Some [simp]:
  "Option.bind (check b) f = Some x \<longleftrightarrow> b \<and> f () = Some x"
  by (cases b) simp_all

lemma bind_check_True [simp]: "b \<Longrightarrow> Option.bind (check b) f = f ()"
  by simp

lemma ex_bool [simp]: "\<exists>b. b" "\<exists>b. \<not> b"
  by auto

section \<open>Runs of a component\<close>

text \<open>
  A component whose operations report a value is driven by a list of operations. \<open>exec\<close> is the
  state afterwards and \<open>outputs\<close> pairs every operation with what it returned.
\<close>

fun exec :: "('op \<Rightarrow> 's \<Rightarrow> 'r \<times> 's) \<Rightarrow> 'op list \<Rightarrow> 's \<Rightarrow> 's" where
  "exec step [] s = s"
| "exec step (a # as) s = exec step as (snd (step a s))"

fun outputs :: "('op \<Rightarrow> 's \<Rightarrow> 'r \<times> 's) \<Rightarrow> 'op list \<Rightarrow> 's \<Rightarrow> ('op \<times> 'r) list" where
  "outputs step [] s = []"
| "outputs step (a # as) s = (a, fst (step a s)) # outputs step as (snd (step a s))"

lemma length_outputs [simp]: "length (outputs step as s) = length as"
  by (induction as arbitrary: s) auto

lemma exec_append [simp]: "exec step (as @ bs) s = exec step bs (exec step as s)"
  by (induction as arbitrary: s) auto

lemma outputs_append [simp]:
  "outputs step (as @ bs) s = outputs step as s @ outputs step bs (exec step as s)"
  by (induction as arbitrary: s) auto

lemma take_outputs: "take n (outputs step as s) = outputs step (take n as) s"
proof (induction as arbitrary: n s)
  case (Cons a as)
  then show ?case by (cases n) auto
qed simp

lemma nth_outputs:
  "i < length as \<Longrightarrow>
   outputs step as s ! i = (as ! i, fst (step (as ! i) (exec step (take i as) s)))"
proof (induction as arbitrary: i s)
  case (Cons a as)
  then show ?case by (cases i) auto
qed simp

text \<open>An invariant of every step is an invariant of every run.\<close>

lemma exec_invariant:
  assumes "\<And>a s. P s \<Longrightarrow> P (snd (step a s))" and "P s"
  shows "P (exec step as s)"
  using assms(2)
proof (induction as arbitrary: s)
  case (Cons a as)
  then show ?case using assms(1) by simp
qed simp

section \<open>First-in first-out components\<close>

text \<open>
  The operations of a queue-like component report what they put in and what they took out.
  \<open>fifo_run\<close> collects both along a list of operations.
\<close>

fun fifo_run ::
    "('op \<Rightarrow> 's \<Rightarrow> ('v list \<times> 'v list \<times> 's) option) \<Rightarrow> 'op list \<Rightarrow> 's \<Rightarrow>
     ('v list \<times> 'v list \<times> 's) option" where
  "fifo_run step [] s = Some ([], [], s)"
| "fifo_run step (a # as) s = do {
     (ins, outs, s') \<leftarrow> step a s;
     (ins', outs', s'') \<leftarrow> fifo_run step as s';
     Some (ins @ ins', outs @ outs', s'')
   }"

text \<open>The contract: what goes in at the back comes out at the front.\<close>

locale fifo =
  fixes step :: "'op \<Rightarrow> 's \<Rightarrow> ('v list \<times> 'v list \<times> 's) option"
    and held :: "'s \<Rightarrow> 'v list"
    and good :: "'s \<Rightarrow> bool"
  assumes step_fifo: "good s \<Longrightarrow> step a s = Some (ins, outs, s') \<Longrightarrow>
    good s' \<and> held s @ ins = outs @ held s'"
begin

lemma run_fifo:
  "good s \<Longrightarrow> fifo_run step as s = Some (ins, outs, s') \<Longrightarrow> good s' \<and> held s @ ins = outs @ held s'"
proof (induction as arbitrary: s ins outs)
  case (Cons a as)
  obtain i1 o1 t where one: "step a s = Some (i1, o1, t)"
    using Cons.prems(2) by (cases "step a s") auto
  obtain i2 o2 where rest: "fifo_run step as t = Some (i2, o2, s')" "ins = i1 @ i2" "outs = o1 @ o2"
    using Cons.prems(2) one by (cases "fifo_run step as t") auto
  have step: "good t" "held s @ i1 = o1 @ held t"
    using step_fifo [OF Cons.prems(1) one] by simp_all
  have "good s'" "held t @ i2 = o2 @ held s'"
    using Cons.IH [OF step(1) rest(1)] by simp_all
  then show ?case
    using step(2) rest(2,3) by (metis append.assoc)
qed simp

end

locale total_fifo = fifo +
  assumes step_total: "good s \<Longrightarrow> \<exists>p. step a s = Some p"
begin

lemma run_total:
  "good s \<Longrightarrow>
   \<exists>ins outs s'. fifo_run step as s = Some (ins, outs, s') \<and> good s' \<and> held s @ ins = outs @ held s'"
proof (induction as arbitrary: s)
  case (Cons a as)
  obtain ins outs t where one: "step a s = Some (ins, outs, t)"
    using step_total [OF Cons.prems, of a] by (metis prod_cases3)
  then have "good t"
    using step_fifo Cons.prems by blast
  from Cons.IH [OF this] obtain ins' outs' s' where rest: "fifo_run step as t = Some (ins', outs', s')"
    by blast
  have run: "fifo_run step (a # as) s = Some (ins @ ins', outs @ outs', s')"
    using one rest by simp
  show ?case
    using run run_fifo [OF Cons.prems run] by blast
qed simp

end

end
