(* ===== verification/Intrusive_Containers.thy ===== *)
theory Intrusive_Containers
  imports Alyrn_Prelude
begin

text \<open>
  \<^verbatim>\<open>detail/intrusive_queue.h\<close> and \<^verbatim>\<open>detail/intrusive_list.h\<close>: circular linked containers whose
  links live in the elements. The link fields of all nodes are functions from addresses to
  addresses; a null \<^verbatim>\<open>next_\<close> means that the node is in no container. The sentinel is a node at
  the address of the container. \<open>linked\<close> relates the pointers to the list of the elements.
\<close>

section \<open>Linked segments\<close>

text \<open>\<open>linked nx a xs b\<close>: following \<open>nx\<close> from \<open>a\<close> visits \<open>xs\<close> and then reaches \<open>b\<close>.\<close>

fun linked :: "(addr \<Rightarrow> addr) \<Rightarrow> addr \<Rightarrow> addr list \<Rightarrow> addr \<Rightarrow> bool" where
  "linked nx a [] b \<longleftrightarrow> nx a = b"
| "linked nx a (x # xs) b \<longleftrightarrow> nx a = x \<and> linked nx x xs b"

declare linked.simps(2) [simp del]

lemma linked_Cons [simp]: "linked nx a (x # xs) b \<longleftrightarrow> nx a = x \<and> linked nx x xs b"
  by (rule linked.simps)

lemma linked_append:
  "linked nx a (xs @ x # ys) b \<longleftrightarrow> linked nx a xs x \<and> linked nx x ys b"
  by (induction xs arbitrary: a) auto

lemma linked_frame: "u \<noteq> a \<Longrightarrow> u \<notin> set xs \<Longrightarrow> linked (nx(u := v)) a xs b = linked nx a xs b"
  by (induction xs arbitrary: a) auto

lemma linked_snoc: "linked nx a (xs @ [x]) b \<longleftrightarrow> linked nx a xs x \<and> nx x = b"
  by (simp add: linked_append)

lemma linked_last: "linked nx a xs b \<Longrightarrow> nx (last (a # xs)) = b"
  by (induction xs arbitrary: a) auto

text \<open>Redirecting the last link of a segment.\<close>

lemma linked_redirect:
  assumes "linked nx a xs b" and "distinct (a # xs)"
  shows "linked (nx(last (a # xs) := c)) a xs c"
  using assms
proof (induction xs arbitrary: a)
  case (Cons x xs)
  have "linked (nx(last (x # xs) := c)) x xs c"
    by (rule Cons.IH) (use Cons.prems in auto)
  moreover have "last (x # xs) \<noteq> a"
    using Cons.prems(2) last_in_set [of "x # xs"] by auto
  moreover have "last (a # x # xs) = last (x # xs)"
    by simp
  moreover have "nx a = x"
    using Cons.prems(1) by simp
  ultimately show ?case
    by (simp only: linked_Cons fun_upd_other not_sym simp_thms)
qed simp

section \<open>IntrusiveQueue\<close>

record IntrusiveQueue =
  iq_head :: addr
  iq_tail :: addr

type_synonym links = "addr \<Rightarrow> addr"

definition Queue_InQueue :: "links \<Rightarrow> addr \<Rightarrow> bool" where
  "Queue_InQueue nx node \<longleftrightarrow> nx node \<noteq> nullptr"

definition Queue_Reset :: "links \<times> IntrusiveQueue \<Rightarrow> links \<times> IntrusiveQueue" where
  "Queue_Reset s = (case s of (nx, q) \<Rightarrow> (nx(iq_head q := iq_head q), q\<lparr>iq_tail := iq_head q\<rparr>))"

definition Queue_Empty :: "links \<times> IntrusiveQueue \<Rightarrow> bool" where
  "Queue_Empty s = (case s of (nx, q) \<Rightarrow> nx (iq_head q) = iq_head q)"

definition Queue_Front :: "links \<times> IntrusiveQueue \<Rightarrow> addr" where
  "Queue_Front s = (if Queue_Empty s then nullptr else fst s (iq_head (snd s)))"

definition Queue_PushBack ::
    "addr \<Rightarrow> links \<times> IntrusiveQueue \<Rightarrow> bool \<times> links \<times> IntrusiveQueue" where
  "Queue_PushBack elem s =
     (case s of (nx, q) \<Rightarrow>
        if elem = nullptr then (False, nx, q)
        else if Queue_InQueue nx elem then (False, nx, q)
        else
          let nx1 = nx(iq_tail q := elem);
              nx2 = nx1(elem := iq_head q)
          in (True, nx2, q\<lparr>iq_tail := elem\<rparr>))"

definition Queue_PopFront :: "links \<times> IntrusiveQueue \<Rightarrow> addr \<times> links \<times> IntrusiveQueue" where
  "Queue_PopFront s =
     (case s of (nx, q) \<Rightarrow>
        let node = nx (iq_head q) in
        if node = iq_head q then (nullptr, nx, q)
        else
          let next = nx node;
              nx1 = nx(iq_head q := next);
              nx2 = nx1(node := nullptr)
          in (node, nx2, if next = iq_head q then q\<lparr>iq_tail := iq_head q\<rparr> else q))"

partial_function (option) Queue_Clear_loop :: "addr \<Rightarrow> addr \<Rightarrow> links \<Rightarrow> links option" where
  "Queue_Clear_loop head cur nx =
     (if cur = head then Some nx
      else Queue_Clear_loop head (nx cur) (nx(cur := nullptr)))"

definition Queue_Clear :: "links \<times> IntrusiveQueue \<Rightarrow> (links \<times> IntrusiveQueue) option" where
  "Queue_Clear s =
     (case s of (nx, q) \<Rightarrow> do {
        nx1 \<leftarrow> Queue_Clear_loop (iq_head q) (nx (iq_head q)) nx;
        Some (Queue_Reset (nx1, q))
      })"

text \<open>\<open>Splice\<close> of two queues over the same link memory; the last component is \<^verbatim>\<open>other\<close>.\<close>

definition Queue_Splice ::
    "links \<Rightarrow> IntrusiveQueue \<Rightarrow> IntrusiveQueue \<Rightarrow> links \<times> IntrusiveQueue \<times> IntrusiveQueue" where
  "Queue_Splice nx q other =
     (if iq_head other = iq_head q then (nx, q, other)
      else if Queue_Empty (nx, other) then (nx, q, other)
      else
        let first = nx (iq_head other);
            last = iq_tail other;
            nx1 = nx(iq_tail q := first);
            nx2 = nx1(last := iq_head q);
            (nx3, other') = Queue_Reset (nx2, other)
        in (nx3, q\<lparr>iq_tail := last\<rparr>, other'))"

text \<open>The callback sees the element and its own state, and does not touch the links.\<close>

partial_function (option) Queue_ForEachSafe_loop ::
    "(addr \<Rightarrow> 'c \<Rightarrow> bool \<times> 'c) \<Rightarrow> addr \<Rightarrow> addr \<Rightarrow> 'c \<Rightarrow> links \<times> IntrusiveQueue \<Rightarrow>
     ('c \<times> links \<times> IntrusiveQueue) option" where
  "Queue_ForEachSafe_loop fn prev cur c s =
     (case s of (nx, q) \<Rightarrow>
        if cur = iq_head q then Some (c, nx, q)
        else
          let next = nx cur;
              (remove, c') = fn cur c
          in if remove then
               let nx1 = nx(prev := next);
                   q1 = (if iq_tail q = cur then q\<lparr>iq_tail := prev\<rparr> else q);
                   nx2 = nx1(cur := nullptr)
               in Queue_ForEachSafe_loop fn prev next c' (nx2, q1)
             else Queue_ForEachSafe_loop fn cur next c' (nx, q))"

definition Queue_ForEachSafe ::
    "(addr \<Rightarrow> 'c \<Rightarrow> bool \<times> 'c) \<Rightarrow> 'c \<Rightarrow> links \<times> IntrusiveQueue \<Rightarrow>
     ('c \<times> links \<times> IntrusiveQueue) option" where
  "Queue_ForEachSafe fn c s =
     Queue_ForEachSafe_loop fn (iq_head (snd s)) (fst s (iq_head (snd s))) c s"

section \<open>IntrusiveList\<close>

record ListLinks =
  il_prev :: links
  il_next :: links

definition List_InList :: "ListLinks \<Rightarrow> addr \<Rightarrow> bool" where
  "List_InList h node \<longleftrightarrow> il_next h node \<noteq> nullptr"

definition List_Empty :: "addr \<Rightarrow> ListLinks \<Rightarrow> bool" where
  "List_Empty head h \<longleftrightarrow> il_next h head = head"

definition List_Reset :: "addr \<Rightarrow> ListLinks \<Rightarrow> ListLinks" where
  "List_Reset head h = h\<lparr>il_next := (il_next h)(head := head), il_prev := (il_prev h)(head := head)\<rparr>"

definition List_clear_hook :: "addr \<Rightarrow> ListLinks \<Rightarrow> ListLinks" where
  "List_clear_hook node h =
     h\<lparr>il_prev := (il_prev h)(node := nullptr), il_next := (il_next h)(node := nullptr)\<rparr>"

definition List_SpliceOut :: "addr \<Rightarrow> ListLinks \<Rightarrow> ListLinks" where
  "List_SpliceOut node h =
     (let h1 = h\<lparr>il_next := (il_next h)(il_prev h node := il_next h node)\<rparr>
      in h1\<lparr>il_prev := (il_prev h1)(il_next h1 node := il_prev h1 node)\<rparr>)"

definition List_LinkBetween :: "addr \<Rightarrow> addr \<Rightarrow> addr \<Rightarrow> ListLinks \<Rightarrow> ListLinks" where
  "List_LinkBetween node prev next h =
     (let h1 = h\<lparr>il_prev := (il_prev h)(node := prev), il_next := (il_next h)(node := next)\<rparr>;
          h2 = h1\<lparr>il_next := (il_next h1)(prev := node)\<rparr>
      in h2\<lparr>il_prev := (il_prev h2)(next := node)\<rparr>)"

definition List_Unlink :: "addr \<Rightarrow> ListLinks \<Rightarrow> ListLinks" where
  "List_Unlink node h = List_clear_hook node (List_SpliceOut node h)"

definition List_Front :: "addr \<Rightarrow> ListLinks \<Rightarrow> addr" where
  "List_Front head h = (if List_Empty head h then nullptr else il_next h head)"

definition List_Back :: "addr \<Rightarrow> ListLinks \<Rightarrow> addr" where
  "List_Back head h = (if List_Empty head h then nullptr else il_prev h head)"

definition List_PushFront :: "addr \<Rightarrow> addr \<Rightarrow> ListLinks \<Rightarrow> bool \<times> ListLinks" where
  "List_PushFront head elem h =
     (if elem = nullptr then (False, h)
      else if List_InList h elem then (False, h)
      else (True, List_LinkBetween elem head (il_next h head) h))"

definition List_PushBack :: "addr \<Rightarrow> addr \<Rightarrow> ListLinks \<Rightarrow> bool \<times> ListLinks" where
  "List_PushBack head elem h =
     (if elem = nullptr then (False, h)
      else if List_InList h elem then (False, h)
      else (True, List_LinkBetween elem (il_prev h head) head h))"

definition List_PopFront :: "addr \<Rightarrow> ListLinks \<Rightarrow> addr \<times> ListLinks" where
  "List_PopFront head h =
     (if List_Empty head h then (nullptr, h)
      else let node = il_next h head in (node, List_Unlink node h))"

definition List_Erase :: "addr \<Rightarrow> ListLinks \<Rightarrow> bool \<times> ListLinks" where
  "List_Erase elem h =
     (if elem = nullptr then (False, h)
      else if \<not> List_InList h elem then (False, h)
      else (True, List_Unlink elem h))"

partial_function (option) List_Clear_loop :: "addr \<Rightarrow> addr \<Rightarrow> ListLinks \<Rightarrow> ListLinks option" where
  "List_Clear_loop head cur h =
     (if cur = head then Some h
      else List_Clear_loop head (il_next h cur) (List_clear_hook cur h))"

definition List_Clear :: "addr \<Rightarrow> ListLinks \<Rightarrow> ListLinks option" where
  "List_Clear head h = do {
     h1 \<leftarrow> List_Clear_loop head (il_next h head) h;
     Some (h1\<lparr>il_next := (il_next h1)(head := head), il_prev := (il_prev h1)(head := head)\<rparr>)
   }"

text \<open>The callback may change the links itself, e.g. by erasing the visited element.\<close>

partial_function (option) List_RemoveIf_loop ::
    "(addr \<Rightarrow> 'c \<times> ListLinks \<Rightarrow> bool \<times> 'c \<times> ListLinks) \<Rightarrow> addr \<Rightarrow> addr \<Rightarrow> 'c \<times> ListLinks \<Rightarrow>
     ('c \<times> ListLinks) option" where
  "List_RemoveIf_loop pred head cur s =
     (if cur = head then Some s
      else
        let next = il_next (snd s) cur;
            (remove, c, h) = pred cur s
        in List_RemoveIf_loop pred head next (c, if remove then List_Unlink cur h else h))"

definition List_RemoveIf ::
    "(addr \<Rightarrow> 'c \<times> ListLinks \<Rightarrow> bool \<times> 'c \<times> ListLinks) \<Rightarrow> addr \<Rightarrow> 'c \<times> ListLinks \<Rightarrow>
     ('c \<times> ListLinks) option" where
  "List_RemoveIf pred head s = List_RemoveIf_loop pred head (il_next (snd s) head) s"

definition List_ForEachSafe ::
    "(addr \<Rightarrow> 'c \<times> ListLinks \<Rightarrow> bool \<times> 'c \<times> ListLinks) \<Rightarrow> addr \<Rightarrow> 'c \<times> ListLinks \<Rightarrow>
     ('c \<times> ListLinks) option" where
  "List_ForEachSafe fn head s = List_RemoveIf fn head s"

definition List_Splice :: "addr \<Rightarrow> addr \<Rightarrow> ListLinks \<Rightarrow> ListLinks" where
  "List_Splice head other h =
     (if other = head then h
      else if List_Empty other h then h
      else
        let first = il_next h other;
            last = il_prev h other;
            tail = il_prev h head;
            h1 = h\<lparr>il_next := (il_next h)(tail := first)\<rparr>;
            h2 = h1\<lparr>il_prev := (il_prev h1)(first := tail)\<rparr>;
            h3 = h2\<lparr>il_next := (il_next h2)(last := head)\<rparr>;
            h4 = h3\<lparr>il_prev := (il_prev h3)(head := last)\<rparr>
        in List_Reset other h4)"

section \<open>LoopShutdownRegistry\<close>

text \<open>
  \<^verbatim>\<open>detail/loop_shutdown.h\<close>: the registry of a loop at sentinel \<open>head\<close>. A participant is the
  address of its list node; \<open>stop\<close> is its stop callback, which may change its own state and
  the links.
\<close>

definition Shutdown_Register :: "addr \<Rightarrow> addr \<Rightarrow> ListLinks \<Rightarrow> bool \<times> ListLinks" where
  "Shutdown_Register head participant h = List_PushBack head participant h"

definition Shutdown_Unregister :: "addr \<Rightarrow> ListLinks \<Rightarrow> bool \<times> ListLinks" where
  "Shutdown_Unregister participant h = List_Erase participant h"

definition Shutdown_RequestStop ::
    "(addr \<Rightarrow> 'c \<times> ListLinks \<Rightarrow> 'c \<times> ListLinks) \<Rightarrow> addr \<Rightarrow> 'c \<times> ListLinks \<Rightarrow> ('c \<times> ListLinks) option" where
  "Shutdown_RequestStop stop head s = List_ForEachSafe (\<lambda>participant s. (False, stop participant s)) head s"

definition Shutdown_Empty :: "addr \<Rightarrow> ListLinks \<Rightarrow> bool" where
  "Shutdown_Empty head h = List_Empty head h"

section \<open>Lemmas on segments\<close>

text \<open>The same segment given by its first node instead of the node before it.\<close>

fun path :: "links \<Rightarrow> addr \<Rightarrow> addr list \<Rightarrow> addr \<Rightarrow> bool" where
  "path nx cur [] b \<longleftrightarrow> cur = b"
| "path nx cur (x # xs) b \<longleftrightarrow> cur = x \<and> path nx (nx x) xs b"

declare path.simps(2) [simp del]

lemma path_Cons [simp]: "path nx cur (x # xs) b \<longleftrightarrow> cur = x \<and> path nx (nx x) xs b"
  by (rule path.simps)

lemma linked_path: "linked nx a xs b \<longleftrightarrow> path nx (nx a) xs b"
  by (induction xs arbitrary: a) auto

lemma path_frame: "u \<notin> set xs \<Longrightarrow> path (nx(u := v)) cur xs b = path nx cur xs b"
  by (induction xs arbitrary: cur) auto

lemma linked_nonnull:
  "linked nx a xs b \<Longrightarrow> b \<noteq> 0 \<Longrightarrow> 0 \<notin> set xs \<Longrightarrow> x \<in> set (a # xs) \<Longrightarrow> nx x \<noteq> 0"
  by (induction xs arbitrary: a) auto

lemma linked_next: "linked nx a xs b \<Longrightarrow> nx a = hd (xs @ [b])"
  by (cases xs) auto

lemma linked_insert:
  assumes "linked nx a (as @ bs) b" and "distinct (a # as @ bs)" and "n \<notin> set (a # as @ bs)"
  shows "linked (nx(n := hd (bs @ [b]), last (a # as) := n)) a (as @ n # bs) b"
proof -
  let ?p = "last (a # as)" and ?nx = "nx(n := hd (bs @ [b]), last (a # as) := n)"
  have p: "?p \<in> set (a # as)" by (rule last_in_set) simp
  have before: "linked nx a as (hd (bs @ [b]))" and after: "bs \<noteq> [] \<Longrightarrow> linked nx (hd bs) (tl bs) b"
    using assms(1) by (cases bs; simp add: linked_append)+
  have "linked (nx(?p := n)) a as n"
    using linked_redirect [OF before] assms(2) by simp
  then have "linked ?nx a as n"
    using assms(3) p by (subst fun_upd_twist) (auto simp: linked_frame)
  moreover have "?nx n = hd (bs @ [b])"
    using assms(3) p by auto
  moreover have "linked ?nx n bs b"
  proof (cases bs)
    case (Cons x xs)
    then have "?p \<noteq> x" "?p \<notin> set xs" "n \<noteq> x" "n \<notin> set xs"
      using assms(2,3) p by auto
    then show ?thesis
      using after Cons \<open>?nx n = _\<close> by (simp add: linked_frame)
  qed (use \<open>?nx n = _\<close> in simp)
  ultimately show ?thesis
    by (simp add: linked_append)
qed

lemma linked_remove:
  assumes "linked nx a (as @ x # bs) b" and "distinct (a # as @ x # bs)"
  shows "linked (nx(last (a # as) := nx x, x := v)) a (as @ bs) b"
proof -
  let ?p = "last (a # as)" and ?nx = "nx(last (a # as) := nx x, x := v)"
  have p: "?p \<in> set (a # as)" by (rule last_in_set) simp
  have parts: "linked nx a as x" "linked nx x bs b"
    using assms(1) by (simp_all add: linked_append)
  have "linked (nx(?p := nx x)) a as (nx x)"
    using linked_redirect [OF parts(1)] assms(2) by simp
  then have before: "linked ?nx a as (nx x)"
    using assms(2) by (subst linked_frame) auto
  show ?thesis
  proof (cases bs)
    case Nil
    then show ?thesis using before parts(2) by simp
  next
    case (Cons y ys)
    then have y: "nx x = y" "linked nx y ys b"
      using parts(2) by simp_all
    have "?p \<noteq> y" "?p \<notin> set ys" "x \<noteq> y" "x \<notin> set ys"
      using assms(2) p Cons by auto
    then have "linked ?nx y ys b"
      using y(2) by (simp add: linked_frame)
    then show ?thesis
      using before y(1) Cons by (simp add: linked_append)
  qed
qed

lemma linked_cong: "(\<And>u. u \<in> set (a # xs) \<Longrightarrow> nx' u = nx u) \<Longrightarrow> linked nx' a xs b = linked nx a xs b"
  by (induction xs arbitrary: a) auto

text \<open>Moving the elements of the ring at \<open>r\<close> into the ring at \<open>h\<close>.\<close>

lemma linked_join:
  assumes ring: "linked nx h (as @ bs) h" and other: "linked nx r ys r" and ys: "ys \<noteq> []"
    and "distinct (h # as @ bs)" and "distinct (r # ys)" and "set (h # as @ bs) \<inter> set (r # ys) = {}"
  shows "linked (nx(last (h # as) := hd ys, last ys := hd (bs @ [h]), r := r)) h (as @ ys @ bs) h"
proof -
  let ?p = "last (h # as)" and ?l = "last ys"
  define nx1 where "nx1 = nx(?p := hd ys, ?l := hd (bs @ [h]), r := r)"
  have p: "?p \<in> set (h # as)" and l: "?l \<in> set ys"
    using ys by (simp_all add: last_in_set)
  obtain y zs where cons: "ys = y # zs"
    using ys by (cases ys) auto
  have before: "linked nx h as (hd (bs @ [h]))" and after: "bs \<noteq> [] \<Longrightarrow> linked nx (hd bs) (tl bs) h"
    using ring by (cases bs; simp add: linked_append)+
  have "linked (nx(?p := y)) h as y"
    using linked_redirect [OF before] assms(4) by simp
  moreover have "nx1 u = (nx(?p := y)) u" if "u \<in> set (h # as)" for u
  proof -
    have "u \<noteq> ?l" "u \<noteq> r" using that l assms(6) by auto
    then show ?thesis by (simp add: nx1_def cons)
  qed
  ultimately have first: "linked nx1 h as y"
    using linked_cong [of h as nx1 "nx(?p := y)"] by blast
  have "linked (nx(last (y # zs) := hd (bs @ [h]))) y zs (hd (bs @ [h]))"
    using other assms(5) by (intro linked_redirect [of nx y zs r]) (simp_all add: cons)
  moreover have "nx1 u = (nx(last (y # zs) := hd (bs @ [h]))) u" if "u \<in> set (y # zs)" for u
  proof -
    have "u \<noteq> ?p" "u \<noteq> r" using that p assms(5,6) cons by auto
    then show ?thesis by (simp add: nx1_def cons)
  qed
  ultimately have second: "linked nx1 y zs (hd (bs @ [h]))"
    using linked_cong [of y zs nx1 "nx(last (y # zs) := hd (bs @ [h]))"] by blast
  have third: "linked nx1 (hd bs) (tl bs) h" if "bs \<noteq> []"
  proof -
    have "nx1 u = nx u" if "u \<in> set (hd bs # tl bs)" for u
    proof -
      have "u \<noteq> ?p" "u \<noteq> ?l" "u \<noteq> r"
        using that \<open>bs \<noteq> []\<close> p l assms(4,6) by auto
      then show ?thesis by (simp add: nx1_def)
    qed
    then show ?thesis
      using linked_cong [of "hd bs" "tl bs" nx1 nx] after [OF that] by blast
  qed
  have "linked nx1 h (as @ y # zs @ bs) h"
    using first second third by (cases bs) (auto simp: linked_append)
  then show ?thesis
    by (simp add: nx1_def cons)
qed

section \<open>Queue lemmas\<close>

definition Queue_rep :: "links \<times> IntrusiveQueue \<Rightarrow> addr list \<Rightarrow> bool" where
  "Queue_rep s xs \<longleftrightarrow>
     (case s of (nx, q) \<Rightarrow>
        iq_head q \<noteq> nullptr \<and> distinct (iq_head q # xs) \<and> nullptr \<notin> set xs \<and>
        linked nx (iq_head q) xs (iq_head q) \<and> iq_tail q = last (iq_head q # xs))"

lemma Queue_rep_InQueue: "Queue_rep (nx, q) xs \<Longrightarrow> x \<in> set (iq_head q # xs) \<Longrightarrow> Queue_InQueue nx x"
  unfolding Queue_rep_def Queue_InQueue_def using linked_nonnull by blast

lemma Queue_Reset_rep: "iq_head q \<noteq> nullptr \<Longrightarrow> Queue_rep (Queue_Reset (nx, q)) []"
  by (simp add: Queue_rep_def Queue_Reset_def)

lemma Queue_Empty_iff: "Queue_rep s xs \<Longrightarrow> Queue_Empty s \<longleftrightarrow> xs = []"
  by (cases xs) (auto simp: Queue_rep_def Queue_Empty_def)

lemma Queue_Front_correct: "Queue_rep s xs \<Longrightarrow> Queue_Front s = (case xs of [] \<Rightarrow> nullptr | x # _ \<Rightarrow> x)"
  using Queue_Empty_iff [of s xs]
  by (cases xs) (auto simp: Queue_rep_def Queue_Front_def)

lemma Queue_PushBack_correct:
  assumes "Queue_rep (nx, q) xs"
  shows "Queue_PushBack e (nx, q) =
      (if e = nullptr \<or> Queue_InQueue nx e then (False, nx, q)
       else (True, nx(iq_tail q := e, e := iq_head q), q\<lparr>iq_tail := e\<rparr>))"
    and "e \<noteq> nullptr \<Longrightarrow> \<not> Queue_InQueue nx e \<Longrightarrow>
      Queue_rep (nx(iq_tail q := e, e := iq_head q), q\<lparr>iq_tail := e\<rparr>) (xs @ [e])"
proof -
  show "Queue_PushBack e (nx, q) =
      (if e = nullptr \<or> Queue_InQueue nx e then (False, nx, q)
       else (True, nx(iq_tail q := e, e := iq_head q), q\<lparr>iq_tail := e\<rparr>))"
    by (simp add: Queue_PushBack_def Let_def)
  assume e: "e \<noteq> nullptr" "\<not> Queue_InQueue nx e"
  let ?h = "iq_head q"
  have new: "e \<notin> set (?h # xs)"
    using Queue_rep_InQueue [OF assms] e(2) by blast
  have rep: "linked nx ?h xs ?h" "distinct (?h # xs)" "iq_tail q = last (?h # xs)" "?h \<noteq> nullptr"
    "nullptr \<notin> set xs"
    using assms by (simp_all add: Queue_rep_def)
  have tail: "last (?h # xs) \<noteq> e"
    using new last_in_set [of "?h # xs"] by blast
  have "linked (nx(e := ?h, last (?h # xs) := e)) ?h (xs @ [e]) ?h"
    using linked_insert [of nx ?h xs "[]" ?h e] rep(1,2) new by simp
  then have "linked (nx(iq_tail q := e, e := ?h)) ?h (xs @ [e]) ?h"
    using fun_upd_twist [OF tail, of nx e ?h] by (simp only: rep(3))
  then show "Queue_rep (nx(iq_tail q := e, e := ?h), q\<lparr>iq_tail := e\<rparr>) (xs @ [e])"
    using rep(2,4,5) new e(1) by (simp add: Queue_rep_def)
qed

lemma Queue_PopFront_correct:
  assumes "Queue_rep (nx, q) xs"
  shows "case xs of
      [] \<Rightarrow> Queue_PopFront (nx, q) = (nullptr, nx, q)
    | x # ys \<Rightarrow> \<exists>nx' q'. Queue_PopFront (nx, q) = (x, nx', q') \<and> Queue_rep (nx', q') ys \<and>
                 \<not> Queue_InQueue nx' x \<and> iq_head q' = iq_head q \<and>
                 (\<forall>u. u \<notin> set (iq_head q # xs) \<longrightarrow> nx' u = nx u)"
proof (cases xs)
  case Nil
  then show ?thesis using assms by (simp add: Queue_rep_def Queue_PopFront_def)
next
  case (Cons x ys)
  let ?h = "iq_head q" and ?nx = "nx(iq_head q := nx x, x := nullptr)"
  let ?q = "if nx x = ?h then q\<lparr>iq_tail := ?h\<rparr> else q"
  have rep: "linked nx ?h (x # ys) ?h" "distinct (?h # x # ys)" "iq_tail q = last (?h # x # ys)"
    "?h \<noteq> nullptr" "nullptr \<notin> set (x # ys)"
    using assms Cons by (simp_all add: Queue_rep_def)
  have "Queue_PopFront (nx, q) = (x, ?nx, ?q)"
    using rep(1,2) by (auto simp: Queue_PopFront_def Let_def)
  moreover have "linked ?nx ?h ys ?h"
    using linked_remove [of nx ?h "[]" x ys ?h nullptr] rep(1,2) by simp
  moreover have "nx x = ?h \<longleftrightarrow> ys = []"
    using rep(1,2) by (cases ys) auto
  then have "iq_tail ?q = last (?h # ys)"
    using rep(3) by auto
  ultimately show ?thesis
    using rep Cons by (auto simp: Queue_rep_def Queue_InQueue_def)
qed

lemma Queue_Clear_loop_correct:
  assumes "path nx cur xs h" and "h \<notin> set xs" and "distinct xs"
  shows "Queue_Clear_loop h cur nx = Some (\<lambda>u. if u \<in> set xs then nullptr else nx u)"
  using assms
proof (induction xs arbitrary: cur nx)
  case Nil
  then show ?case by (simp add: Queue_Clear_loop.simps)
next
  case (Cons x xs)
  have "Queue_Clear_loop h cur nx = Queue_Clear_loop h (nx x) (nx(x := nullptr))"
    using Cons.prems by (subst Queue_Clear_loop.simps) auto
  also have "\<dots> = Some (\<lambda>u. if u \<in> set xs then nullptr else (nx(x := nullptr)) u)"
  proof (rule Cons.IH)
    show "path (nx(x := nullptr)) (nx x) xs h"
      using Cons.prems(1,3) by (subst path_frame) simp_all
  qed (use Cons.prems in auto)
  finally show ?case by (auto simp: fun_eq_iff)
qed

lemma Queue_Clear_correct:
  assumes "Queue_rep (nx, q) xs"
  shows "\<exists>nx' q'. Queue_Clear (nx, q) = Some (nx', q') \<and> Queue_rep (nx', q') [] \<and>
           (\<forall>x\<in>set xs. \<not> Queue_InQueue nx' x) \<and> (\<forall>u. u \<notin> set (iq_head q # xs) \<longrightarrow> nx' u = nx u)"
proof -
  have "path nx (nx (iq_head q)) xs (iq_head q)" "distinct (iq_head q # xs)" "iq_head q \<noteq> nullptr"
    using assms by (simp_all add: Queue_rep_def linked_path)
  then show ?thesis
    by (auto simp: Queue_Clear_def Queue_Clear_loop_correct Queue_Reset_def Queue_rep_def Queue_InQueue_def)
qed

text \<open>What a sweep keeps, and the state of the callback afterwards.\<close>

fun sweep :: "(addr \<Rightarrow> 'c \<Rightarrow> bool \<times> 'c) \<Rightarrow> addr list \<Rightarrow> 'c \<Rightarrow> addr list \<times> 'c" where
  "sweep fn [] c = ([], c)"
| "sweep fn (x # xs) c =
     (let (remove, c') = fn x c; (kept, c'') = sweep fn xs c'
      in (if remove then kept else x # kept, c''))"

lemma sweep_subset: "sweep fn xs c = (ys, c') \<Longrightarrow> set ys \<subseteq> set xs"
  by (induction xs arbitrary: c ys c') (auto split: prod.splits if_splits, blast+)

lemma Queue_remove_step:
  assumes "Queue_rep (nx, q) (ks @ x # ys)"
  shows "Queue_rep (nx(last (iq_head q # ks) := nx x, x := nullptr),
           if iq_tail q = x then q\<lparr>iq_tail := last (iq_head q # ks)\<rparr> else q) (ks @ ys)"
proof -
  let ?h = "iq_head q"
  have rep: "linked nx ?h (ks @ x # ys) ?h" "distinct (?h # ks @ x # ys)"
    "iq_tail q = last (?h # ks @ x # ys)" "?h \<noteq> nullptr" "nullptr \<notin> set (ks @ x # ys)"
    using assms by (simp_all add: Queue_rep_def)
  have "linked (nx(last (?h # ks) := nx x, x := nullptr)) ?h (ks @ ys) ?h"
    by (rule linked_remove [OF rep(1,2)])
  moreover have "iq_tail q = x \<longleftrightarrow> ys = []"
    using rep(2,3) last_in_set [of ys] by (cases "ys = []") auto
  ultimately show ?thesis
    using rep by (auto simp: Queue_rep_def)
qed

lemma Queue_ForEachSafe_loop_correct:
  assumes "Queue_rep (nx, q) (ks @ ys)" and "prev = last (iq_head q # ks)" and "cur = hd (ys @ [iq_head q])"
    and "sweep fn ys c = (kept, c')"
  shows "\<exists>nx' q'. Queue_ForEachSafe_loop fn prev cur c (nx, q) = Some (c', nx', q') \<and>
           Queue_rep (nx', q') (ks @ kept) \<and> iq_head q' = iq_head q \<and>
           (\<forall>x\<in>set ys - set kept. \<not> Queue_InQueue nx' x) \<and>
           (\<forall>x. x \<notin> set (iq_head q # ks @ ys) \<longrightarrow> nx' x = nx x)"
  using assms
proof (induction ys arbitrary: nx q ks prev cur c kept)
  case Nil
  then show ?case by (simp add: Queue_ForEachSafe_loop.simps)
next
  case (Cons y ys)
  let ?h = "iq_head q"
  have y: "cur = y" "y \<noteq> ?h"
    using Cons.prems(1,3) by (auto simp: Queue_rep_def)
  have next_y: "nx y = hd (ys @ [?h])"
    using Cons.prems(1) by (simp add: Queue_rep_def linked_append linked_next)
  obtain remove c1 where fn: "fn y c = (remove, c1)"
    by fastforce
  obtain kept1 where sweep: "sweep fn ys c1 = (kept1, c')" "kept = (if remove then kept1 else y # kept1)"
    using Cons.prems(4) fn by (cases "sweep fn ys c1") simp
  show ?case
  proof (cases remove)
    case True
    define nx1 where "nx1 = nx(prev := nx y, y := nullptr)"
    define q1 where "q1 = (if iq_tail q = y then q\<lparr>iq_tail := prev\<rparr> else q)"
    have step: "Queue_ForEachSafe_loop fn prev cur c (nx, q) = Queue_ForEachSafe_loop fn prev (nx y) c1 (nx1, q1)"
      using y fn True by (subst Queue_ForEachSafe_loop.simps) (simp add: Let_def nx1_def q1_def)
    have head: "iq_head q1 = ?h" by (simp add: q1_def)
    have rep: "Queue_rep (nx1, q1) (ks @ ys)"
      unfolding nx1_def q1_def Cons.prems(2) by (rule Queue_remove_step [OF Cons.prems(1)])
    have p1: "prev = last (iq_head q1 # ks)" and p2: "nx y = hd (ys @ [iq_head q1])"
      unfolding head by (rule Cons.prems(2), rule next_y)
    have prev: "prev \<in> set (?h # ks)"
      unfolding Cons.prems(2) by (rule last_in_set) simp
    obtain nx' q' where rest: "Queue_ForEachSafe_loop fn prev (nx y) c1 (nx1, q1) = Some (c', nx', q')"
      "Queue_rep (nx', q') (ks @ kept1)" "iq_head q' = ?h" "\<forall>x\<in>set ys - set kept1. \<not> Queue_InQueue nx' x"
      "\<forall>x. x \<notin> set (?h # ks @ ys) \<longrightarrow> nx' x = nx1 x"
      using Cons.IH [OF rep p1 p2 sweep(1)] unfolding head by blast
    have "y \<notin> set (?h # ks @ ys)"
      using Cons.prems(1) by (auto simp: Queue_rep_def)
    then have "\<not> Queue_InQueue nx' y"
      using rest(5) by (simp add: Queue_InQueue_def nx1_def)
    then have removed: "\<forall>x\<in>set (y # ys) - set kept. \<not> Queue_InQueue nx' x"
      using rest(4) sweep(2) True by auto
    have "nx' x = nx x" if "x \<notin> set (?h # ks @ y # ys)" for x
    proof -
      have "x \<noteq> prev" "x \<noteq> y" "x \<notin> set (?h # ks @ ys)"
        using that prev by auto
      then show ?thesis
        using rest(5) by (simp add: nx1_def)
    qed
    then show ?thesis
      using rest(1-3) removed step sweep(2) True
      by (intro exI [of _ nx'] exI [of _ q'] conjI allI impI) simp_all
  next
    case False
    have step: "Queue_ForEachSafe_loop fn prev cur c (nx, q) = Queue_ForEachSafe_loop fn y (nx y) c1 (nx, q)"
      using y fn False by (subst Queue_ForEachSafe_loop.simps) simp
    have rep: "Queue_rep (nx, q) ((ks @ [y]) @ ys)"
      using Cons.prems(1) by simp
    have p1: "y = last (?h # ks @ [y])" by simp
    obtain nx' q' where rest: "Queue_ForEachSafe_loop fn y (nx y) c1 (nx, q) = Some (c', nx', q')"
      "Queue_rep (nx', q') ((ks @ [y]) @ kept1)" "iq_head q' = ?h" "\<forall>x\<in>set ys - set kept1. \<not> Queue_InQueue nx' x"
      "\<forall>x. x \<notin> set (?h # (ks @ [y]) @ ys) \<longrightarrow> nx' x = nx x"
      using Cons.IH [OF rep p1 next_y sweep(1)] by blast
    then show ?thesis
      using step sweep(2) False by (intro exI [of _ nx'] exI [of _ q'] conjI) simp_all
  qed
qed

lemma Queue_ForEachSafe_correct:
  assumes "Queue_rep (nx, q) xs" and "sweep fn xs c = (kept, c')"
  shows "\<exists>nx' q'. Queue_ForEachSafe fn c (nx, q) = Some (c', nx', q') \<and> Queue_rep (nx', q') kept \<and>
           (\<forall>x\<in>set xs - set kept. \<not> Queue_InQueue nx' x)"
proof -
  have first: "nx (iq_head q) = hd (xs @ [iq_head q])"
    using assms(1) by (simp add: Queue_rep_def linked_next)
  have rep: "Queue_rep (nx, q) ([] @ xs)" and p: "iq_head q = last [iq_head q]"
    using assms(1) by simp_all
  show ?thesis
    using Queue_ForEachSafe_loop_correct [OF rep p first assms(2)]
    unfolding Queue_ForEachSafe_def fst_conv snd_conv append_Nil by blast
qed

lemma Queue_Splice_correct:
  assumes q: "Queue_rep (nx, q) xs" and other: "Queue_rep (nx, other) ys"
    and disjoint: "set (iq_head q # xs) \<inter> set (iq_head other # ys) = {}"
  shows "\<exists>nx' q' other'. Queue_Splice nx q other = (nx', q', other') \<and>
           Queue_rep (nx', q') (xs @ ys) \<and> Queue_rep (nx', other') [] \<and>
           iq_head q' = iq_head q \<and> iq_head other' = iq_head other"
proof (cases "ys = []")
  case True
  then show ?thesis
    using q other disjoint by (auto simp: Queue_Splice_def Queue_Empty_iff [OF other])
next
  case False
  let ?h = "iq_head q" and ?o = "iq_head other"
  define nx1 where "nx1 = nx(last (?h # xs) := hd ys, last ys := ?h, ?o := ?o)"
  have rep: "linked nx ?h (xs @ []) ?h" "linked nx ?o ys ?o" "distinct (?h # xs @ [])" "distinct (?o # ys)"
    "iq_tail q = last (?h # xs)" "iq_tail other = last ys"
    using q other False by (simp_all add: Queue_rep_def)
  have heads: "?o \<noteq> ?h" "nx ?o = hd ys"
    using disjoint linked_next [OF rep(2)] False by auto
  have result: "Queue_Splice nx q other = (nx1, q\<lparr>iq_tail := last ys\<rparr>, other\<lparr>iq_tail := ?o\<rparr>)"
    using heads Queue_Empty_iff [OF other] rep(5,6) False
    by (simp add: Queue_Splice_def Queue_Reset_def nx1_def Let_def del: last.simps)
  have "linked nx1 ?h (xs @ ys) ?h"
    using linked_join [OF rep(1,2) False rep(3,4)] disjoint by (simp add: nx1_def del: last.simps)
  then have "Queue_rep (nx1, q\<lparr>iq_tail := last ys\<rparr>) (xs @ ys)"
    using q other disjoint False by (auto simp: Queue_rep_def)
  moreover have "Queue_rep (nx1, other\<lparr>iq_tail := ?o\<rparr>) []"
    using other by (simp add: Queue_rep_def nx1_def)
  ultimately show ?thesis
    using result by auto
qed

section \<open>List lemmas\<close>

definition List_rep :: "addr \<Rightarrow> ListLinks \<Rightarrow> addr list \<Rightarrow> bool" where
  "List_rep head h xs \<longleftrightarrow>
     head \<noteq> nullptr \<and> distinct (head # xs) \<and> nullptr \<notin> set xs \<and>
     linked (il_next h) head xs head \<and> linked (il_prev h) head (rev xs) head"

lemma hd_rev_snoc: "hd (rev xs @ [a]) = last (a # xs)"
  by (cases xs rule: rev_cases) auto

lemma last_Cons_rev: "last (a # rev xs) = hd (xs @ [a])"
  by (cases xs) auto

lemma List_rep_InList: "List_rep head h xs \<Longrightarrow> x \<in> set (head # xs) \<Longrightarrow> List_InList h x"
  unfolding List_rep_def List_InList_def using linked_nonnull by blast

lemma List_Reset_rep: "head \<noteq> nullptr \<Longrightarrow> List_rep head (List_Reset head h) []"
  by (simp add: List_rep_def List_Reset_def)

lemma List_Empty_iff: "List_rep head h xs \<Longrightarrow> List_Empty head h \<longleftrightarrow> xs = []"
  by (cases xs) (auto simp: List_rep_def List_Empty_def)

lemma List_ends:
  assumes "List_rep head h xs"
  shows "il_next h head = hd (xs @ [head])" and "il_prev h head = last (head # xs)"
  using assms linked_next by (simp_all add: List_rep_def hd_rev_snoc [symmetric] del: last.simps)

lemma List_neighbours:
  assumes "List_rep head h (as @ x # bs)"
  shows "il_next h x = hd (bs @ [head])" and "il_prev h x = last (head # as)"
  using assms linked_next
  by (simp_all add: List_rep_def linked_append hd_rev_snoc [symmetric] del: last.simps)

lemma List_LinkBetween_rep:
  assumes "List_rep head h (as @ bs)" and "n \<notin> set (head # as @ bs)" and "n \<noteq> nullptr"
  shows "List_rep head (List_LinkBetween n (last (head # as)) (hd (bs @ [head])) h) (as @ n # bs)"
proof -
  have rep: "linked (il_next h) head (as @ bs) head" "linked (il_prev h) head (rev bs @ rev as) head"
    "distinct (head # as @ bs)" "head \<noteq> nullptr" "nullptr \<notin> set (as @ bs)"
    using assms(1) by (simp_all add: List_rep_def)
  have "linked ((il_next h)(n := hd (bs @ [head]), last (head # as) := n)) head (as @ n # bs) head"
    by (rule linked_insert [OF rep(1,3) assms(2)])
  moreover have "linked ((il_prev h)(n := last (head # as), hd (bs @ [head]) := n)) head (rev bs @ n # rev as) head"
  proof -
    have "distinct (head # rev bs @ rev as)" "n \<notin> set (head # rev bs @ rev as)"
      using rep(3) assms(2) by auto
    then show ?thesis
      using linked_insert [OF rep(2)] unfolding hd_rev_snoc last_Cons_rev by blast
  qed
  ultimately show ?thesis
    using rep(3-5) assms(2,3)
    by (simp add: List_rep_def List_LinkBetween_def Let_def del: last.simps)
qed

lemma List_Unlink_rep:
  assumes "List_rep head h (as @ x # bs)"
  shows "List_rep head (List_Unlink x h) (as @ bs)" and "\<not> List_InList (List_Unlink x h) x"
    and "u \<notin> set (head # as @ x # bs) \<Longrightarrow> il_next (List_Unlink x h) u = il_next h u"
    and "u \<notin> set (head # as @ x # bs) \<Longrightarrow> il_prev (List_Unlink x h) u = il_prev h u"
proof -
  have rep: "linked (il_next h) head (as @ x # bs) head" "linked (il_prev h) head (rev bs @ x # rev as) head"
    "distinct (head # as @ x # bs)" "head \<noteq> nullptr" "nullptr \<notin> set (as @ x # bs)"
    using assms(1) by (simp_all add: List_rep_def)
  have p: "last (head # as) \<in> set (head # as)" and n: "hd (bs @ [head]) \<in> set (head # bs)"
    by (rule last_in_set, simp) (cases bs; simp)
  then have "last (head # as) \<noteq> x"
    using rep(3) by auto
  then have unlink: "List_Unlink x h =
      h\<lparr>il_next := (il_next h)(last (head # as) := il_next h x, x := nullptr),
        il_prev := (il_prev h)(hd (bs @ [head]) := il_prev h x, x := nullptr)\<rparr>"
    using List_neighbours [OF assms(1)]
    by (simp add: List_Unlink_def List_clear_hook_def List_SpliceOut_def Let_def del: last.simps)
  have "linked ((il_next h)(last (head # as) := il_next h x, x := nullptr)) head (as @ bs) head"
    by (rule linked_remove [OF rep(1,3)])
  moreover have "linked ((il_prev h)(hd (bs @ [head]) := il_prev h x, x := nullptr)) head (rev bs @ rev as) head"
    using linked_remove [OF rep(2), of nullptr] rep(3) unfolding last_Cons_rev by auto
  ultimately show "List_rep head (List_Unlink x h) (as @ bs)"
    using rep(3-5) by (simp add: List_rep_def unlink del: last.simps)
  show "\<not> List_InList (List_Unlink x h) x"
    by (simp add: unlink List_InList_def del: last.simps)
  show "il_next (List_Unlink x h) u = il_next h u" "il_prev (List_Unlink x h) u = il_prev h u"
    if "u \<notin> set (head # as @ x # bs)"
  proof -
    have "u \<noteq> last (head # as)" "u \<noteq> hd (bs @ [head])" "u \<noteq> x"
      using that p n by auto
    then show "il_next (List_Unlink x h) u = il_next h u" "il_prev (List_Unlink x h) u = il_prev h u"
      by (simp_all add: unlink del: last.simps)
  qed
qed

lemma List_Front_correct: "List_rep head h xs \<Longrightarrow> List_Front head h = (case xs of [] \<Rightarrow> nullptr | x # _ \<Rightarrow> x)"
  using List_Empty_iff [of head h xs] List_ends(1) [of head h xs]
  by (cases xs) (simp_all add: List_Front_def)

lemma List_Back_correct: "List_rep head h xs \<Longrightarrow> List_Back head h = (if xs = [] then nullptr else last xs)"
  using List_Empty_iff [of head h xs] List_ends(2) [of head h xs] by (simp add: List_Back_def)

lemma List_fresh: "List_rep head h xs \<Longrightarrow> \<not> List_InList h e \<Longrightarrow> e \<notin> set (head # xs)"
  using List_rep_InList by blast

lemma List_push_correct:
  assumes "List_rep head h xs" and "e \<noteq> nullptr" and "\<not> List_InList h e"
  shows "\<exists>h'. List_PushFront head e h = (True, h') \<and> List_rep head h' (e # xs)"
    and "\<exists>h'. List_PushBack head e h = (True, h') \<and> List_rep head h' (xs @ [e])"
proof -
  have new: "e \<notin> set (head # xs)"
    by (rule List_fresh [OF assms(1,3)])
  show "\<exists>h'. List_PushFront head e h = (True, h') \<and> List_rep head h' (e # xs)"
    using List_LinkBetween_rep [of head h "[]" xs e] assms new
    by (simp add: List_PushFront_def List_ends)
  show "\<exists>h'. List_PushBack head e h = (True, h') \<and> List_rep head h' (xs @ [e])"
    using List_LinkBetween_rep [of head h xs "[]" e] assms new
    by (simp add: List_PushBack_def List_ends(2) [OF assms(1)] del: last.simps)
qed

lemma List_push_refused:
  assumes "e = nullptr \<or> List_InList h e"
  shows "List_PushFront head e h = (False, h)" and "List_PushBack head e h = (False, h)"
  using assms by (auto simp: List_PushFront_def List_PushBack_def)

lemma List_PopFront_correct:
  assumes "List_rep head h xs"
  shows "case xs of
      [] \<Rightarrow> List_PopFront head h = (nullptr, h)
    | x # ys \<Rightarrow> \<exists>h'. List_PopFront head h = (x, h') \<and> List_rep head h' ys \<and> \<not> List_InList h' x"
proof (cases xs)
  case Nil
  then show ?thesis using List_Empty_iff [OF assms] by (simp add: List_PopFront_def)
next
  case (Cons x ys)
  then have "List_PopFront head h = (x, List_Unlink x h)"
    using List_Empty_iff [OF assms] List_ends(1) [OF assms] by (simp add: List_PopFront_def)
  then show ?thesis
    using List_Unlink_rep(1,2) [of head h "[]" x ys] assms Cons by simp
qed

lemma List_Erase_correct:
  assumes "List_rep head h xs"
  shows "x \<in> set xs \<Longrightarrow> \<exists>h'. List_Erase x h = (True, h') \<and> List_rep head h' (remove1 x xs) \<and> \<not> List_InList h' x"
    and "x = nullptr \<or> \<not> List_InList h x \<Longrightarrow> List_Erase x h = (False, h)"
proof -
  show "\<exists>h'. List_Erase x h = (True, h') \<and> List_rep head h' (remove1 x xs) \<and> \<not> List_InList h' x"
    if x: "x \<in> set xs"
  proof -
    obtain as bs where split: "xs = as @ x # bs" "x \<notin> set as"
      using split_list_first [OF x] by blast
    have "List_InList h x" and "x \<noteq> nullptr"
      using List_rep_InList [OF assms, of x] x assms unfolding List_rep_def by (simp, metis)
    then show ?thesis
      using List_Unlink_rep(1,2) [of head h as x bs] assms split
      by (simp add: List_Erase_def remove1_append)
  qed
qed (auto simp: List_Erase_def)

lemma List_Clear_loop_correct:
  assumes "path (il_next h) cur xs head" and "head \<notin> set xs" and "distinct xs"
  shows "List_Clear_loop head cur h =
    Some (h\<lparr>il_prev := (\<lambda>u. if u \<in> set xs then nullptr else il_prev h u),
            il_next := (\<lambda>u. if u \<in> set xs then nullptr else il_next h u)\<rparr>)"
  using assms
proof (induction xs arbitrary: cur h)
  case Nil
  then show ?case by (simp add: List_Clear_loop.simps)
next
  case (Cons x xs)
  have "List_Clear_loop head cur h = List_Clear_loop head (il_next h x) (List_clear_hook x h)"
    using Cons.prems by (subst List_Clear_loop.simps) auto
  also have "\<dots> = Some ((List_clear_hook x h)
      \<lparr>il_prev := (\<lambda>u. if u \<in> set xs then nullptr else il_prev (List_clear_hook x h) u),
       il_next := (\<lambda>u. if u \<in> set xs then nullptr else il_next (List_clear_hook x h) u)\<rparr>)"
  proof (rule Cons.IH)
    have "path ((il_next h)(x := nullptr)) (il_next h x) xs head"
      using Cons.prems(1,3) by (subst path_frame) simp_all
    then show "path (il_next (List_clear_hook x h)) (il_next h x) xs head"
      by (simp add: List_clear_hook_def del: fun_upd_apply)
  qed (use Cons.prems in auto)
  finally show ?case
    by (auto simp: List_clear_hook_def fun_eq_iff)
qed

lemma List_Clear_correct:
  assumes "List_rep head h xs"
  shows "\<exists>h'. List_Clear head h = Some h' \<and> List_rep head h' [] \<and> (\<forall>x\<in>set xs. \<not> List_InList h' x)"
proof -
  have "path (il_next h) (il_next h head) xs head" "distinct (head # xs)" "head \<noteq> nullptr"
    using assms by (simp_all add: List_rep_def linked_path)
  then show ?thesis
    by (auto simp: List_Clear_def List_Clear_loop_correct List_rep_def List_InList_def)
qed

text \<open>
  A callback that leaves the links alone, asks for removal, or erases the visited element
  itself; \<open>f\<close> says which, and how the callback's state changes.
\<close>

definition local_callback ::
    "(addr \<Rightarrow> 'c \<Rightarrow> bool \<times> bool \<times> 'c) \<Rightarrow> addr \<Rightarrow> 'c \<times> ListLinks \<Rightarrow> bool \<times> 'c \<times> ListLinks" where
  "local_callback f x s =
     (case s of (c, h) \<Rightarrow> case f x c of (remove, erase, c') \<Rightarrow>
        (remove, c', if \<not> remove \<and> erase then snd (List_Erase x h) else h))"

definition leaves :: "(addr \<Rightarrow> 'c \<Rightarrow> bool \<times> bool \<times> 'c) \<Rightarrow> addr \<Rightarrow> 'c \<Rightarrow> bool \<times> 'c" where
  "leaves f x c = (case f x c of (remove, erase, c') \<Rightarrow> (remove \<or> erase, c'))"

lemma List_RemoveIf_step:
  assumes "List_rep head h (ks @ y # ys)" and "leaves f y c = (gone, c1)"
  shows "List_RemoveIf_loop (local_callback f) head y (c, h) =
    List_RemoveIf_loop (local_callback f) head (hd (ys @ [head])) (c1, if gone then List_Unlink y h else h)"
proof -
  have "y \<noteq> head" "il_next h y = hd (ys @ [head])"
    using assms(1) List_neighbours(1) [OF assms(1)] by (auto simp: List_rep_def)
  moreover have "List_InList h y"
    by (rule List_rep_InList [OF assms(1)]) simp
  moreover have "y \<noteq> nullptr"
    using assms(1) unfolding List_rep_def by (metis in_set_conv_decomp)
  ultimately show ?thesis
    using assms(2) by (subst List_RemoveIf_loop.simps)
      (auto simp: local_callback_def leaves_def List_Erase_def split: prod.splits)
qed

lemma List_RemoveIf_loop_correct:
  assumes "List_rep head h (ks @ ys)" and "sweep (leaves f) ys c = (kept, c')"
  shows "\<exists>h'. List_RemoveIf_loop (local_callback f) head (hd (ys @ [head])) (c, h) = Some (c', h') \<and>
           List_rep head h' (ks @ kept) \<and> (\<forall>x\<in>set ys - set kept. \<not> List_InList h' x) \<and>
           (\<forall>x. x \<notin> set (head # ks @ ys) \<longrightarrow> il_next h' x = il_next h x)"
  using assms
proof (induction ys arbitrary: h ks c kept)
  case Nil
  then show ?case by (simp add: List_RemoveIf_loop.simps)
next
  case (Cons y ys)
  obtain gone c1 where f: "leaves f y c = (gone, c1)"
    by fastforce
  obtain kept1 where sweep: "sweep (leaves f) ys c1 = (kept1, c')" "kept = (if gone then kept1 else y # kept1)"
    using Cons.prems(2) f by (cases "sweep (leaves f) ys c1") simp
  have y: "y \<notin> set (head # ks @ ys)"
    using Cons.prems(1) by (auto simp: List_rep_def)
  define h1 where "h1 = (if gone then List_Unlink y h else h)"
  define ks1 where "ks1 = (if gone then ks else ks @ [y])"
  have rep: "List_rep head h1 (ks1 @ ys)"
    using Cons.prems(1) List_Unlink_rep(1) [OF Cons.prems(1)] by (simp add: h1_def ks1_def)
  obtain h' where rest: "List_RemoveIf_loop (local_callback f) head (hd (ys @ [head])) (c1, h1) = Some (c', h')"
    "List_rep head h' (ks1 @ kept1)" "\<forall>x\<in>set ys - set kept1. \<not> List_InList h' x"
    "\<forall>x. x \<notin> set (head # ks1 @ ys) \<longrightarrow> il_next h' x = il_next h1 x"
    using Cons.IH [OF rep sweep(1)] by blast
  have "List_RemoveIf_loop (local_callback f) head (hd ((y # ys) @ [head])) (c, h) = Some (c', h')"
    using List_RemoveIf_step [OF Cons.prems(1) f] rest(1) by (simp add: h1_def)
  moreover have "List_rep head h' (ks @ kept)"
    using rest(2) sweep(2) by (auto simp: ks1_def split: if_splits)
  moreover have "\<not> List_InList h' y" if gone
    using List_Unlink_rep(2) [OF Cons.prems(1)] rest(4) y that
    by (simp add: h1_def ks1_def List_InList_def)
  then have "\<forall>x\<in>set (y # ys) - set kept. \<not> List_InList h' x"
    using rest(3) sweep(2) by (auto split: if_splits)
  moreover have "il_next h' x = il_next h x" if "x \<notin> set (head # ks @ y # ys)" for x
    using List_Unlink_rep(3) [OF Cons.prems(1) that] rest(4) that
    by (simp add: h1_def ks1_def split: if_splits)
  ultimately show ?case
    by blast
qed

lemma List_RemoveIf_correct:
  assumes "List_rep head h xs" and "sweep (leaves f) xs c = (kept, c')"
  shows "\<exists>h'. List_RemoveIf (local_callback f) head (c, h) = Some (c', h') \<and> List_rep head h' kept \<and>
           (\<forall>x\<in>set xs - set kept. \<not> List_InList h' x)"
proof -
  have "List_rep head h ([] @ xs)" using assms(1) by simp
  from List_RemoveIf_loop_correct [OF this assms(2)] show ?thesis
    unfolding List_RemoveIf_def snd_conv List_ends(1) [OF assms(1)] append_Nil by blast
qed

lemma List_Splice_correct:
  assumes this_rep: "List_rep head h xs" and other: "List_rep oth h ys"
    and disjoint: "set (head # xs) \<inter> set (oth # ys) = {}"
  shows "List_rep head (List_Splice head oth h) (xs @ ys)" and "List_rep oth (List_Splice head oth h) []"
proof -
  have "List_rep head (List_Splice head oth h) (xs @ ys) \<and> List_rep oth (List_Splice head oth h) []"
  proof (cases "ys = []")
    case True
    then show ?thesis
      using this_rep other disjoint by (simp add: List_Splice_def List_Empty_iff [OF other])
  next
    case False
    let ?t = "last (head # xs)"
    have rep: "linked (il_next h) head (xs @ []) head" "linked (il_next h) oth ys oth"
      "linked (il_prev h) head ([] @ rev xs) head" "linked (il_prev h) oth (rev ys) oth"
      "distinct (head # xs @ [])" "distinct (oth # ys)" "distinct (head # [] @ rev xs)" "distinct (oth # rev ys)"
      using this_rep other by (simp_all add: List_rep_def)
    have ends: "il_next h oth = hd ys" "il_prev h oth = last ys" "il_prev h head = ?t" "oth \<noteq> head"
      using List_ends [OF other] List_ends(2) [OF this_rep] False disjoint by auto
    have "hd ys \<noteq> head"
      using False disjoint by (cases ys) auto
    then have result: "List_Splice head oth h =
        h\<lparr>il_next := (il_next h)(?t := hd ys, last ys := head, oth := oth),
          il_prev := (il_prev h)(head := last ys, hd ys := ?t, oth := oth)\<rparr>"
      using List_Empty_iff [OF other] False ends
      by (simp add: List_Splice_def List_Reset_def Let_def fun_upd_twist [of head "hd ys"] del: last.simps)
    have "linked ((il_next h)(?t := hd ys, last ys := head, oth := oth)) head (xs @ ys) head"
      using linked_join [OF rep(1,2) False rep(5,6)] disjoint by (simp del: last.simps)
    moreover have "linked ((il_prev h)(head := last ys, hd ys := ?t, oth := oth)) head (rev ys @ rev xs) head"
      using linked_join [OF rep(3,4) _ rep(7,8)] disjoint False
      by (simp add: hd_rev last_rev hd_rev_snoc last_ConsL del: last.simps)
    ultimately show ?thesis
      using this_rep other disjoint False
      by (auto simp: List_rep_def result simp del: last.simps)
  qed
  then show "List_rep head (List_Splice head oth h) (xs @ ys)" and "List_rep oth (List_Splice head oth h) []"
    by blast+
qed

section \<open>Sequences of operations\<close>

datatype SeqOp = PushOp addr | PopOp

text \<open>The accepted pushes and the popped elements of a sequence of operations.\<close>

fun seq_run ::
    "(addr \<Rightarrow> 's \<Rightarrow> bool \<times> 's) \<Rightarrow> ('s \<Rightarrow> addr \<times> 's) \<Rightarrow> SeqOp list \<Rightarrow> 's \<Rightarrow> addr list \<times> addr list \<times> 's" where
  "seq_run push pop [] s = ([], [], s)"
| "seq_run push pop (PushOp e # ops) s =
     (let (ok, s1) = push e s; (ins, outs, s2) = seq_run push pop ops s1
      in (if ok then e # ins else ins, outs, s2))"
| "seq_run push pop (PopOp # ops) s =
     (let (x, s1) = pop s; (ins, outs, s2) = seq_run push pop ops s1
      in (ins, if x = nullptr then outs else x # outs, s2))"

locale intrusive_sequence =
  fixes rep :: "'s \<Rightarrow> addr list \<Rightarrow> bool"
    and in_seq :: "'s \<Rightarrow> addr \<Rightarrow> bool"
    and push :: "addr \<Rightarrow> 's \<Rightarrow> bool \<times> 's"
    and pop :: "'s \<Rightarrow> addr \<times> 's"
  assumes push_accepted: "rep s xs \<Longrightarrow> e \<noteq> nullptr \<Longrightarrow> \<not> in_seq s e \<Longrightarrow> \<exists>s'. push e s = (True, s') \<and> rep s' (xs @ [e])"
    and push_refused: "e = nullptr \<or> in_seq s e \<Longrightarrow> push e s = (False, s)"
    and pop_empty: "rep s [] \<Longrightarrow> pop s = (nullptr, s)"
    and pop_front: "rep s (x # xs) \<Longrightarrow> \<exists>s'. pop s = (x, s') \<and> rep s' xs"
    and rep_nonnull: "rep s xs \<Longrightarrow> nullptr \<notin> set xs"
begin

lemma push_cases:
  assumes "rep s xs"
  obtains s' where "push e s = (True, s')" "rep s' (xs @ [e])" | "push e s = (False, s)"
proof (cases "e = nullptr \<or> in_seq s e")
  case True
  then show thesis
    by (intro that(2) push_refused)
next
  case False
  then obtain s' where "push e s = (True, s')" "rep s' (xs @ [e])"
    using push_accepted [OF assms, of e] by metis
  then show thesis
    by (rule that(1))
qed

lemma seq_run_order:
  assumes "rep s xs" and "seq_run push pop ops s = (ins, outs, s')"
  shows "\<exists>ys. rep s' ys \<and> xs @ ins = outs @ ys"
  using assms
proof (induction ops arbitrary: s xs ins outs)
  case Nil
  then show ?case by simp
next
  case (Cons op ops)
  show ?case
  proof (cases op)
    case (PushOp e)
    show ?thesis
      using Cons.prems(1)
    proof (cases rule: push_cases [of s xs e])
      case (1 s1)
      obtain ins1 where ins1: "seq_run push pop ops s1 = (ins1, outs, s')" "ins = e # ins1"
        using Cons.prems(2) 1(1) PushOp by (cases "seq_run push pop ops s1") simp
      obtain ys where "rep s' ys" "(xs @ [e]) @ ins1 = outs @ ys"
        using Cons.IH [OF 1(2) ins1(1)] by blast
      then show ?thesis
        using ins1(2) by (intro exI [of _ ys]) simp
    next
      case 2
      then have "seq_run push pop ops s = (ins, outs, s')"
        using Cons.prems(2) PushOp by (cases "seq_run push pop ops s") simp
      then show ?thesis
        using Cons.IH [OF Cons.prems(1)] by blast
    qed
  next
    case PopOp
    show ?thesis
    proof (cases xs)
      case Nil
      then have "seq_run push pop ops s = (ins, outs, s')"
        using Cons.prems PopOp pop_empty [of s] by (cases "seq_run push pop ops s") simp
      then show ?thesis
        using Cons.IH [OF Cons.prems(1)] by blast
    next
      case xs: (Cons x ys)
      then obtain s1 where s1: "pop s = (x, s1)" "rep s1 ys"
        using pop_front Cons.prems(1) by blast
      have "x \<noteq> nullptr"
        using rep_nonnull [OF Cons.prems(1)] xs by auto
      then obtain outs1 where outs1: "seq_run push pop ops s1 = (ins, outs1, s')" "outs = x # outs1"
        using Cons.prems(2) PopOp s1(1) by (cases "seq_run push pop ops s1") simp
      obtain zs where "rep s' zs" "ys @ ins = outs1 @ zs"
        using Cons.IH [OF s1(2) outs1(1)] by blast
      then show ?thesis
        using outs1(2) xs by (intro exI [of _ zs]) simp
    qed
  qed
qed

end

interpretation queue: intrusive_sequence Queue_rep "\<lambda>s. Queue_InQueue (fst s)" Queue_PushBack Queue_PopFront
proof (unfold_locales, goal_cases)
  case (1 s xs e)
  then show ?case
    using Queue_PushBack_correct [of "fst s" "snd s" xs e] by (cases s) simp
next
  case (2 e s)
  then show ?case by (cases s) (auto simp: Queue_PushBack_def)
next
  case (3 s)
  then show ?case using Queue_PopFront_correct [of "fst s" "snd s" "[]"] by (cases s) simp
next
  case (4 s x xs)
  then show ?case using Queue_PopFront_correct [of "fst s" "snd s" "x # xs"] by (cases s) auto
next
  case (5 s xs)
  then show ?case by (cases s) (simp add: Queue_rep_def)
qed

interpretation ilist: intrusive_sequence "List_rep head" List_InList "List_PushBack head" "List_PopFront head"
proof (unfold_locales, goal_cases)
  case (1 s xs e)
  then show ?case by (rule List_push_correct(2))
next
  case (2 e s)
  then show ?case by (rule List_push_refused(2))
next
  case (3 s)
  then show ?case using List_PopFront_correct by fastforce
next
  case (4 s x xs)
  then show ?case using List_PopFront_correct by fastforce
next
  case (5 s xs)
  then show ?case by (simp add: List_rep_def)
qed

section \<open>Properties\<close>

text \<open>
  C31. The intrusive queue is a FIFO: after any sequence of \<^verbatim>\<open>PushBack\<close> and \<^verbatim>\<open>PopFront\<close> on a
  queue holding \<open>xs\<close>, the elements it held followed by the accepted ones are the popped ones
  followed by those it still holds, and the links again represent the remaining elements.
\<close>

theorem intrusive_queue_fifo:
  assumes "Queue_rep (nx, q) xs"
    and "seq_run Queue_PushBack Queue_PopFront ops (nx, q) = (ins, outs, s')"
  shows "\<exists>ys. Queue_rep s' ys \<and> xs @ ins = outs @ ys"
  using assms by (rule queue.seq_run_order)

theorem intrusive_queue_fifo_witness:
  "\<exists>ys. Queue_rep ((\<lambda>_. 0)(5 := 8, 7 := 0, 8 := 5), \<lparr>iq_head = 5, iq_tail = 8\<rparr>) ys \<and> [7] @ [8] = [7] @ ys"
proof (rule intrusive_queue_fifo)
  show "Queue_rep ((\<lambda>_. 0)(5 := 7, 7 := 5), \<lparr>iq_head = 5, iq_tail = 7\<rparr>) [7]"
    by (simp add: Queue_rep_def)
  show "seq_run Queue_PushBack Queue_PopFront [PushOp 8, PushOp 7, PopOp]
      ((\<lambda>_. 0)(5 := 7, 7 := 5), \<lparr>iq_head = 5, iq_tail = 7\<rparr>) =
    ([8], [7], (\<lambda>_. 0)(5 := 8, 7 := 0, 8 := 5), \<lparr>iq_head = 5, iq_tail = 8\<rparr>)"
    by (simp add: Queue_PushBack_def Queue_PopFront_def Queue_InQueue_def fun_eq_iff)
qed

text \<open>
  C32. Stopping a loop reaches every registered participant exactly once, in registration order,
  even when a participant unregisters itself from its own callback: those stay unlinked and the
  others stay registered in order. The sweep returns.
\<close>

theorem shutdown_visits_all:
  assumes "List_rep head h xs"
    and "\<And>x log h. stop x (log, h) = (log @ [x], if quits x then snd (Shutdown_Unregister x h) else h)"
  shows "\<exists>h'. Shutdown_RequestStop stop head (log, h) = Some (log @ xs, h') \<and>
           List_rep head h' (filter (\<lambda>x. \<not> quits x) xs) \<and>
           (\<forall>x\<in>set xs. quits x \<longrightarrow> \<not> List_InList h' x)"
proof -
  define f where "f = (\<lambda>x (log :: addr list). (False, quits x, log @ [x]))"
  have swept: "sweep (leaves f) xs log = (filter (\<lambda>x. \<not> quits x) xs, log @ xs)"
    by (induction xs arbitrary: log) (auto simp: f_def leaves_def)
  have callback: "(\<lambda>x s. (False, stop x s)) = local_callback f"
    using assms(2) by (auto simp: fun_eq_iff local_callback_def f_def Shutdown_Unregister_def)
  obtain h' where "List_RemoveIf (local_callback f) head (log, h) = Some (log @ xs, h')"
    "List_rep head h' (filter (\<lambda>x. \<not> quits x) xs)"
    "\<forall>x\<in>set xs - set (filter (\<lambda>x. \<not> quits x) xs). \<not> List_InList h' x"
    using List_RemoveIf_correct [OF assms(1) swept] by blast
  then show ?thesis
    unfolding Shutdown_RequestStop_def List_ForEachSafe_def callback
    by (intro exI [of _ h'] conjI) simp_all
qed

theorem shutdown_visits_all_witness:
  "\<exists>h'. Shutdown_RequestStop
          (\<lambda>x (log, h). (log @ [x], if x = 8 then snd (Shutdown_Unregister x h) else h)) 5
          ([], \<lparr>il_prev = (\<lambda>_. 0)(5 := 8, 8 := 7, 7 := 5), il_next = (\<lambda>_. 0)(5 := 7, 7 := 8, 8 := 5)\<rparr>)
          = Some ([] @ [7, 8], h') \<and>
        List_rep 5 h' (filter (\<lambda>x. \<not> x = 8) [7, 8]) \<and>
        (\<forall>x\<in>set [7, 8]. x = 8 \<longrightarrow> \<not> List_InList h' x)"
proof -
  have rep: "List_rep 5 \<lparr>il_prev = (\<lambda>_. 0)(5 := 8, 8 := 7, 7 := 5),
                          il_next = (\<lambda>_. 0)(5 := 7, 7 := 8, 8 := 5)\<rparr> [7, 8]"
    by (simp add: List_rep_def)
  show ?thesis
    by (rule shutdown_visits_all [OF rep, where quits = "\<lambda>x. x = 8" and log = "[]"]) (rule prod.case)
qed

end
