(* ===== verification/RB_Zipper.thy ===== *)
theory RB_Zipper
  imports Alyrn_Prelude
begin

text \<open>
  Red-black trees over node addresses with a position in the tree, as the abstract level of
  \<^verbatim>\<open>detail/intrusive_rbtree.h\<close>. A position is a subtree and the frames on the way up to the root.
  \<open>ins_fix\<close> and \<open>del_fix\<close> are the two fix-up walks of the header as functions on positions; this
  theory shows that they keep the order of the elements and re-establish the colour and height
  rules.
\<close>

section \<open>Trees and positions\<close>

datatype rtree = Leaf | Node rtree addr bool rtree

fun inord :: "rtree \<Rightarrow> addr list" where
  "inord Leaf = []"
| "inord (Node l a c r) = inord l @ a # inord r"

fun is_red :: "rtree \<Rightarrow> bool" where
  "is_red Leaf = False"
| "is_red (Node l a c r) = c"

fun paint :: "bool \<Rightarrow> rtree \<Rightarrow> rtree" where
  "paint c' Leaf = Leaf"
| "paint c' (Node l a c r) = Node l a c' r"

fun bh :: "rtree \<Rightarrow> nat" where
  "bh Leaf = 0"
| "bh (Node l a c r) = (if c then bh l else Suc (bh l))"

fun invc :: "rtree \<Rightarrow> bool" where
  "invc Leaf = True"
| "invc (Node l a c r) = ((c \<longrightarrow> \<not> is_red l \<and> \<not> is_red r) \<and> invc l \<and> invc r)"

fun invh :: "rtree \<Rightarrow> bool" where
  "invh Leaf = True"
| "invh (Node l a c r) = (bh l = bh r \<and> invh l \<and> invh r)"

definition rb :: "rtree \<Rightarrow> bool" where
  "rb t \<longleftrightarrow> invc t \<and> invh t \<and> \<not> is_red t"

datatype frame = FL addr bool rtree | FR rtree addr bool

fun plug :: "frame list \<Rightarrow> rtree \<Rightarrow> rtree" where
  "plug [] t = t"
| "plug (FL a c r # C) t = plug C (Node t a c r)"
| "plug (FR l a c # C) t = plug C (Node l a c t)"

fun allows_red :: "frame list \<Rightarrow> bool" where
  "allows_red [] = False"
| "allows_red (FL a c r # C) = (\<not> c)"
| "allows_red (FR l a c # C) = (\<not> c)"

text \<open>The rules outside of the hole, for a subtree of black height \<open>n\<close> in the hole.\<close>

fun cinv :: "frame list \<Rightarrow> nat \<Rightarrow> bool" where
  "cinv [] n = True"
| "cinv (FL a c r # C) n =
     (invc r \<and> invh r \<and> bh r = n \<and> (c \<longrightarrow> \<not> is_red r \<and> allows_red C) \<and> cinv C (if c then n else Suc n))"
| "cinv (FR l a c # C) n =
     (invc l \<and> invh l \<and> bh l = n \<and> (c \<longrightarrow> \<not> is_red l \<and> allows_red C) \<and> cinv C (if c then n else Suc n))"

fun before :: "frame list \<Rightarrow> addr list" where
  "before [] = []"
| "before (FL a c r # C) = before C"
| "before (FR l a c # C) = before C @ inord l @ [a]"

fun after :: "frame list \<Rightarrow> addr list" where
  "after [] = []"
| "after (FL a c r # C) = a # inord r @ after C"
| "after (FR l a c # C) = after C"

lemma inord_plug: "inord (plug C t) = before C @ inord t @ after C"
  by (induction C t rule: plug.induct) auto

lemma inord_paint [simp]: "inord (paint c t) = inord t"
  by (cases t) auto

lemma plug_append: "plug (C @ D) t = plug D (plug C t)"
  by (induction C t rule: plug.induct) auto

lemma is_red_paint [simp]: "is_red (paint False t) = False"
  by (cases t) auto

lemma invh_paint [simp]: "invh (paint c t) = invh t"
  by (cases t) auto

lemma paint_black [simp]: "\<not> is_red t \<Longrightarrow> paint False t = t"
  by (cases t) auto

lemma invc_paint: "invc t \<Longrightarrow> invc (paint False t)"
  by (cases t) auto

lemma rb_plug:
  "rb (plug C t) \<longleftrightarrow> cinv C (bh t) \<and> invc t \<and> invh t \<and> (is_red t \<longrightarrow> allows_red C)"
  by (induction C t rule: plug.induct) (auto simp: rb_def)

lemma rb_of_plug:
  "cinv C (bh t) \<Longrightarrow> invc t \<Longrightarrow> invh t \<Longrightarrow> (is_red t \<longrightarrow> allows_red C) \<Longrightarrow> rb (paint False (plug C t))"
  using rb_plug [of C t] by (simp add: rb_def)

lemma rb_root: "invc t \<Longrightarrow> invh t \<Longrightarrow> rb (paint False t)"
  by (simp add: rb_def invc_paint)

section \<open>Insertion\<close>

fun ins_fix :: "frame list \<Rightarrow> rtree \<Rightarrow> rtree" where
  "ins_fix (FL p True r1 # FL g cg u # C) t =
     (if is_red u then ins_fix C (Node (Node t p False r1) g True (paint False u))
      else plug C (Node t p False (Node r1 g True u)))"
| "ins_fix (FR l1 p True # FL g cg u # C) t =
     (if is_red u then ins_fix C (Node (Node l1 p False t) g True (paint False u))
      else case t of
        Node x n c y \<Rightarrow> plug C (Node (Node l1 p True x) n False (Node y g True u))
      | Leaf \<Rightarrow> plug C (Node (Node l1 p True Leaf) g True u))"
| "ins_fix (FR l1 p True # FR u g cg # C) t =
     (if is_red u then ins_fix C (Node (paint False u) g True (Node l1 p False t))
      else plug C (Node (Node u g True l1) p False t))"
| "ins_fix (FL p True r1 # FR u g cg # C) t =
     (if is_red u then ins_fix C (Node (paint False u) g True (Node t p False r1))
      else case t of
        Node x n c y \<Rightarrow> plug C (Node (Node u g True x) n False (Node y p True r1))
      | Leaf \<Rightarrow> plug C (Node u g True (Node Leaf p True r1)))"
| "ins_fix C t = plug C t"

lemma bh_paint: "bh (paint False t) = (if is_red t then Suc (bh t) else bh t)"
  by (cases t) auto

lemma ins_fix_inord: "t \<noteq> Leaf \<Longrightarrow> inord (ins_fix C t) = inord (plug C t)"
  by (induction C t rule: ins_fix.induct) (simp_all add: inord_plug split: rtree.splits)

lemma cinv_single: "cinv [f] n \<Longrightarrow> allows_red [f]"
  by (cases f) auto

lemma ins_fix_rb:
  assumes "cinv C (bh t)" and "invc t" and "invh t" and "is_red t"
  shows "rb (paint False (ins_fix C t))"
  using assms
proof (induction C t rule: ins_fix.induct)
  case (1 p r1 g cg u C t)
  show ?case
  proof (cases "is_red u")
    case True
    have "rb (paint False (ins_fix C (Node (Node t p False r1) g True (paint False u))))"
      by (rule "1.IH" [OF True]) (use "1.prems" True in \<open>auto simp: bh_paint invc_paint\<close>)
    with True show ?thesis by simp
  next
    case False
    then show ?thesis using "1.prems" by (auto intro!: rb_of_plug)
  qed
next
  case (2 l1 p g cg u C t)
  show ?case
  proof (cases "is_red u")
    case True
    have "rb (paint False (ins_fix C (Node (Node l1 p False t) g True (paint False u))))"
      by (rule "2.IH" [OF True]) (use "2.prems" True in \<open>auto simp: bh_paint invc_paint\<close>)
    with True show ?thesis by simp
  next
    case False
    then show ?thesis using "2.prems" by (cases t; auto intro!: rb_of_plug)
  qed
next
  case (3 l1 p u g cg C t)
  show ?case
  proof (cases "is_red u")
    case True
    have "rb (paint False (ins_fix C (Node (paint False u) g True (Node l1 p False t))))"
      by (rule "3.IH" [OF True]) (use "3.prems" True in \<open>auto simp: bh_paint invc_paint\<close>)
    with True show ?thesis by simp
  next
    case False
    then show ?thesis using "3.prems" by (auto intro!: rb_of_plug)
  qed
next
  case (4 p r1 u g cg C t)
  show ?case
  proof (cases "is_red u")
    case True
    have "rb (paint False (ins_fix C (Node (paint False u) g True (Node t p False r1))))"
      by (rule "4.IH" [OF True]) (use "4.prems" True in \<open>auto simp: bh_paint invc_paint\<close>)
    with True show ?thesis by simp
  next
    case False
    then show ?thesis using "4.prems" by (cases t; auto intro!: rb_of_plug)
  qed
next
  case "5_1"
  then show ?case by (simp add: rb_root)
qed (simp_all only: ins_fix.simps, (rule rb_of_plug; simp add: cinv_single)+)

section \<open>Deletion\<close>

text \<open>
  One round at a black node \<open>t\<close> whose sibling is black: the flag says that the missing black
  height moves up to the parent.
\<close>

fun sib_L :: "rtree \<Rightarrow> addr \<Rightarrow> bool \<Rightarrow> rtree \<Rightarrow> bool \<times> rtree" where
  "sib_L t p cp Leaf = (False, Node t p cp Leaf)"
| "sib_L t p cp (Node sl w cw sr) =
     (if \<not> is_red sl \<and> \<not> is_red sr then (True, Node t p cp (Node sl w True sr))
      else if \<not> is_red sr then
        (case sl of Node a x c b \<Rightarrow> (False, Node (Node t p False a) x cp (Node b w False sr))
         | Leaf \<Rightarrow> (False, Leaf))
      else (False, Node (Node t p False sl) w cp (paint False sr)))"

fun sib_R :: "rtree \<Rightarrow> addr \<Rightarrow> bool \<Rightarrow> rtree \<Rightarrow> bool \<times> rtree" where
  "sib_R t p cp Leaf = (False, Node Leaf p cp t)"
| "sib_R t p cp (Node sl w cw sr) =
     (if \<not> is_red sl \<and> \<not> is_red sr then (True, Node (Node sl w True sr) p cp t)
      else if \<not> is_red sl then
        (case sr of Node a x c b \<Rightarrow> (False, Node (Node sl w False a) x cp (Node b p False t))
         | Leaf \<Rightarrow> (False, Leaf))
      else (False, Node (paint False sl) w cp (Node sr p False t)))"

definition finish :: "frame list \<Rightarrow> bool \<times> rtree \<Rightarrow> rtree" where
  "finish C r = (case r of (up, u) \<Rightarrow> if up then plug C (paint False u) else paint False (plug C u))"

fun del_fix :: "frame list \<Rightarrow> rtree \<Rightarrow> rtree" where
  "del_fix [] t = paint False t"
| "del_fix (FL p cp s # C) t =
     (if is_red t then plug (FL p cp s # C) (paint False t)
      else case s of
        Node sl w True sr \<Rightarrow> finish (FL w False sr # C) (sib_L t p True sl)
      | _ \<Rightarrow> (case sib_L t p cp s of (up, u) \<Rightarrow> if up then del_fix C u else finish C (up, u)))"
| "del_fix (FR s p cp # C) t =
     (if is_red t then plug (FR s p cp # C) (paint False t)
      else case s of
        Node sl w True sr \<Rightarrow> finish (FR sl w False # C) (sib_R t p True sr)
      | _ \<Rightarrow> (case sib_R t p cp s of (up, u) \<Rightarrow> if up then del_fix C u else finish C (up, u)))"

lemma sib_L_inord: "inord (snd (sib_L t p cp s)) = inord (Node t p cp s)"
  by (cases s) (auto split: rtree.splits)

lemma sib_R_inord: "inord (snd (sib_R t p cp s)) = inord (Node s p cp t)"
  by (cases s) (auto split: rtree.splits)

lemma finish_inord: "inord (finish C r) = before C @ inord (snd r) @ after C"
  by (cases r) (auto simp: finish_def inord_plug)

lemma del_fix_inord: "inord (del_fix C t) = inord (plug C t)"
proof (induction C t rule: del_fix.induct)
  case (2 p cp s C t)
  show ?case
  proof (cases "is_red t")
    case False
    obtain up u where sib: "sib_L t p cp s = (up, u)" by fastforce
    have "inord u = inord (Node t p cp s)" using sib_L_inord [of t p cp s] sib by simp
    moreover have "up \<Longrightarrow> \<not> is_red s \<Longrightarrow> inord (del_fix C u) = inord (plug C u)"
      using "2.IH" False sib by (cases s) auto
    ultimately show ?thesis
      using False sib by (cases "is_red s"; cases s)
        (auto simp: finish_inord sib_L_inord inord_plug simp del: sib_L.simps split: bool.splits)
  qed (simp add: inord_plug)
next
  case (3 s p cp C t)
  show ?case
  proof (cases "is_red t")
    case False
    obtain up u where sib: "sib_R t p cp s = (up, u)" by fastforce
    have "inord u = inord (Node s p cp t)" using sib_R_inord [of t p cp s] sib by simp
    moreover have "up \<Longrightarrow> \<not> is_red s \<Longrightarrow> inord (del_fix C u) = inord (plug C u)"
      using "3.IH" False sib by (cases s) auto
    ultimately show ?thesis
      using False sib by (cases "is_red s"; cases s)
        (auto simp: finish_inord sib_R_inord inord_plug simp del: sib_R.simps split: bool.splits)
  qed (simp add: inord_plug)
qed simp

text \<open>What a round promises: either a subtree of the right height, or one that is still too low.\<close>

definition round_ok :: "bool \<Rightarrow> nat \<Rightarrow> bool \<times> rtree \<Rightarrow> bool" where
  "round_ok cp n r =
     (case r of (up, u) \<Rightarrow>
        invh u \<and> is_red u = cp \<and> invc (if up then paint False u else u) \<and>
        bh u = (if up then 0 else 1) + (if cp then n else Suc n))"

lemma sib_L_ok:
  assumes "\<not> is_red t" "invc t" "invh t" "\<not> is_red s" "invc s" "invh s" "bh s = Suc (bh t)"
  shows "round_ok cp (bh t) (sib_L t p cp s)"
  using assms
  by (cases s) (auto simp: round_ok_def bh_paint invc_paint split: rtree.splits)

lemma sib_R_ok:
  assumes "\<not> is_red t" "invc t" "invh t" "\<not> is_red s" "invc s" "invh s" "bh s = Suc (bh t)"
  shows "round_ok cp (bh t) (sib_R t p cp s)"
  using assms
  by (cases s) (auto simp: round_ok_def bh_paint invc_paint split: rtree.splits)

lemma rb_paint [simp]: "rb t \<Longrightarrow> paint False t = t"
  by (simp add: rb_def)

lemma finish_rb:
  assumes "round_ok cp n r" and "cinv C (if cp then Suc n else Suc (Suc n))" and "cp \<longrightarrow> allows_red C" and "fst r \<longrightarrow> cp"
  shows "rb (finish C r)"
proof -
  obtain up u where r: "r = (up, u)" by fastforce
  show ?thesis
  proof (cases up)
    case True
    then have "rb (plug C (paint False u))"
      using assms r by (simp add: rb_plug round_ok_def bh_paint)
    then show ?thesis using True r by (simp add: finish_def)
  next
    case False
    then have "rb (plug C u)"
      using assms r by (auto simp: rb_plug round_ok_def split: if_splits)
    then show ?thesis using False r by (simp add: finish_def)
  qed
qed

lemma round_rb:
  assumes "round_ok cp n (up, u)" and "cinv C (if cp then Suc n else Suc (Suc n))" and "cp \<longrightarrow> allows_red C"
    and "up \<Longrightarrow> cinv C (Suc (bh u)) \<Longrightarrow> invc (paint False u) \<Longrightarrow> invh u \<Longrightarrow> rb (del_fix C u)"
  shows "rb (if up then del_fix C u else finish C (up, u))"
proof (cases up)
  case True
  then show ?thesis using assms by (auto simp: round_ok_def split: if_splits)
next
  case False
  then show ?thesis using finish_rb [OF assms(1-3)] by simp
qed

lemma del_fix_rb:
  assumes "cinv C (Suc (bh t))" and "invc (paint False t)" and "invh t"
  shows "rb (del_fix C t)"
  using assms
proof (induction C t rule: del_fix.induct)
  case (1 t)
  then show ?case by (simp add: rb_def)
next
  case (2 p cp s C t)
  show ?case
  proof (cases "is_red t")
    case True
    then have "rb (plug (FL p cp s # C) (paint False t))"
      unfolding rb_plug using "2.prems" by (simp add: bh_paint)
    then show ?thesis using True by simp
  next
    case False
    then have t: "\<not> is_red t" "invc t" "invh t"
      using "2.prems" by simp_all
    show ?thesis
    proof (cases "is_red s")
      case True
      then obtain sl w sr where s: "s = Node sl w True sr" by (cases s) auto
      have "round_ok True (bh t) (sib_L t p True sl)"
        by (rule sib_L_ok [OF t]) (use "2.prems"(1) s in auto)
      then have "rb (finish (FL w False sr # C) (sib_L t p True sl))"
        by (rule finish_rb) (use "2.prems"(1) s in auto)
      then show ?thesis using t(1) s by simp
    next
      case black: False
      obtain up u where sib: "sib_L t p cp s = (up, u)" by fastforce
      have ok: "round_ok cp (bh t) (up, u)"
        unfolding sib [symmetric] by (rule sib_L_ok [OF t]) (use "2.prems"(1) black in auto)
      have "rb (if up then del_fix C u else finish C (up, u))"
        by (rule round_rb [OF ok]) (use "2.IH" "2.prems"(1) sib t(1) black in \<open>cases s; auto\<close>)+
      then show ?thesis
        using t(1) black sib by (cases s) auto
    qed
  qed
next
  case (3 s p cp C t)
  show ?case
  proof (cases "is_red t")
    case True
    then have "rb (plug (FR s p cp # C) (paint False t))"
      unfolding rb_plug using "3.prems" by (simp add: bh_paint)
    then show ?thesis using True by simp
  next
    case False
    then have t: "\<not> is_red t" "invc t" "invh t"
      using "3.prems" by simp_all
    show ?thesis
    proof (cases "is_red s")
      case True
      then obtain sl w sr where s: "s = Node sl w True sr" by (cases s) auto
      have "round_ok True (bh t) (sib_R t p True sr)"
        by (rule sib_R_ok [OF t]) (use "3.prems"(1) s in auto)
      then have "rb (finish (FR sl w False # C) (sib_R t p True sr))"
        by (rule finish_rb) (use "3.prems"(1) s in auto)
      then show ?thesis using t(1) s by simp
    next
      case black: False
      obtain up u where sib: "sib_R t p cp s = (up, u)" by fastforce
      have ok: "round_ok cp (bh t) (up, u)"
        unfolding sib [symmetric] by (rule sib_R_ok [OF t]) (use "3.prems"(1) black in auto)
      have "rb (if up then del_fix C u else finish C (up, u))"
        by (rule round_rb [OF ok]) (use "3.IH" "3.prems"(1) sib t(1) black in \<open>cases s; auto\<close>)+
      then show ?thesis
        using t(1) black sib by (cases s) auto
    qed
  qed
qed

end
