(* ===== verification/Intrusive_RBTree.thy ===== *)
theory Intrusive_RBTree
  imports RB_Zipper
begin

text \<open>
  \<^verbatim>\<open>detail/intrusive_rbtree.h\<close>: the red-black tree whose links live in the elements, with parent
  pointers and a sentinel that caches the root (\<^verbatim>\<open>parent\<close>) and the minimum (\<^verbatim>\<open>left\<close>). The fields of
  all nodes are functions from addresses; the sentinel is the node at \<open>rt_sentinel\<close>. A failing
  \<^verbatim>\<open>assert\<close> is \<open>None\<close>, as is a loop that does not end. \<open>kLess\<close> is the template argument \<^verbatim>\<open>kLess\<close>.
  \<open>zrep\<close> relates the links to a position of \<^verbatim>\<open>RB_Zipper\<close>; every operation is shown to implement
  the corresponding step there.
\<close>

unbundle bit_operations_syntax

section \<open>Tagged parent word\<close>

text \<open>\<^verbatim>\<open>parent_and_flags_\<close>: an 8-byte aligned address with the colour and the linked flag in the low bits.\<close>

definition kRed :: u64 where "kRed = 1"
definition kLinked :: u64 where "kLinked = 2"
definition kReserved :: u64 where "kReserved = 4"
definition kFlagMask :: u64 where "kFlagMask = kRed OR kLinked OR kReserved"

definition word_parent :: "u64 \<Rightarrow> u64" where
  "word_parent w = w AND NOT kFlagMask"

definition word_set_parent :: "u64 \<Rightarrow> u64 \<Rightarrow> u64 option" where
  "word_set_parent raw w = do {
     check (raw AND kFlagMask = 0);
     Some (raw OR (w AND kFlagMask))
   }"

definition word_red :: "u64 \<Rightarrow> bool" where
  "word_red w \<longleftrightarrow> w AND kRed \<noteq> 0"

definition word_set_red :: "bool \<Rightarrow> u64 \<Rightarrow> u64" where
  "word_set_red red w = (if red then w OR kRed else w AND NOT kRed)"

definition word_linked :: "u64 \<Rightarrow> bool" where
  "word_linked w \<longleftrightarrow> w AND kLinked \<noteq> 0"

definition word_set_linked :: "bool \<Rightarrow> u64 \<Rightarrow> u64" where
  "word_set_linked linked w = (if linked then w OR kLinked else w AND NOT kLinked)"

section \<open>Nodes\<close>

record RBHeap =
  rb_parent :: "addr \<Rightarrow> addr"
  rb_left :: "addr \<Rightarrow> addr"
  rb_right :: "addr \<Rightarrow> addr"
  rb_red :: "addr \<Rightarrow> bool"
  rb_linked :: "addr \<Rightarrow> bool"

definition rb_set_parent :: "addr \<Rightarrow> addr \<Rightarrow> RBHeap \<Rightarrow> RBHeap" where
  "rb_set_parent node p h = h\<lparr>rb_parent := (rb_parent h)(node := p)\<rparr>"

definition rb_set_left :: "addr \<Rightarrow> addr \<Rightarrow> RBHeap \<Rightarrow> RBHeap" where
  "rb_set_left node x h = h\<lparr>rb_left := (rb_left h)(node := x)\<rparr>"

definition rb_set_right :: "addr \<Rightarrow> addr \<Rightarrow> RBHeap \<Rightarrow> RBHeap" where
  "rb_set_right node x h = h\<lparr>rb_right := (rb_right h)(node := x)\<rparr>"

definition rb_set_red :: "addr \<Rightarrow> bool \<Rightarrow> RBHeap \<Rightarrow> RBHeap" where
  "rb_set_red node c h = h\<lparr>rb_red := (rb_red h)(node := c)\<rparr>"

definition rb_set_linked :: "addr \<Rightarrow> bool \<Rightarrow> RBHeap \<Rightarrow> RBHeap" where
  "rb_set_linked node b h = h\<lparr>rb_linked := (rb_linked h)(node := b)\<rparr>"

definition rb_clear_hook :: "addr \<Rightarrow> RBHeap \<Rightarrow> RBHeap" where
  "rb_clear_hook node h =
     rb_set_linked node False (rb_set_red node False (rb_set_parent node nullptr
       (rb_set_right node nullptr (rb_set_left node nullptr h))))"

section \<open>Walks\<close>

definition Tree_set_root :: "addr \<Rightarrow> addr \<Rightarrow> RBHeap \<Rightarrow> RBHeap" where
  "Tree_set_root s node h = rb_set_parent node s (rb_set_parent s node h)"

definition Tree_IsHeader :: "RBHeap \<Rightarrow> addr \<Rightarrow> bool" where
  "Tree_IsHeader h node \<longleftrightarrow> node \<noteq> nullptr \<and> rb_right h node = node"

text \<open>The bounded walk to the header; the first argument counts the remaining iterations.\<close>

fun HeaderOf_loop :: "nat \<Rightarrow> RBHeap \<Rightarrow> addr \<Rightarrow> addr" where
  "HeaderOf_loop 0 h node = nullptr"
| "HeaderOf_loop (Suc n) h node =
     (if Tree_IsHeader h node then node
      else
        let node' = rb_parent h node in
        if node' = nullptr then nullptr else HeaderOf_loop n h node')"

definition Tree_HeaderOf :: "nat \<Rightarrow> RBHeap \<Rightarrow> addr \<Rightarrow> addr" where
  "Tree_HeaderOf sz h node =
     (if node = nullptr \<or> \<not> rb_linked h node then nullptr else HeaderOf_loop (sz + 1) h node)"

partial_function (option) Minimum_loop :: "addr \<Rightarrow> RBHeap \<Rightarrow> addr \<Rightarrow> addr option" where
  "Minimum_loop s h node =
     (if rb_left h node \<noteq> s then Minimum_loop s h (rb_left h node) else Some node)"

definition Tree_Minimum :: "addr \<Rightarrow> RBHeap \<Rightarrow> addr \<Rightarrow> addr option" where
  "Tree_Minimum s h node = do { check (node \<noteq> s); Minimum_loop s h node }"

partial_function (option) Next_loop :: "addr \<Rightarrow> RBHeap \<Rightarrow> addr \<Rightarrow> addr option" where
  "Next_loop s h node =
     (let p = rb_parent h node in
      if p = s then Some s
      else if node = rb_left h p then Some p
      else Next_loop s h p)"

definition Tree_Next :: "addr \<Rightarrow> RBHeap \<Rightarrow> addr \<Rightarrow> addr option" where
  "Tree_Next s h node = do {
     check (node \<noteq> s);
     if rb_right h node \<noteq> s then Tree_Minimum s h (rb_right h node)
     else if node = rb_parent h s then Some s
     else Next_loop s h node
   }"

definition Tree_Transplant :: "addr \<Rightarrow> addr \<Rightarrow> addr \<Rightarrow> RBHeap \<Rightarrow> RBHeap option" where
  "Tree_Transplant s src dst h = do {
     check (src \<noteq> s);
     let p = rb_parent h src;
     let h1 = (if p = s then Tree_set_root s dst h
               else if src = rb_left h p then rb_set_left p dst h
               else rb_set_right p dst h);
     Some (if dst \<noteq> s then rb_set_parent dst p h1 else h1)
   }"

definition Tree_LeftRotate :: "addr \<Rightarrow> addr \<Rightarrow> RBHeap \<Rightarrow> RBHeap option" where
  "Tree_LeftRotate s pivot h = do {
     check (pivot \<noteq> s);
     let new_top = rb_right h pivot;
     let h1 = rb_set_right pivot (rb_left h new_top) h;
     let h2 = (if rb_left h1 new_top \<noteq> s then rb_set_parent (rb_left h1 new_top) pivot h1 else h1);
     h3 \<leftarrow> Tree_Transplant s pivot new_top h2;
     Some (rb_set_parent pivot new_top (rb_set_left new_top pivot h3))
   }"

definition Tree_RightRotate :: "addr \<Rightarrow> addr \<Rightarrow> RBHeap \<Rightarrow> RBHeap option" where
  "Tree_RightRotate s pivot h = do {
     check (pivot \<noteq> s);
     let new_top = rb_left h pivot;
     let h1 = rb_set_left pivot (rb_right h new_top) h;
     let h2 = (if rb_right h1 new_top \<noteq> s then rb_set_parent (rb_right h1 new_top) pivot h1 else h1);
     h3 \<leftarrow> Tree_Transplant s pivot new_top h2;
     Some (rb_set_parent pivot new_top (rb_set_right new_top pivot h3))
   }"

section \<open>Insertion\<close>

partial_function (option) InsertFixup_loop :: "addr \<Rightarrow> addr \<Rightarrow> RBHeap \<Rightarrow> RBHeap option" where
  "InsertFixup_loop s node h =
     (if node \<noteq> rb_parent h s \<and> rb_red h (rb_parent h node) then do {
        let parent = rb_parent h node;
        check (parent \<noteq> nullptr \<and> parent \<noteq> s \<and> (rb_left h parent = node \<or> rb_right h parent = node) \<and>
               rb_red h parent);
        let grandparent = rb_parent h parent;
        check (grandparent \<noteq> nullptr \<and> grandparent \<noteq> s \<and>
               (rb_left h grandparent = parent \<or> rb_right h grandparent = parent) \<and> \<not> rb_red h grandparent);
        if parent = rb_left h grandparent then
          (let uncle = rb_right h grandparent in
           if rb_red h uncle then
             InsertFixup_loop s grandparent
               (rb_set_red grandparent True (rb_set_red uncle False (rb_set_red parent False h)))
           else do {
             (node1, parent1, h1) \<leftarrow>
               (if node = rb_right h parent then do {
                  h1 \<leftarrow> Tree_LeftRotate s parent h;
                  Some (parent, rb_parent h1 parent, h1)
                } else Some (node, parent, h));
             h2 \<leftarrow> Tree_RightRotate s grandparent (rb_set_red grandparent True (rb_set_red parent1 False h1));
             InsertFixup_loop s node1 h2
           })
        else
          (let uncle = rb_left h grandparent in
           if rb_red h uncle then
             InsertFixup_loop s grandparent
               (rb_set_red grandparent True (rb_set_red uncle False (rb_set_red parent False h)))
           else do {
             (node1, parent1, h1) \<leftarrow>
               (if node = rb_left h parent then do {
                  h1 \<leftarrow> Tree_RightRotate s parent h;
                  Some (parent, rb_parent h1 parent, h1)
                } else Some (node, parent, h));
             h2 \<leftarrow> Tree_LeftRotate s grandparent (rb_set_red grandparent True (rb_set_red parent1 False h1));
             InsertFixup_loop s node1 h2
           })
      } else Some h)"

definition Tree_InsertFixup :: "addr \<Rightarrow> addr \<Rightarrow> RBHeap \<Rightarrow> RBHeap option" where
  "Tree_InsertFixup s node h = do {
     check (node \<noteq> nullptr \<and> node \<noteq> s \<and> rb_linked h node \<and> rb_red h node \<and> rb_parent h s \<noteq> s \<and> \<not> rb_red h s);
     check (rb_left h node = s \<and> rb_right h node = s);
     h1 \<leftarrow> InsertFixup_loop s node h;
     Some (rb_set_red (rb_parent h1 s) False h1)
   }"

record IntrusiveTree =
  rt_heap :: RBHeap
  rt_sentinel :: addr
  rt_size :: nat

definition Tree_init :: "addr \<Rightarrow> RBHeap \<Rightarrow> IntrusiveTree" where
  "Tree_init s h =
     \<lparr>rt_heap = rb_set_red s False (rb_set_parent s s (rb_set_right s s (rb_set_left s s h))),
      rt_sentinel = s, rt_size = 0\<rparr>"

definition Tree_Empty :: "IntrusiveTree \<Rightarrow> bool" where
  "Tree_Empty t \<longleftrightarrow> rt_size t = 0"

definition Tree_Earliest :: "IntrusiveTree \<Rightarrow> addr" where
  "Tree_Earliest t =
     (let m = rb_left (rt_heap t) (rt_sentinel t) in if m = rt_sentinel t then nullptr else m)"

partial_function (option) Insert_descend ::
    "(addr \<Rightarrow> addr \<Rightarrow> bool) \<Rightarrow> addr \<Rightarrow> RBHeap \<Rightarrow> addr \<Rightarrow> addr \<Rightarrow> addr \<Rightarrow> addr option" where
  "Insert_descend kLess s h elem parent cursor =
     (if cursor = s then Some parent
      else do {
        check (rb_linked h cursor \<and> rb_left h cursor \<noteq> nullptr \<and> rb_right h cursor \<noteq> nullptr);
        Insert_descend kLess s h elem cursor (if kLess elem cursor then rb_left h cursor else rb_right h cursor)
      })"

text \<open>The steps of \<^verbatim>\<open>Insert\<close>: the hook of the new node, its link to the parent, the cached minimum.\<close>

definition Insert_prepare :: "addr \<Rightarrow> addr \<Rightarrow> RBHeap \<Rightarrow> RBHeap" where
  "Insert_prepare s elem h =
     rb_set_red elem True (rb_set_parent elem s (rb_set_right elem s (rb_set_left elem s (rb_set_linked elem True h))))"

definition Insert_attach ::
    "(addr \<Rightarrow> addr \<Rightarrow> bool) \<Rightarrow> addr \<Rightarrow> addr \<Rightarrow> addr \<Rightarrow> RBHeap \<Rightarrow> RBHeap option" where
  "Insert_attach kLess s elem parent h =
     (if parent = s then do { check (rb_parent h s = s); Some (Tree_set_root s elem h) }
      else if kLess elem parent then do {
        check (rb_left h parent = s);
        Some (rb_set_left parent elem h)
      } else do {
        check (rb_right h parent = s);
        Some (rb_set_right parent elem h)
      })"

definition Insert_min :: "(addr \<Rightarrow> addr \<Rightarrow> bool) \<Rightarrow> addr \<Rightarrow> addr \<Rightarrow> RBHeap \<Rightarrow> RBHeap" where
  "Insert_min kLess s elem h =
     (if rb_left h s = s \<or> kLess elem (rb_left h s) then rb_set_left s elem h else h)"

definition Tree_Insert :: "(addr \<Rightarrow> addr \<Rightarrow> bool) \<Rightarrow> addr \<Rightarrow> IntrusiveTree \<Rightarrow> (bool \<times> IntrusiveTree) option" where
  "Tree_Insert kLess elem t =
     (if elem = nullptr then Some (False, t)
      else do {
        let s = rt_sentinel t;
        let h = rt_heap t;
        check (elem \<noteq> s);
        if rb_linked h elem then Some (False, t)
        else do {
          check (rb_left h elem = nullptr \<and> rb_right h elem = nullptr \<and> rb_parent h elem = nullptr \<and> \<not> rb_red h elem);
          let h1 = Insert_prepare s elem h;
          parent \<leftarrow> Insert_descend kLess s h1 elem s (rb_parent h1 s);
          h3 \<leftarrow> Insert_attach kLess s elem parent (rb_set_parent elem parent h1);
          h5 \<leftarrow> Tree_InsertFixup s elem (Insert_min kLess s elem h3);
          check (rb_parent h5 s \<noteq> s \<and> rb_parent h5 (rb_parent h5 s) = s \<and> \<not> rb_red h5 (rb_parent h5 s) \<and>
                 rb_left h5 s \<noteq> s \<and> Tree_IsHeader h5 s \<and> rb_linked h5 elem);
          Some (True, t\<lparr>rt_heap := h5, rt_size := rt_size t + 1\<rparr>)
        }
      })"

section \<open>Deletion\<close>

partial_function (option) DeleteFixup_loop :: "addr \<Rightarrow> addr \<Rightarrow> addr \<Rightarrow> RBHeap \<Rightarrow> RBHeap option" where
  "DeleteFixup_loop s node parent h =
     (if node \<noteq> rb_parent h s \<and> \<not> rb_red h node then do {
        check (parent \<noteq> s);
        if node = rb_left h parent then do {
          let sibling = rb_right h parent;
          check (sibling \<noteq> s);
          (sibling1, h1) \<leftarrow>
            (if rb_red h sibling then do {
               h1 \<leftarrow> Tree_LeftRotate s parent (rb_set_red parent True (rb_set_red sibling False h));
               check (rb_right h1 parent \<noteq> s);
               Some (rb_right h1 parent, h1)
             } else Some (sibling, h));
          let sibling_left = rb_left h1 sibling1;
          let sibling_right = rb_right h1 sibling1;
          if \<not> rb_red h1 sibling_left \<and> \<not> rb_red h1 sibling_right then
            (let h2 = rb_set_red sibling1 True h1
             in DeleteFixup_loop s parent (rb_parent h2 parent) h2)
          else do {
            (sibling2, h2) \<leftarrow>
              (if \<not> rb_red h1 sibling_right then do {
                 h2 \<leftarrow> Tree_RightRotate s sibling1 (rb_set_red sibling1 True (rb_set_red sibling_left False h1));
                 check (rb_right h2 parent \<noteq> s);
                 Some (rb_right h2 parent, h2)
               } else Some (sibling1, h1));
            let h3 = rb_set_red sibling2 (rb_red h2 parent) h2;
            let h4 = rb_set_red parent False h3;
            let h5 = rb_set_red (rb_right h4 sibling2) False h4;
            h6 \<leftarrow> Tree_LeftRotate s parent h5;
            DeleteFixup_loop s (rb_parent h6 s) s h6
          }
        } else do {
          check (node = rb_right h parent);
          let sibling = rb_left h parent;
          check (sibling \<noteq> s);
          (sibling1, h1) \<leftarrow>
            (if rb_red h sibling then do {
               h1 \<leftarrow> Tree_RightRotate s parent (rb_set_red parent True (rb_set_red sibling False h));
               check (rb_left h1 parent \<noteq> s);
               Some (rb_left h1 parent, h1)
             } else Some (sibling, h));
          let sibling_left = rb_left h1 sibling1;
          let sibling_right = rb_right h1 sibling1;
          if \<not> rb_red h1 sibling_left \<and> \<not> rb_red h1 sibling_right then
            (let h2 = rb_set_red sibling1 True h1
             in DeleteFixup_loop s parent (rb_parent h2 parent) h2)
          else do {
            (sibling2, h2) \<leftarrow>
              (if \<not> rb_red h1 sibling_left then do {
                 h2 \<leftarrow> Tree_LeftRotate s sibling1 (rb_set_red sibling1 True (rb_set_red sibling_right False h1));
                 check (rb_left h2 parent \<noteq> s);
                 Some (rb_left h2 parent, h2)
               } else Some (sibling1, h1));
            let h3 = rb_set_red sibling2 (rb_red h2 parent) h2;
            let h4 = rb_set_red parent False h3;
            let h5 = rb_set_red (rb_left h4 sibling2) False h4;
            h6 \<leftarrow> Tree_RightRotate s parent h5;
            DeleteFixup_loop s (rb_parent h6 s) s h6
          }
        }
      } else Some (rb_set_red node False h))"

definition Tree_DeleteFixup :: "addr \<Rightarrow> addr \<Rightarrow> addr \<Rightarrow> RBHeap \<Rightarrow> RBHeap option" where
  "Tree_DeleteFixup s node parent h = do {
     check (node \<noteq> nullptr \<and> parent \<noteq> nullptr);
     DeleteFixup_loop s node parent h
   }"

text \<open>The successor \<open>detach\<close> takes the place, the left subtree and the colour of \<open>target\<close>.\<close>

definition Erase_replace :: "addr \<Rightarrow> addr \<Rightarrow> addr \<Rightarrow> RBHeap \<Rightarrow> RBHeap option" where
  "Erase_replace s target detach h = do {
     h1 \<leftarrow> Tree_Transplant s target detach h;
     check (rb_parent h1 detach = rb_parent h1 target \<or> rb_parent h1 detach = s);
     let h2 = rb_set_left detach (rb_left h1 target) h1;
     let h3 = rb_set_parent (rb_left h2 detach) detach h2;
     check (rb_left h3 detach \<noteq> s \<and> rb_parent h3 (rb_left h3 detach) = detach);
     Some (rb_set_red detach (rb_red h3 target) h3)
   }"

text \<open>
  The detaching of \<open>target\<close> from the links: the heap, the orphan, its parent, and whether the
  detached node was red.
\<close>

definition Erase_detach :: "addr \<Rightarrow> addr \<Rightarrow> RBHeap \<Rightarrow> (RBHeap \<times> addr \<times> addr \<times> bool) option" where
  "Erase_detach s target h =
     (if rb_left h target = s then do {
        let orphan = rb_right h target;
        let orphan_parent = rb_parent h target;
        check (orphan_parent \<noteq> nullptr \<and>
               (orphan_parent = s \<or> rb_left h orphan_parent = target \<or> rb_right h orphan_parent = target));
        h1 \<leftarrow> Tree_Transplant s target (rb_right h target) h;
        Some (h1, orphan, orphan_parent, rb_red h target)
      } else if rb_right h target = s then do {
        let orphan = rb_left h target;
        let orphan_parent = rb_parent h target;
        check (orphan_parent \<noteq> nullptr \<and>
               (orphan_parent = s \<or> rb_left h orphan_parent = target \<or> rb_right h orphan_parent = target));
        h1 \<leftarrow> Tree_Transplant s target (rb_left h target) h;
        Some (h1, orphan, orphan_parent, rb_red h target)
      } else do {
        detach \<leftarrow> Tree_Minimum s h (rb_right h target);
        check (detach \<noteq> s \<and> rb_left h detach = s);
        let was_red = rb_red h detach;
        let orphan = rb_right h detach;
        (h1, orphan_parent) \<leftarrow>
          (if rb_parent h detach = target then
             Some (if orphan \<noteq> s then rb_set_parent orphan detach h else h, detach)
           else do {
             let orphan_parent = rb_parent h detach;
             check (orphan_parent \<noteq> nullptr \<and> orphan_parent \<noteq> s \<and> rb_left h orphan_parent = detach);
             h1 \<leftarrow> Tree_Transplant s detach orphan h;
             let h2 = rb_set_right detach (rb_right h1 target) h1;
             let h3 = rb_set_parent (rb_right h2 detach) detach h2;
             check (rb_right h3 detach \<noteq> s \<and> rb_parent h3 (rb_right h3 detach) = detach);
             Some (h3, orphan_parent)
           });
        h2 \<leftarrow> Erase_replace s target detach h1;
        Some (h2, orphan, orphan_parent, was_red)
      })"

definition Tree_Erase :: "addr \<Rightarrow> IntrusiveTree \<Rightarrow> (bool \<times> IntrusiveTree) option" where
  "Tree_Erase elem t =
     (if elem = nullptr then Some (False, t)
      else do {
        let s = rt_sentinel t;
        let h = rt_heap t;
        check (elem \<noteq> s);
        if \<not> rb_linked h elem then Some (False, t)
        else do {
          check (Tree_HeaderOf (rt_size t) h elem = s);
          check (rb_parent h s \<noteq> s \<and> rt_size t > 0);
          check (rb_left h elem \<noteq> nullptr \<and> rb_right h elem \<noteq> nullptr \<and> rb_parent h elem \<noteq> nullptr);
          h1 \<leftarrow> (if elem = rb_left h s then do {
                   next \<leftarrow> Tree_Next s h (rb_left h s);
                   Some (rb_set_left s next h)
                 } else Some h);
          (h2, orphan, orphan_parent, was_red) \<leftarrow> Erase_detach s elem h1;
          check (orphan \<noteq> nullptr \<and> orphan_parent \<noteq> nullptr);
          h3 \<leftarrow> (if \<not> was_red then Tree_DeleteFixup s orphan orphan_parent h2 else Some h2);
          let h4 = rb_clear_hook elem h3;
          let sz = rt_size t - 1;
          check (if sz = 0 then rb_parent h4 s = s \<and> rb_left h4 s = s
                 else rb_parent h4 s \<noteq> s \<and> rb_parent h4 (rb_parent h4 s) = s \<and> rb_left h4 s \<noteq> s);
          check (Tree_IsHeader h4 s);
          Some (True, t\<lparr>rt_heap := h4, rt_size := sz\<rparr>)
        }
      })"

section \<open>Prefix extraction, clearing, checking\<close>

text \<open>The callback \<open>on_pop\<close> works on its own state and may not change the tree.\<close>

partial_function (option) ExtractPrefix_loop ::
    "(addr \<Rightarrow> bool) \<Rightarrow> (addr \<Rightarrow> 'c \<Rightarrow> 'c) \<Rightarrow> nat \<Rightarrow> 'c \<Rightarrow> IntrusiveTree \<Rightarrow> (nat \<times> 'c \<times> IntrusiveTree) option" where
  "ExtractPrefix_loop pred on_pop popped c t =
     (if Tree_Empty t then Some (popped, c, t)
      else
        let elem = Tree_Earliest t in
        if \<not> pred elem then Some (popped, c, t)
        else do {
          (erased, t1) \<leftarrow> Tree_Erase elem t;
          check erased;
          ExtractPrefix_loop pred on_pop (popped + 1) (on_pop elem c) t1
        })"

definition Tree_ExtractPrefixImpl ::
    "(addr \<Rightarrow> bool) \<Rightarrow> (addr \<Rightarrow> 'c \<Rightarrow> 'c) \<Rightarrow> 'c \<Rightarrow> IntrusiveTree \<Rightarrow> (nat \<times> 'c \<times> IntrusiveTree) option" where
  "Tree_ExtractPrefixImpl pred on_pop c t = ExtractPrefix_loop pred on_pop 0 c t"

definition Tree_ExtractPrefix :: "(addr \<Rightarrow> bool) \<Rightarrow> IntrusiveTree \<Rightarrow> (addr list \<times> IntrusiveTree) option" where
  "Tree_ExtractPrefix pred t = do {
     (_, result, t1) \<leftarrow> Tree_ExtractPrefixImpl pred (\<lambda>elem result. result @ [elem]) [] t;
     Some (result, t1)
   }"

definition Tree_PopWhile :: "(addr \<Rightarrow> bool) \<Rightarrow> IntrusiveTree \<Rightarrow> (addr list \<times> IntrusiveTree) option" where
  "Tree_PopWhile pred t = Tree_ExtractPrefix pred t"

partial_function (option) Clear_loop :: "addr \<Rightarrow> addr \<Rightarrow> RBHeap \<Rightarrow> RBHeap option" where
  "Clear_loop s node h =
     (if node = s then Some h
      else do {
        check (node \<noteq> nullptr \<and> rb_linked h node \<and> rb_left h node \<noteq> nullptr \<and> rb_right h node \<noteq> nullptr);
        if rb_left h node \<noteq> s then Clear_loop s (rb_left h node) h
        else if rb_right h node \<noteq> s then Clear_loop s (rb_right h node) h
        else do {
          let parent = rb_parent h node;
          h1 \<leftarrow> (if parent \<noteq> s then do {
                   check (parent \<noteq> nullptr);
                   if rb_left h parent = node then Some (rb_set_left parent s h)
                   else do { check (rb_right h parent = node); Some (rb_set_right parent s h) }
                 } else Some h);
          Clear_loop s parent (rb_clear_hook node h1)
        }
      })"

definition Tree_Clear :: "IntrusiveTree \<Rightarrow> IntrusiveTree option" where
  "Tree_Clear t =
     (if Tree_Empty t then Some t
      else do {
        let s = rt_sentinel t;
        h \<leftarrow> Clear_loop s (rb_parent (rt_heap t) s) (rt_heap t);
        Some (t\<lparr>rt_heap := rb_set_red s False (rb_set_right s s (rb_set_left s s (rb_set_parent s s h))),
                rt_size := 0\<rparr>)
      })"

record CheckResult =
  cr_ok :: bool
  cr_black_height :: nat
  cr_count :: nat
  cr_min :: addr

definition CheckResult_fail :: CheckResult where
  "CheckResult_fail = \<lparr>cr_ok = False, cr_black_height = 0, cr_count = 0, cr_min = nullptr\<rparr>"

partial_function (option) CheckSubtree ::
    "(addr \<Rightarrow> addr \<Rightarrow> bool) \<Rightarrow> addr \<Rightarrow> RBHeap \<Rightarrow> addr \<Rightarrow> addr \<Rightarrow> addr \<Rightarrow> addr \<Rightarrow> CheckResult option" where
  "CheckSubtree kLess s h node parent lower upper =
     (if node = s then Some \<lparr>cr_ok = True, cr_black_height = 0, cr_count = 0, cr_min = nullptr\<rparr>
      else if node = nullptr \<or> parent = nullptr then Some CheckResult_fail
      else if \<not> rb_linked h node \<or> Tree_IsHeader h node then Some CheckResult_fail
      else if rb_parent h node \<noteq> parent then Some CheckResult_fail
      else if rb_left h node = nullptr \<or> rb_right h node = nullptr then Some CheckResult_fail
      else if kLess node node then Some CheckResult_fail
      else if lower \<noteq> nullptr \<and> \<not> kLess lower node then Some CheckResult_fail
      else if upper \<noteq> nullptr \<and> \<not> kLess node upper then Some CheckResult_fail
      else if rb_red h node \<and> (rb_red h (rb_left h node) \<or> rb_red h (rb_right h node)) then Some CheckResult_fail
      else do {
        left \<leftarrow> CheckSubtree kLess s h (rb_left h node) node lower node;
        if \<not> cr_ok left then Some CheckResult_fail
        else do {
          right \<leftarrow> CheckSubtree kLess s h (rb_right h node) node node upper;
          if \<not> cr_ok right then Some CheckResult_fail
          else if cr_black_height left \<noteq> cr_black_height right then Some CheckResult_fail
          else Some \<lparr>cr_ok = True,
                     cr_black_height = cr_black_height left + (if \<not> rb_red h node then 1 else 0),
                     cr_count = cr_count left + cr_count right + 1,
                     cr_min = (if cr_count left = 0 then node else cr_min left)\<rparr>
        }
      })"

definition Tree_CheckInvariants :: "(addr \<Rightarrow> addr \<Rightarrow> bool) \<Rightarrow> IntrusiveTree \<Rightarrow> bool option" where
  "Tree_CheckInvariants kLess t =
     (let s = rt_sentinel t; h = rt_heap t; root = rb_parent h s; min = rb_left h s in
      if rb_red h s \<or> rb_linked h s \<or> \<not> Tree_IsHeader h s then Some False
      else if root = nullptr \<or> min = nullptr then Some False
      else if root = s then Some (rt_size t = 0 \<and> min = s)
      else if rt_size t = 0 \<or> min = s \<or> rb_parent h root \<noteq> s \<or> rb_red h root then Some False
      else if Tree_HeaderOf (rt_size t) h root \<noteq> s \<or> Tree_HeaderOf (rt_size t) h min \<noteq> s then Some False
      else do {
        result \<leftarrow> CheckSubtree kLess s h root s nullptr nullptr;
        Some (cr_ok result \<and> cr_count result = rt_size t \<and> cr_min result = min)
      })"

end
