(* ===== verification/RBTree_Refinement.thy ===== *)
theory RBTree_Refinement
  imports Intrusive_RBTree
begin

text \<open>
  The pointer operations of \<^verbatim>\<open>Intrusive_RBTree\<close> implement the position steps of \<^verbatim>\<open>RB_Zipper\<close>:
  rotations, recolouring and the two fix-up loops first, then insertion, deletion, prefix
  extraction, clearing and the self check.
\<close>

section \<open>Links and positions\<close>

fun root_of :: "addr \<Rightarrow> rtree \<Rightarrow> addr" where
  "root_of s Leaf = s"
| "root_of s (Node l a c r) = a"

fun top_of :: "addr \<Rightarrow> frame list \<Rightarrow> addr" where
  "top_of s [] = s"
| "top_of s (FL a c r # C) = a"
| "top_of s (FR l a c # C) = a"

fun subtree :: "RBHeap \<Rightarrow> addr \<Rightarrow> addr \<Rightarrow> rtree \<Rightarrow> bool" where
  "subtree h s p Leaf = True"
| "subtree h s p (Node l a c r) =
     (rb_parent h a = p \<and> rb_left h a = root_of s l \<and> rb_right h a = root_of s r \<and> rb_red h a = c \<and>
      rb_linked h a \<and> subtree h s a l \<and> subtree h s a r)"

fun ctx :: "RBHeap \<Rightarrow> addr \<Rightarrow> addr \<Rightarrow> frame list \<Rightarrow> bool" where
  "ctx h s x [] = (rb_parent h s = x)"
| "ctx h s x (FL a c r # C) =
     (rb_parent h a = top_of s C \<and> rb_left h a = x \<and> rb_right h a = root_of s r \<and> rb_red h a = c \<and>
      rb_linked h a \<and> subtree h s a r \<and> ctx h s a C)"
| "ctx h s x (FR l a c # C) =
     (rb_parent h a = top_of s C \<and> rb_left h a = root_of s l \<and> rb_right h a = x \<and> rb_red h a = c \<and>
      rb_linked h a \<and> subtree h s a l \<and> ctx h s a C)"

definition same_node :: "RBHeap \<Rightarrow> RBHeap \<Rightarrow> addr \<Rightarrow> bool" where
  "same_node h h' x \<longleftrightarrow>
     rb_parent h' x = rb_parent h x \<and> rb_left h' x = rb_left h x \<and> rb_right h' x = rb_right h x \<and>
     rb_red h' x = rb_red h x \<and> rb_linked h' x = rb_linked h x"

definition frame_nodes :: "frame list \<Rightarrow> addr set" where
  "frame_nodes C = set (before C) \<union> set (after C)"

text \<open>
  The heap \<open>h\<close> holds the tree with subtree \<open>t\<close> at position \<open>C\<close>; outside of \<open>A\<close> it agrees with \<open>h0\<close>.
\<close>

definition zrep :: "RBHeap \<Rightarrow> addr set \<Rightarrow> RBHeap \<Rightarrow> addr \<Rightarrow> frame list \<Rightarrow> rtree \<Rightarrow> bool" where
  "zrep h0 A h s C t \<longleftrightarrow>
     subtree h s (top_of s C) t \<and> ctx h s (root_of s t) C \<and>
     distinct (inord (plug C t)) \<and> s \<notin> set (inord (plug C t)) \<and> nullptr \<notin> set (inord (plug C t)) \<and> s \<noteq> nullptr \<and>
     rb_right h s = s \<and> \<not> rb_red h s \<and> \<not> rb_linked h s \<and>
     insert s (set (inord (plug C t))) \<subseteq> A \<and> (\<forall>x. x \<notin> A \<longrightarrow> same_node h0 h x)"

section \<open>Field updates\<close>

lemma rb_field_simps [simp]:
  "rb_parent (rb_set_parent a v h) = (rb_parent h)(a := v)" "rb_left (rb_set_parent a v h) = rb_left h"
  "rb_right (rb_set_parent a v h) = rb_right h" "rb_red (rb_set_parent a v h) = rb_red h"
  "rb_linked (rb_set_parent a v h) = rb_linked h"
  "rb_parent (rb_set_left a v h) = rb_parent h" "rb_left (rb_set_left a v h) = (rb_left h)(a := v)"
  "rb_right (rb_set_left a v h) = rb_right h" "rb_red (rb_set_left a v h) = rb_red h"
  "rb_linked (rb_set_left a v h) = rb_linked h"
  "rb_parent (rb_set_right a v h) = rb_parent h" "rb_left (rb_set_right a v h) = rb_left h"
  "rb_right (rb_set_right a v h) = (rb_right h)(a := v)" "rb_red (rb_set_right a v h) = rb_red h"
  "rb_linked (rb_set_right a v h) = rb_linked h"
  "rb_parent (rb_set_red a c h) = rb_parent h" "rb_left (rb_set_red a c h) = rb_left h"
  "rb_right (rb_set_red a c h) = rb_right h" "rb_red (rb_set_red a c h) = (rb_red h)(a := c)"
  "rb_linked (rb_set_red a c h) = rb_linked h"
  "rb_parent (rb_set_linked a c h) = rb_parent h" "rb_left (rb_set_linked a c h) = rb_left h"
  "rb_right (rb_set_linked a c h) = rb_right h" "rb_red (rb_set_linked a c h) = rb_red h"
  "rb_linked (rb_set_linked a c h) = (rb_linked h)(a := c)"
  by (simp_all add: rb_set_parent_def rb_set_left_def rb_set_right_def rb_set_red_def rb_set_linked_def)

lemma subtree_cong:
  "(\<And>x. x \<in> set (inord t) \<Longrightarrow> same_node h h' x) \<Longrightarrow> subtree h' s p t = subtree h s p t"
  by (induction t arbitrary: p) (auto simp: same_node_def)

lemma subtree_frame [simp]:
  assumes "a \<notin> set (inord t)"
  shows "subtree (rb_set_parent a v h) s p t = subtree h s p t"
    and "subtree (rb_set_left a v h) s p t = subtree h s p t"
    and "subtree (rb_set_right a v h) s p t = subtree h s p t"
    and "subtree (rb_set_red a c h) s p t = subtree h s p t"
    and "subtree (rb_set_linked a c h) s p t = subtree h s p t"
  using assms by (auto intro!: subtree_cong simp: same_node_def)

lemma ctx_cong:
  assumes "\<And>x. x \<in> set (before C) \<union> set (after C) \<Longrightarrow> same_node h h' x" and "rb_parent h' s = rb_parent h s"
  shows "ctx h' s x C = ctx h s x C"
  using assms
proof (induction C arbitrary: x)
  case (Cons f C)
  have "ctx h' s y C = ctx h s y C" for y
    by (rule Cons.IH) (use Cons.prems in \<open>cases f; auto\<close>)+
  moreover have "subtree h' s p t = subtree h s p t" if "set (inord t) \<subseteq> set (before (f # C)) \<union> set (after (f # C))" for p t
    by (rule subtree_cong) (use that Cons.prems(1) in blast)
  ultimately show ?case
    using Cons.prems(1) by (cases f) (auto simp: same_node_def)
qed simp

lemma ctx_frame [simp]:
  assumes "a \<notin> set (before C)" "a \<notin> set (after C)"
  shows "a \<noteq> s \<Longrightarrow> ctx (rb_set_parent a v h) s x C = ctx h s x C"
    and "ctx (rb_set_left a v h) s x C = ctx h s x C"
    and "ctx (rb_set_right a v h) s x C = ctx h s x C"
    and "ctx (rb_set_red a c h) s x C = ctx h s x C"
    and "ctx (rb_set_linked a c h) s x C = ctx h s x C"
  using assms by (auto intro!: ctx_cong simp: same_node_def)

text \<open>Moving the focus changes nothing.\<close>

lemma zrep_FL: "zrep h0 A h s (FL a c r # C) t = zrep h0 A h s C (Node t a c r)"
  by (auto simp: zrep_def)

lemma zrep_FR: "zrep h0 A h s (FR l a c # C) t = zrep h0 A h s C (Node l a c t)"
  by (auto simp: zrep_def)

lemma zrep_plug: "zrep h0 A h s C t = zrep h0 A h s [] (plug C t)"
  by (induction C t rule: plug.induct) (auto simp: zrep_FL zrep_FR)

lemma zrep_set_red:
  assumes "zrep h0 A h s C (Node l a c r)"
  shows "zrep h0 A (rb_set_red a c' h) s C (Node l a c' r)"
  using assms by (auto simp: zrep_def inord_plug same_node_def)

text \<open>\<open>Transplant\<close> puts \<open>dst\<close> into the hole and changes the frames and the parent of \<open>dst\<close> only.\<close>

definition transplanted :: "RBHeap \<Rightarrow> RBHeap \<Rightarrow> addr \<Rightarrow> addr \<Rightarrow> frame list \<Rightarrow> bool" where
  "transplanted h h' s dst C \<longleftrightarrow>
     ctx h' s dst C \<and> rb_red h' = rb_red h \<and> rb_linked h' = rb_linked h \<and>
     (dst \<noteq> s \<longrightarrow> rb_parent h' dst = top_of s C) \<and>
     (\<forall>x. x \<notin> set (before C) \<and> x \<notin> set (after C) \<longrightarrow>
          rb_left h' x = rb_left h x \<and> rb_right h' x = rb_right h x \<and>
          (x \<noteq> s \<and> x \<noteq> dst \<longrightarrow> rb_parent h' x = rb_parent h x))"

lemma Transplant_ctx:
  assumes "ctx h s src C" and "rb_parent h src = top_of s C" and "src \<noteq> s"
    and "src \<notin> set (before C) \<union> set (after C)" and "dst \<notin> set (before C) \<union> set (after C)"
    and "distinct (before C @ after C)" and "s \<notin> set (before C) \<union> set (after C)"
  shows "\<exists>h'. Tree_Transplant s src dst h = Some h' \<and> transplanted h h' s dst C"
proof (cases C)
  case Nil
  then show ?thesis
    using assms by (cases "dst = s") (auto simp: Tree_Transplant_def Tree_set_root_def transplanted_def)
next
  case (Cons f C')
  show ?thesis
  proof (cases f)
    case (FL g cg r)
    then show ?thesis
      using assms Cons by (cases "dst = s") (auto simp: Tree_Transplant_def transplanted_def)
  next
    case (FR l g cg)
    have "rb_left h g \<noteq> src"
      using assms Cons FR by (cases l) auto
    then show ?thesis
      using assms Cons FR by (cases "dst = s") (auto simp: Tree_Transplant_def transplanted_def)
  qed
qed

lemma transplanted_subtree:
  assumes "transplanted h h' s dst C" and "set (inord t) \<inter> insert s (insert dst (set (before C) \<union> set (after C))) = {}"
  shows "subtree h' s p t = subtree h s p t"
  by (rule subtree_cong) (use assms in \<open>auto simp: transplanted_def same_node_def\<close>)

lemma zrep_LeftRotate:
  assumes "zrep h0 A h s C (Node a p c (Node b q d e))"
  shows "\<exists>h'. Tree_LeftRotate s p h = Some h' \<and> zrep h0 A h' s C (Node (Node a p c b) q d e) \<and> rb_left h' s = rb_left h s"
proof -
  define h1 where "h1 = rb_set_right p (root_of s b) h"
  define h2 where "h2 = (if root_of s b \<noteq> s then rb_set_parent (root_of s b) p h1 else h1)"
  have rep: "subtree h s (top_of s C) (Node a p c (Node b q d e))" "ctx h s p C"
    and nodes: "distinct (before C @ inord (Node a p c (Node b q d e)) @ after C)"
    "s \<notin> set (before C @ inord (Node a p c (Node b q d e)) @ after C)"
    and A: "insert s (set (before C @ inord (Node a p c (Node b q d e)) @ after C)) \<subseteq> A"
    "\<And>x. x \<notin> A \<Longrightarrow> same_node h0 h x"
    using assms by (simp_all add: zrep_def inord_plug)
  have out: "p \<noteq> s" "p \<notin> set (before C) \<union> set (after C)" "q \<notin> set (before C) \<union> set (after C)"
    "distinct (before C @ after C)" "s \<notin> set (before C) \<union> set (after C)"
    using nodes by auto
  have sub: "subtree h2 s p b" "subtree h2 s p a" "subtree h2 s q e"
    using rep nodes by (cases b; auto simp: h1_def h2_def)+
  have h2: "rb_parent h2 p = top_of s C" "rb_left h2 p = root_of s a" "rb_right h2 p = root_of s b"
      "rb_right h2 q = root_of s e" "rb_red h2 = rb_red h" "rb_linked h2 = rb_linked h"
      "rb_left h2 s = rb_left h s" "rb_right h2 s = rb_right h s"
    using rep nodes by (cases b; auto simp: h1_def h2_def)+
  have same: "same_node h h2 x" if "x \<notin> A" for x
    using A that by (cases b) (auto simp: same_node_def h1_def h2_def)
  have ctx2: "ctx h2 s p C"
    using rep nodes by (cases b) (auto simp: h1_def h2_def)
  obtain h3 where h3: "Tree_Transplant s p q h2 = Some h3" "transplanted h2 h3 s q C"
    using Transplant_ctx [OF ctx2 h2(1) out] by blast
  have sub3: "subtree h3 s p b" "subtree h3 s p a" "subtree h3 s q e"
    using sub nodes by (subst transplanted_subtree [OF h3(2)]; auto)+
  have "Tree_LeftRotate s p h = Some (rb_set_parent p q (rb_set_left q p h3))"
    using rep h3(1) out(1) by (auto simp: Tree_LeftRotate_def h1_def h2_def Let_def)
  moreover have "subtree (rb_set_parent p q (rb_set_left q p h3)) s (top_of s C) (Node (Node a p c b) q d e)"
    using rep nodes sub3 h3(2) h2 by (simp add: transplanted_def)
  moreover have "ctx (rb_set_parent p q (rb_set_left q p h3)) s q C"
    using nodes h3(2) by (simp add: transplanted_def)
  moreover have "same_node h0 (rb_set_parent p q (rb_set_left q p h3)) x" if "x \<notin> A" for x
    using A same [OF that] that h3(2) by (auto simp: same_node_def transplanted_def)
  ultimately show ?thesis using assms h2 h3(2) out
    by (auto simp: zrep_def inord_plug transplanted_def)
qed

lemma zrep_RightRotate:
  assumes "zrep h0 A h s C (Node (Node e q d b) p c a)"
  shows "\<exists>h'. Tree_RightRotate s p h = Some h' \<and> zrep h0 A h' s C (Node e q d (Node b p c a)) \<and> rb_left h' s = rb_left h s"
proof -
  define h1 where "h1 = rb_set_left p (root_of s b) h"
  define h2 where "h2 = (if root_of s b \<noteq> s then rb_set_parent (root_of s b) p h1 else h1)"
  have rep: "subtree h s (top_of s C) (Node (Node e q d b) p c a)" "ctx h s p C"
    and nodes: "distinct (before C @ inord (Node (Node e q d b) p c a) @ after C)"
    "s \<notin> set (before C @ inord (Node (Node e q d b) p c a) @ after C)"
    and A: "insert s (set (before C @ inord (Node (Node e q d b) p c a) @ after C)) \<subseteq> A"
    "\<And>x. x \<notin> A \<Longrightarrow> same_node h0 h x"
    using assms by (simp_all add: zrep_def inord_plug)
  have out: "p \<noteq> s" "p \<notin> set (before C) \<union> set (after C)" "q \<notin> set (before C) \<union> set (after C)"
    "distinct (before C @ after C)" "s \<notin> set (before C) \<union> set (after C)"
    using nodes by auto
  have sub: "subtree h2 s p b" "subtree h2 s p a" "subtree h2 s q e"
    using rep nodes by (cases b; auto simp: h1_def h2_def)+
  have h2: "rb_parent h2 p = top_of s C" "rb_right h2 p = root_of s a" "rb_left h2 p = root_of s b"
      "rb_left h2 q = root_of s e" "rb_red h2 = rb_red h" "rb_linked h2 = rb_linked h"
      "rb_left h2 s = rb_left h s" "rb_right h2 s = rb_right h s"
    using rep nodes by (cases b; auto simp: h1_def h2_def)+
  have same: "same_node h h2 x" if "x \<notin> A" for x
    using A that by (cases b) (auto simp: same_node_def h1_def h2_def)
  have ctx2: "ctx h2 s p C"
    using rep nodes by (cases b) (auto simp: h1_def h2_def)
  obtain h3 where h3: "Tree_Transplant s p q h2 = Some h3" "transplanted h2 h3 s q C"
    using Transplant_ctx [OF ctx2 h2(1) out] by blast
  have sub3: "subtree h3 s p b" "subtree h3 s p a" "subtree h3 s q e"
    using sub nodes by (subst transplanted_subtree [OF h3(2)]; auto)+
  have "Tree_RightRotate s p h = Some (rb_set_parent p q (rb_set_right q p h3))"
    using rep h3(1) out(1) by (auto simp: Tree_RightRotate_def h1_def h2_def Let_def)
  moreover have "subtree (rb_set_parent p q (rb_set_right q p h3)) s (top_of s C) (Node e q d (Node b p c a))"
    using rep nodes sub3 h3(2) h2 by (simp add: transplanted_def)
  moreover have "ctx (rb_set_parent p q (rb_set_right q p h3)) s q C"
    using nodes h3(2) by (simp add: transplanted_def)
  moreover have "same_node h0 (rb_set_parent p q (rb_set_right q p h3)) x" if "x \<notin> A" for x
    using A same [OF that] that h3(2) by (auto simp: same_node_def transplanted_def)
  ultimately show ?thesis using assms h2 h3(2) out
    by (auto simp: zrep_def inord_plug transplanted_def)
qed

section \<open>The insertion fix-up\<close>

lemma ctx_root: "ctx h s x C \<Longrightarrow> C \<noteq> [] \<Longrightarrow> rb_parent h s \<in> set (before C) \<union> set (after C)"
proof (induction C arbitrary: x)
  case (Cons f C)
  then show ?case by (cases f; cases C) auto
qed simp

lemma zrep_root: "zrep h0 A h s C (Node x n c y) \<Longrightarrow> C \<noteq> [] \<Longrightarrow> rb_parent h s \<noteq> n"
  using ctx_root [of h s n C] by (auto simp: zrep_def inord_plug)

lemma zrep_red_root: "zrep h0 A h s C t \<Longrightarrow> rb_red h (root_of s t) = is_red t"
  by (cases t) (auto simp: zrep_def)

lemma subtree_red_root: "subtree h s p t \<Longrightarrow> \<not> rb_red h s \<Longrightarrow> rb_red h (root_of s t) = is_red t"
  by (cases t) auto

lemma InsertFixup_stop:
  assumes "zrep h0 A h s C (Node x n c y)" and "C = [] \<or> allows_red C"
  shows "InsertFixup_loop s n h = Some h"
proof (cases C)
  case Nil
  then show ?thesis
    using assms by (subst InsertFixup_loop.simps) (simp add: zrep_def)
next
  case (Cons f C')
  then show ?thesis
    using assms by (subst InsertFixup_loop.simps, cases f) (auto simp: zrep_def)
qed

lemma recolor_step:
  assumes "zrep h0 A h s C (Node (Node a p c b) g d (Node e u k f))"
  shows "zrep h0 A (rb_set_red g True (rb_set_red u False (rb_set_red p False h))) s C
           (Node (Node a p False b) g True (Node e u False f))"
    and "zrep h0 A (rb_set_red g True (rb_set_red p False (rb_set_red u False h))) s C
           (Node (Node a p False b) g True (Node e u False f))"
proof -
  have p: "zrep h0 A (rb_set_red p False h) s C (Node (Node a p False b) g d (Node e u k f))"
    if "zrep h0 A h s C (Node (Node a p c b) g d (Node e u k f))" for h c k
    using zrep_set_red [of h0 A h s "FL g d (Node e u k f) # C"] that by (simp add: zrep_FL)
  have u: "zrep h0 A (rb_set_red u False h) s C (Node (Node a p c b) g d (Node e u False f))"
    if "zrep h0 A h s C (Node (Node a p c b) g d (Node e u k f))" for h c k
    using zrep_set_red [of h0 A h s "FR (Node a p c b) g d # C"] that by (simp add: zrep_FR)
  show "zrep h0 A (rb_set_red g True (rb_set_red u False (rb_set_red p False h))) s C
           (Node (Node a p False b) g True (Node e u False f))"
    and "zrep h0 A (rb_set_red g True (rb_set_red p False (rb_set_red u False h))) s C
           (Node (Node a p False b) g True (Node e u False f))"
    by (rule zrep_set_red [OF u [OF p [OF assms]]], rule zrep_set_red [OF p [OF u [OF assms]]])
qed

definition fixes_to :: "RBHeap \<Rightarrow> addr set \<Rightarrow> RBHeap \<Rightarrow> addr \<Rightarrow> RBHeap option \<Rightarrow> rtree \<Rightarrow> bool" where
  "fixes_to h0 A h s r t \<longleftrightarrow>
     (\<exists>h'. r = Some h' \<and> zrep h0 A h' s [] t \<and> rb_left h' s = rb_left h s)"

lemma fixes_to_mono: "fixes_to h0 A h1 s r t \<Longrightarrow> rb_left h1 s = rb_left h s \<Longrightarrow> fixes_to h0 A h s r t"
  by (simp add: fixes_to_def)

text \<open>The links around a red node \<open>n\<close> below a red parent.\<close>

lemma zrep_fixup_left:
  assumes "zrep h0 A h s C (Node (Node a p True b) g False u)" and "n = root_of s a \<or> n = root_of s b" and "n \<noteq> s"
  shows "rb_parent h n = p" "n \<noteq> rb_parent h s" "rb_red h p" "p \<noteq> nullptr" "p \<noteq> s"
    "rb_left h p = root_of s a" "rb_right h p = root_of s b" "rb_parent h p = g" "g \<noteq> nullptr" "g \<noteq> s"
    "rb_left h g = p" "rb_right h g = root_of s u" "\<not> rb_red h g" "rb_red h (root_of s u) = is_red u"
proof -
  have n: "n \<in> set (inord a) \<union> set (inord b)"
    using assms(2,3) by (cases a; cases b) auto
  then show "n \<noteq> rb_parent h s"
    using assms(1) ctx_root [of h s g C] by (cases C) (auto simp: zrep_def inord_plug)
  show "rb_parent h n = p"
    using assms by (cases a; cases b) (auto simp: zrep_def)
  show "rb_red h (root_of s u) = is_red u"
    using assms by (cases u) (auto simp: zrep_def)
qed (use assms in \<open>auto simp: zrep_def inord_plug\<close>)

lemma root_of_in: "root_of s t \<in> insert s (set (inord t))"
  by (cases t) auto

lemma fixup_left_recolor:
  assumes "zrep h0 A h s C (Node (Node a p True b) g False (Node e u True f))"
    and "n = root_of s a \<or> n = root_of s b" and "n \<noteq> s"
  shows "InsertFixup_loop s n h =
    InsertFixup_loop s g (rb_set_red g True (rb_set_red u False (rb_set_red p False h)))"
  using zrep_fixup_left [OF assms] assms(2)
  by (subst InsertFixup_loop.simps) (auto simp: Let_def)

lemma rotate_up_right:
  assumes "zrep h0 A h s C (Node (Node a p c b) g d u)"
  shows "\<exists>h'. Tree_RightRotate s g (rb_set_red g True (rb_set_red p False h)) = Some h' \<and>
           zrep h0 A h' s C (Node a p False (Node b g True u)) \<and> rb_left h' s = rb_left h s"
proof -
  have "zrep h0 A (rb_set_red p False h) s (FL g d u # C) (Node a p False b)"
    using zrep_set_red [of h0 A h s "FL g d u # C"] assms by (simp add: zrep_FL)
  then have "zrep h0 A (rb_set_red g True (rb_set_red p False h)) s C (Node (Node a p False b) g True u)"
    by (intro zrep_set_red) (simp add: zrep_FL)
  from zrep_RightRotate [OF this] show ?thesis by simp
qed

lemma fixup_left_line:
  assumes "zrep h0 A h s C (Node (Node (Node x n True y) p True b) g False u)" and "\<not> is_red u"
  shows "fixes_to h0 A h s (InsertFixup_loop s n h) (plug C (Node (Node x n True y) p False (Node b g True u)))"
proof -
  obtain h1 where h1: "Tree_RightRotate s g (rb_set_red g True (rb_set_red p False h)) = Some h1"
    "zrep h0 A h1 s C (Node (Node x n True y) p False (Node b g True u))" "rb_left h1 s = rb_left h s"
    using rotate_up_right [OF assms(1)] by blast
  have n: "n \<noteq> s" "n \<notin> set (inord b)"
    using assms(1) by (auto simp: zrep_def inord_plug)
  then have "n \<noteq> root_of s b"
    using root_of_in [of s b] by auto
  then have "InsertFixup_loop s n h = InsertFixup_loop s n h1"
    using n(1) zrep_fixup_left [OF assms(1), of n] assms(2) h1(1)
    by (subst InsertFixup_loop.simps) (simp add: Let_def)
  also have "\<dots> = Some h1"
    using h1(2) by (intro InsertFixup_stop [of h0 A h1 s "FL p False (Node b g True u) # C" x n True y])
      (simp_all add: zrep_FL)
  finally show ?thesis
    using h1 zrep_plug by (auto simp: fixes_to_def)
qed

lemma fixup_left_triangle:
  assumes "zrep h0 A h s C (Node (Node a p True (Node x n True y)) g False u)" and "\<not> is_red u"
  shows "fixes_to h0 A h s (InsertFixup_loop s n h) (plug C (Node (Node a p True x) n False (Node y g True u)))"
proof -
  obtain h1 where h1: "Tree_LeftRotate s p h = Some h1"
    "zrep h0 A h1 s C (Node (Node (Node a p True x) n True y) g False u)" "rb_left h1 s = rb_left h s"
    using zrep_LeftRotate [of h0 A h s "FL g False u # C"] assms(1) unfolding zrep_FL by blast
  obtain h2 where h2: "Tree_RightRotate s g (rb_set_red g True (rb_set_red n False h1)) = Some h2"
    "zrep h0 A h2 s C (Node (Node a p True x) n False (Node y g True u))" "rb_left h2 s = rb_left h1 s"
    using rotate_up_right [OF h1(2)] by blast
  have n: "n \<noteq> s" and p1: "rb_parent h1 p = n"
    using assms(1) h1(2) by (auto simp: zrep_def inord_plug)
  then have "InsertFixup_loop s n h = InsertFixup_loop s p h2"
    using zrep_fixup_left [OF assms(1), of n] assms(2) h1(1) h2(1)
    by (subst InsertFixup_loop.simps) (simp add: Let_def)
  also have "\<dots> = Some h2"
    using h2(2) by (intro InsertFixup_stop [of h0 A h2 s "FL n False (Node y g True u) # C" a p True x])
      (simp_all add: zrep_FL)
  finally show ?thesis
    using h1(3) h2 zrep_plug by (auto simp: fixes_to_def)
qed

lemma zrep_fixup_right:
  assumes "zrep h0 A h s C (Node u g False (Node a p True b))" and "n = root_of s a \<or> n = root_of s b" and "n \<noteq> s"
  shows "rb_parent h n = p" "n \<noteq> rb_parent h s" "rb_red h p" "p \<noteq> nullptr" "p \<noteq> s"
    "rb_left h p = root_of s a" "rb_right h p = root_of s b" "rb_parent h p = g" "g \<noteq> nullptr" "g \<noteq> s"
    "rb_right h g = p" "rb_left h g = root_of s u" "p \<noteq> root_of s u" "\<not> rb_red h g" "rb_red h (root_of s u) = is_red u"
proof -
  have n: "n \<in> set (inord a) \<union> set (inord b)"
    using assms(2,3) by (cases a; cases b) auto
  then show "n \<noteq> rb_parent h s"
    using assms(1) ctx_root [of h s g C] by (cases C) (auto simp: zrep_def inord_plug)
  show "rb_parent h n = p"
    using assms by (cases a; cases b) (auto simp: zrep_def)
  show "rb_red h (root_of s u) = is_red u" "p \<noteq> root_of s u"
    using assms by (cases u; auto simp: zrep_def inord_plug)+
qed (use assms in \<open>auto simp: zrep_def inord_plug\<close>)

lemma fixup_right_recolor:
  assumes "zrep h0 A h s C (Node (Node e u True f) g False (Node a p True b))"
    and "n = root_of s a \<or> n = root_of s b" and "n \<noteq> s"
  shows "InsertFixup_loop s n h =
    InsertFixup_loop s g (rb_set_red g True (rb_set_red u False (rb_set_red p False h)))"
  using zrep_fixup_right [OF assms] assms(2)
  by (subst InsertFixup_loop.simps) (auto simp: Let_def)

lemma rotate_up_left:
  assumes "zrep h0 A h s C (Node u g d (Node a p c b))"
  shows "\<exists>h'. Tree_LeftRotate s g (rb_set_red g True (rb_set_red p False h)) = Some h' \<and>
           zrep h0 A h' s C (Node (Node u g True a) p False b) \<and> rb_left h' s = rb_left h s"
proof -
  have "zrep h0 A (rb_set_red p False h) s (FR u g d # C) (Node a p False b)"
    using zrep_set_red [of h0 A h s "FR u g d # C"] assms by (simp add: zrep_FR)
  then have "zrep h0 A (rb_set_red g True (rb_set_red p False h)) s C (Node u g True (Node a p False b))"
    by (intro zrep_set_red) (simp add: zrep_FR)
  from zrep_LeftRotate [OF this] show ?thesis by simp
qed

lemma fixup_right_line:
  assumes "zrep h0 A h s C (Node u g False (Node b p True (Node x n True y)))" and "\<not> is_red u"
  shows "fixes_to h0 A h s (InsertFixup_loop s n h) (plug C (Node (Node u g True b) p False (Node x n True y)))"
proof -
  obtain h1 where h1: "Tree_LeftRotate s g (rb_set_red g True (rb_set_red p False h)) = Some h1"
    "zrep h0 A h1 s C (Node (Node u g True b) p False (Node x n True y))" "rb_left h1 s = rb_left h s"
    using rotate_up_left [OF assms(1)] by blast
  have n: "n \<noteq> s" "n \<notin> set (inord b)"
    using assms(1) by (auto simp: zrep_def inord_plug)
  then have "n \<noteq> root_of s b"
    using root_of_in [of s b] by auto
  then have "InsertFixup_loop s n h = InsertFixup_loop s n h1"
    using n(1) zrep_fixup_right [OF assms(1), of n] assms(2) h1(1)
    by (subst InsertFixup_loop.simps) (simp add: Let_def)
  also have "\<dots> = Some h1"
    using h1(2) by (intro InsertFixup_stop [of h0 A h1 s "FR (Node u g True b) p False # C" x n True y])
      (simp_all add: zrep_FR)
  finally show ?thesis
    using h1 zrep_plug by (auto simp: fixes_to_def)
qed

lemma fixup_right_triangle:
  assumes "zrep h0 A h s C (Node u g False (Node (Node x n True y) p True a))" and "\<not> is_red u"
  shows "fixes_to h0 A h s (InsertFixup_loop s n h) (plug C (Node (Node u g True x) n False (Node y p True a)))"
proof -
  obtain h1 where h1: "Tree_RightRotate s p h = Some h1"
    "zrep h0 A h1 s C (Node u g False (Node x n True (Node y p True a)))" "rb_left h1 s = rb_left h s"
    using zrep_RightRotate [of h0 A h s "FR u g False # C"] assms(1) unfolding zrep_FR by blast
  obtain h2 where h2: "Tree_LeftRotate s g (rb_set_red g True (rb_set_red n False h1)) = Some h2"
    "zrep h0 A h2 s C (Node (Node u g True x) n False (Node y p True a))" "rb_left h2 s = rb_left h1 s"
    using rotate_up_left [OF h1(2)] by blast
  have n: "n \<noteq> s" and p1: "rb_parent h1 p = n"
    using assms(1) h1(2) by (auto simp: zrep_def inord_plug)
  then have "InsertFixup_loop s n h = InsertFixup_loop s p h2"
    using zrep_fixup_right [OF assms(1), of n] assms(2) h1(1) h2(1)
    by (subst InsertFixup_loop.simps) (simp add: Let_def)
  also have "\<dots> = Some h2"
    using h2(2) by (intro InsertFixup_stop [of h0 A h2 s "FR (Node u g True x) n False # C" y p True a])
      (simp_all add: zrep_FR)
  finally show ?thesis
    using h1(3) h2 zrep_plug by (auto simp: fixes_to_def)
qed

lemma recolor_round_left:
  assumes "zrep h0 A h s C (Node (Node a p True b) g False u)" and "is_red u"
    and "n = root_of s a \<or> n = root_of s b" and "n \<noteq> s"
    and "\<And>h'. zrep h0 A h' s C (Node (Node a p False b) g True (paint False u)) \<Longrightarrow>
               fixes_to h0 A h' s (InsertFixup_loop s g h') t"
  shows "fixes_to h0 A h s (InsertFixup_loop s n h) t"
proof -
  obtain e v f where u: "u = Node e v True f" using assms(2) by (cases u) auto
  have z: "zrep h0 A h s C (Node (Node a p True b) g False (Node e v True f))"
    using assms(1) u by simp
  let ?h = "rb_set_red g True (rb_set_red v False (rb_set_red p False h))"
  have "fixes_to h0 A ?h s (InsertFixup_loop s g ?h) t"
    by (rule assms(5)) (use recolor_step(1) [OF z] u in simp)
  then show ?thesis
    using fixup_left_recolor [OF z assms(3,4)] by (simp add: fixes_to_def)
qed

lemma recolor_round_right:
  assumes "zrep h0 A h s C (Node u g False (Node a p True b))" and "is_red u"
    and "n = root_of s a \<or> n = root_of s b" and "n \<noteq> s"
    and "\<And>h'. zrep h0 A h' s C (Node (paint False u) g True (Node a p False b)) \<Longrightarrow>
               fixes_to h0 A h' s (InsertFixup_loop s g h') t"
  shows "fixes_to h0 A h s (InsertFixup_loop s n h) t"
proof -
  obtain e v f where u: "u = Node e v True f" using assms(2) by (cases u) auto
  have z: "zrep h0 A h s C (Node (Node e v True f) g False (Node a p True b))"
    using assms(1) u by simp
  let ?h = "rb_set_red g True (rb_set_red v False (rb_set_red p False h))"
  have "fixes_to h0 A ?h s (InsertFixup_loop s g ?h) t"
    by (rule assms(5)) (use recolor_step(2) [OF z] u in simp)
  then show ?thesis
    using fixup_right_recolor [OF z assms(3,4)] by (simp add: fixes_to_def)
qed

lemma fixup_default:
  assumes "zrep h0 A h s C t" and "is_red t" and "C = [] \<or> allows_red C"
  shows "fixes_to h0 A h s (InsertFixup_loop s (root_of s t) h) (plug C t)"
  using assms InsertFixup_stop [of h0 A h s C] zrep_plug [of h0 A h s C t]
  by (cases t) (auto simp: fixes_to_def)

lemma zrep_node: "zrep h0 A h s C (Node x n c y) \<Longrightarrow> n \<noteq> s \<and> n \<noteq> nullptr \<and> n \<in> A \<and> s \<in> A \<and> s \<noteq> nullptr"
  by (auto simp: zrep_def inord_plug)

lemma InsertFixup_loop_correct:
  assumes "zrep h0 A h s C t" and "cinv C (bh t)" and "is_red t"
  shows "fixes_to h0 A h s (InsertFixup_loop s (root_of s t) h) (ins_fix C t)"
  using assms
proof (induction C t arbitrary: h rule: ins_fix.induct)
  case (1 p r1 g cg u C t)
  then obtain x n y where t: "t = Node x n True y" by (cases t) auto
  have z: "zrep h0 A h s C (Node (Node t p True r1) g False u)" and n: "n \<noteq> s"
    using "1.prems"(1,2) t zrep_node [of h0 A h s "FL p True r1 # FL g cg u # C" x n True y] by (auto simp: zrep_FL zrep_FR)
  show ?case
  proof (cases "is_red u")
    case True
    have "fixes_to h0 A h s (InsertFixup_loop s n h) (ins_fix C (Node (Node t p False r1) g True (paint False u)))"
      by (rule recolor_round_left [OF z True]) (use "1.IH" [OF True] "1.prems"(2) t n in auto)
    then show ?thesis using True t by simp
  qed (use z fixup_left_line t in auto)
next
  case (2 l1 p g cg u C t)
  then obtain x n y where t: "t = Node x n True y" by (cases t) auto
  have z: "zrep h0 A h s C (Node (Node l1 p True t) g False u)" and n: "n \<noteq> s"
    using "2.prems"(1,2) t zrep_node [of h0 A h s "FR l1 p True # FL g cg u # C" x n True y] by (auto simp: zrep_FL zrep_FR)
  show ?case
  proof (cases "is_red u")
    case True
    have "fixes_to h0 A h s (InsertFixup_loop s n h) (ins_fix C (Node (Node l1 p False t) g True (paint False u)))"
      by (rule recolor_round_left [OF z True]) (use "2.IH" [OF True] "2.prems"(2) t n in auto)
    then show ?thesis using True t by simp
  qed (use z fixup_left_triangle t in auto)
next
  case (3 l1 p u g cg C t)
  then obtain x n y where t: "t = Node x n True y" by (cases t) auto
  have z: "zrep h0 A h s C (Node u g False (Node l1 p True t))" and n: "n \<noteq> s"
    using "3.prems"(1,2) t zrep_node [of h0 A h s "FR l1 p True # FR u g cg # C" x n True y] by (auto simp: zrep_FL zrep_FR)
  show ?case
  proof (cases "is_red u")
    case True
    have "fixes_to h0 A h s (InsertFixup_loop s n h) (ins_fix C (Node (paint False u) g True (Node l1 p False t)))"
      by (rule recolor_round_right [OF z True]) (use True "3.IH" [OF True] "3.prems"(2) t n in \<open>auto simp: bh_paint\<close>)
    then show ?thesis using True t by simp
  qed (use z fixup_right_line t in auto)
next
  case (4 p r1 u g cg C t)
  then obtain x n y where t: "t = Node x n True y" by (cases t) auto
  have z: "zrep h0 A h s C (Node u g False (Node t p True r1))" and n: "n \<noteq> s"
    using "4.prems"(1,2) t zrep_node [of h0 A h s "FL p True r1 # FR u g cg # C" x n True y] by (auto simp: zrep_FL zrep_FR)
  show ?case
  proof (cases "is_red u")
    case True
    have "fixes_to h0 A h s (InsertFixup_loop s n h) (ins_fix C (Node (paint False u) g True (Node t p False r1)))"
      by (rule recolor_round_right [OF z True]) (use True "4.IH" [OF True] "4.prems"(2) t n in \<open>auto simp: bh_paint\<close>)
    then show ?thesis using True t by simp
  qed (use z fixup_right_triangle t in auto)
qed (simp_all only: ins_fix.simps, (rule fixup_default; simp add: cinv_single)+)

end
