(* ===== verification/RBTree_Insert.thy ===== *)
theory RBTree_Insert
  imports RBTree_Refinement
begin

text \<open>
  \<^verbatim>\<open>Insert\<close> of \<^verbatim>\<open>detail/intrusive_rbtree.h\<close>: the descent finds the position after the last element
  that is not greater, linking puts the new red node there, and the fix-up of
  \<^verbatim>\<open>RBTree_Refinement\<close> restores the rules. \<open>Tree_inv\<close> is the invariant of the container.
\<close>

section \<open>The invariant\<close>

definition strict_weak :: "(addr \<Rightarrow> addr \<Rightarrow> bool) \<Rightarrow> bool" where
  "strict_weak k \<longleftrightarrow>
     (\<forall>a. \<not> k a a) \<and> (\<forall>a b c. k a b \<longrightarrow> k b c \<longrightarrow> k a c) \<and> (\<forall>a b c. k a c \<longrightarrow> k a b \<or> k b c)"

definition clean_hook :: "RBHeap \<Rightarrow> addr \<Rightarrow> bool" where
  "clean_hook h x \<longleftrightarrow>
     rb_left h x = nullptr \<and> rb_right h x = nullptr \<and> rb_parent h x = nullptr \<and> \<not> rb_red h x \<and> \<not> rb_linked h x"

definition Tree_inv :: "(addr \<Rightarrow> addr \<Rightarrow> bool) \<Rightarrow> IntrusiveTree \<Rightarrow> rtree \<Rightarrow> bool" where
  "Tree_inv kLess t T \<longleftrightarrow>
     zrep (rt_heap t) UNIV (rt_heap t) (rt_sentinel t) [] T \<and> rb T \<and>
     rb_left (rt_heap t) (rt_sentinel t) = hd (inord T @ [rt_sentinel t]) \<and>
     rt_size t = length (inord T) \<and> sorted_wrt (\<lambda>a b. \<not> kLess b a) (inord T)"

section \<open>Finding the position\<close>

fun ins_pos :: "(addr \<Rightarrow> addr \<Rightarrow> bool) \<Rightarrow> addr \<Rightarrow> frame list \<Rightarrow> rtree \<Rightarrow> frame list" where
  "ins_pos kLess e C Leaf = C"
| "ins_pos kLess e C (Node l a c r) =
     (if kLess e a then ins_pos kLess e (FL a c r # C) l else ins_pos kLess e (FR l a c # C) r)"

fun top_ok :: "(addr \<Rightarrow> addr \<Rightarrow> bool) \<Rightarrow> addr \<Rightarrow> frame list \<Rightarrow> bool" where
  "top_ok kLess e [] = True"
| "top_ok kLess e (FL a c r # C) = kLess e a"
| "top_ok kLess e (FR l a c # C) = (\<not> kLess e a)"

lemma ins_pos_plug: "plug (ins_pos kLess e C t) Leaf = plug C t"
  by (induction kLess e C t rule: ins_pos.induct) auto

lemma ins_pos_top: "top_ok kLess e C \<Longrightarrow> top_ok kLess e (ins_pos kLess e C t)"
  by (induction kLess e C t rule: ins_pos.induct) auto

lemma ins_pos_sorted:
  assumes "strict_weak kLess" and "sorted_wrt (\<lambda>a b. \<not> kLess b a) (inord (plug C t))"
    and "\<forall>y\<in>set (before C). \<not> kLess e y" and "\<forall>y\<in>set (after C). kLess e y"
  shows "(\<forall>y\<in>set (before (ins_pos kLess e C t)). \<not> kLess e y) \<and> (\<forall>y\<in>set (after (ins_pos kLess e C t)). kLess e y)"
  using assms
proof (induction kLess e C t rule: ins_pos.induct)
  case (2 kLess e C l a c r)
  have sorted: "\<forall>y\<in>set (inord l). \<not> kLess a y" "\<forall>y\<in>set (inord r). \<not> kLess y a"
    using "2.prems"(2) by (auto simp: inord_plug sorted_wrt_append)
  have weak: "\<And>x y z. kLess x z \<Longrightarrow> kLess x y \<or> kLess y z"
    using "2.prems"(1) by (simp add: strict_weak_def)
  show ?case
  proof (cases "kLess e a")
    case True
    have "kLess e y" if "y \<in> set (inord r)" for y
      using sorted(2) weak [OF True, of y] that by blast
    then have "\<forall>y\<in>set (after (FL a c r # C)). kLess e y"
      using "2.prems"(4) True by auto
    moreover have "ins_pos kLess e C (Node l a c r) = ins_pos kLess e (FL a c r # C) l"
      using True by simp
    ultimately show ?thesis
      using "2.IH"(1) [OF True "2.prems"(1)] "2.prems"(2,3) unfolding plug.simps before.simps by metis
  next
    case False
    have "\<not> kLess e y" if "y \<in> set (inord l)" for y
      using sorted(1) weak [where x = e and y = a and z = y] False that by blast
    then have "\<forall>y\<in>set (before (FR l a c # C)). \<not> kLess e y"
      using "2.prems"(3) False by auto
    moreover have "ins_pos kLess e C (Node l a c r) = ins_pos kLess e (FR l a c # C) r"
      using False by simp
    ultimately show ?thesis
      using "2.IH"(2) [OF False "2.prems"(1)] "2.prems"(2,4) unfolding plug.simps after.simps by metis
  qed
qed simp

lemma Insert_descend_correct:
  assumes "zrep h0 A h s C t"
  shows "Insert_descend kLess s h e (top_of s C) (root_of s t) = Some (top_of s (ins_pos kLess e C t))"
  using assms
proof (induction kLess e C t rule: ins_pos.induct)
  case (1 kLess e C)
  then show ?case by (subst Insert_descend.simps) simp
next
  case (2 kLess e C l a c r)
  have "a \<noteq> s" "rb_linked h a" "rb_left h a = root_of s l" "rb_right h a = root_of s r"
    using "2.prems" by (auto simp: zrep_def inord_plug)
  moreover have "root_of s l \<noteq> nullptr" "root_of s r \<noteq> nullptr"
    using "2.prems" root_of_in [of s l] root_of_in [of s r] by (auto simp: zrep_def inord_plug)
  ultimately show ?case
    using "2.IH" "2.prems" by (subst Insert_descend.simps) (simp add: zrep_FL zrep_FR)
qed

section \<open>Linking the node\<close>

lemma zrep_outside:
  assumes "zrep h0 A h s C t" and "e \<notin> set (inord (plug C t))" and "e \<noteq> s" and "e \<in> A"
  shows "zrep h0 A (rb_set_left e v h) s C t" "zrep h0 A (rb_set_right e v h) s C t"
    "zrep h0 A (rb_set_parent e v h) s C t" "zrep h0 A (rb_set_red e c h) s C t"
    "zrep h0 A (rb_set_linked e c h) s C t"
  using assms by (auto simp: zrep_def inord_plug same_node_def)

lemma zrep_set_min: "zrep h0 A h s C t \<Longrightarrow> zrep h0 A (rb_set_left s v h) s C t"
  by (auto simp: zrep_def inord_plug same_node_def)

definition Insert_link :: "addr \<Rightarrow> addr \<Rightarrow> frame list \<Rightarrow> RBHeap \<Rightarrow> RBHeap" where
  "Insert_link s e C h =
     (case C of [] \<Rightarrow> Tree_set_root s e h | FL a c r # _ \<Rightarrow> rb_set_left a e h | FR l a c # _ \<Rightarrow> rb_set_right a e h)"

lemma zrep_link:
  assumes "zrep h0 A h s C Leaf" and "e \<notin> set (inord (plug C Leaf))" and "e \<noteq> s" and "e \<noteq> nullptr" and "e \<in> A"
    and "rb_left h e = s" "rb_right h e = s" "rb_red h e" "rb_linked h e" "rb_parent h e = top_of s C"
  shows "zrep h0 A (Insert_link s e C h) s C (Node Leaf e True Leaf)"
proof (cases C)
  case Nil
  then show ?thesis
    using assms by (auto simp: zrep_def same_node_def Insert_link_def Tree_set_root_def)
next
  case (Cons f C')
  then show ?thesis
    using assms by (cases f) (simp_all add: zrep_def inord_plug same_node_def Insert_link_def)
qed

lemma zrep_restrict:
  assumes "zrep h UNIV h s C t" and "insert s (set (inord (plug C t))) \<subseteq> A"
  shows "zrep h A h s C t"
  using assms by (simp add: zrep_def same_node_def)

lemma zrep_widen: "zrep h0 A h s C t \<Longrightarrow> zrep h UNIV h s C t"
  by (simp add: zrep_def same_node_def)

lemma zrep_root_eq: "zrep h0 A h s [] T \<Longrightarrow> rb_parent h s = root_of s T"
  by (simp add: zrep_def)

lemma zrep_linked: "zrep h0 A h s C t \<Longrightarrow> x \<in> set (inord (plug C t)) \<Longrightarrow> rb_linked h x"
proof (subst (asm) zrep_plug)
  have "subtree h s p t \<Longrightarrow> x \<in> set (inord t) \<Longrightarrow> rb_linked h x" for p t
    by (induction t arbitrary: p) auto
  then show "zrep h0 A h s [] (plug C t) \<Longrightarrow> x \<in> set (inord (plug C t)) \<Longrightarrow> rb_linked h x"
    by (auto simp: zrep_def)
qed

lemma InsertFixup_correct:
  assumes "zrep h0 A h s C (Node Leaf e True Leaf)" and "cinv C 0"
  shows "fixes_to h0 A h s (Tree_InsertFixup s e h) (paint False (ins_fix C (Node Leaf e True Leaf)))"
proof -
  let ?t = "Node Leaf e True Leaf"
  obtain h1 where h1: "InsertFixup_loop s e h = Some h1" "zrep h0 A h1 s [] (ins_fix C ?t)" "rb_left h1 s = rb_left h s"
    using InsertFixup_loop_correct [OF assms(1)] assms(2) by (auto simp: fixes_to_def)
  have "e \<in> set (inord (ins_fix C ?t))"
    by (simp add: ins_fix_inord inord_plug)
  then obtain l a c r where T: "ins_fix C ?t = Node l a c r"
    by (cases "ins_fix C ?t") auto
  have "root_of s (plug C ?t) \<noteq> s"
    using assms(1) root_of_in [of s "plug C ?t"]
    by (cases "plug C ?t") (auto simp: zrep_plug [of h0 A h s C] zrep_def inord_plug dest: arg_cong [of _ _ inord])
  then have "rb_parent h s \<noteq> s"
    using assms(1) zrep_root_eq zrep_plug by metis
  then have "Tree_InsertFixup s e h = Some (rb_set_red a False h1)"
    using assms(1) h1(1,2) T zrep_node [OF assms(1)] by (auto simp: Tree_InsertFixup_def zrep_def)
  moreover have "zrep h0 A (rb_set_red a False h1) s [] (Node l a False r)"
    using h1(2) T by (intro zrep_set_red) simp
  ultimately show ?thesis
    using h1(3) T by (simp add: fixes_to_def)
qed

section \<open>Insertion\<close>

text \<open>The new element goes after the last one that is not greater.\<close>

definition insert_after :: "(addr \<Rightarrow> addr \<Rightarrow> bool) \<Rightarrow> addr \<Rightarrow> addr list \<Rightarrow> addr list" where
  "insert_after kLess e xs = takeWhile (\<lambda>y. \<not> kLess e y) xs @ e # dropWhile (\<lambda>y. \<not> kLess e y) xs"

lemma insert_after_split:
  assumes "\<forall>y\<in>set xs. \<not> kLess e y" and "\<forall>y\<in>set ys. kLess e y"
  shows "insert_after kLess e (xs @ ys) = xs @ e # ys"
proof -
  have "takeWhile (\<lambda>y. \<not> kLess e y) ys = []" "dropWhile (\<lambda>y. \<not> kLess e y) ys = ys"
    using assms(2) by (cases ys; simp)+
  then show ?thesis
    using assms(1) by (simp add: insert_after_def takeWhile_append dropWhile_append)
qed

lemma insert_after_sorted:
  assumes "strict_weak kLess" and "sorted_wrt (\<lambda>a b. \<not> kLess b a) (xs @ ys)"
    and "\<forall>y\<in>set xs. \<not> kLess e y" and "\<forall>y\<in>set ys. kLess e y"
  shows "sorted_wrt (\<lambda>a b. \<not> kLess b a) (xs @ e # ys)"
proof -
  have "\<not> kLess y e" if "y \<in> set ys" for y
    using assms(1,4) that unfolding strict_weak_def by blast
  then show ?thesis
    using assms by (auto simp: sorted_wrt_append)
qed

lemma Insert_min_correct:
  assumes "rb_left h s = hd ((xs @ ys) @ [s])" and "s \<notin> set (xs @ ys)"
    and "\<forall>y\<in>set xs. \<not> kLess e y" and "\<forall>y\<in>set ys. kLess e y"
  shows "rb_left (Insert_min kLess s e h) s = hd (xs @ e # ys)"
  using assms by (cases xs; cases ys) (auto simp: Insert_min_def)

lemma Insert_link_check:
  assumes "zrep h0 A h s C Leaf" and "top_ok kLess e C" and "e \<noteq> s" "e \<notin> set (inord (plug C Leaf))"
  shows "Insert_attach kLess s e (top_of s C) h = Some (Insert_link s e C h)"
proof (cases C)
  case Nil
  then show ?thesis using assms by (simp add: zrep_def Insert_link_def Insert_attach_def)
next
  case (Cons f C')
  then show ?thesis using assms by (cases f) (auto simp: zrep_def inord_plug Insert_link_def Insert_attach_def)
qed

lemma Tree_Insert_steps:
  assumes "strict_weak kLess" and inv: "Tree_inv kLess t T" and e: "e \<noteq> nullptr" "e \<noteq> rt_sentinel t" "clean_hook (rt_heap t) e"
  defines "s \<equiv> rt_sentinel t" and "C \<equiv> ins_pos kLess e [] T" and "A \<equiv> insert e (insert (rt_sentinel t) (set (inord T)))"
  shows "\<exists>h. Insert_descend kLess s (Insert_prepare s e (rt_heap t)) e s (rb_parent (Insert_prepare s e (rt_heap t)) s) = Some (top_of s C) \<and>
      Insert_attach kLess s e (top_of s C) (rb_set_parent e (top_of s C) (Insert_prepare s e (rt_heap t))) = Some h \<and>
      zrep (rt_heap t) A (Insert_min kLess s e h) s C (Node Leaf e True Leaf) \<and>
      rb_left (Insert_min kLess s e h) s = hd (before C @ e # after C)"
proof -
  let ?h1 = "Insert_prepare s e (rt_heap t)" and ?h2 = "rb_set_parent e (top_of s C) (Insert_prepare s e (rt_heap t))"
  have rep: "zrep (rt_heap t) UNIV (rt_heap t) s [] T" and srt: "sorted_wrt (\<lambda>a b. \<not> kLess b a) (inord T)"
    and mn: "rb_left (rt_heap t) s = hd (inord T @ [s])"
    using inv by (simp_all add: Tree_inv_def s_def)
  have new: "e \<notin> set (inord T)" "e \<in> A" "e \<noteq> s"
    using zrep_linked [OF rep] e(2,3) by (auto simp: clean_hook_def A_def s_def)
  have "zrep (rt_heap t) A (rt_heap t) s [] T"
    by (rule zrep_restrict [OF rep]) (auto simp: A_def s_def)
  then have z1: "zrep (rt_heap t) A ?h1 s [] T"
    unfolding Insert_prepare_def by (intro zrep_outside) (use new in auto)
  then have z2: "zrep (rt_heap t) A ?h2 s C Leaf"
    using zrep_outside(3) [OF z1, of e "top_of s C"] new zrep_plug [of _ A ?h2 s C Leaf] by (simp add: C_def ins_pos_plug)
  have split: "inord T = before C @ after C"
    using ins_pos_plug [of kLess e "[]" T] inord_plug [of C Leaf] by (simp add: C_def)
  have order: "\<forall>y\<in>set (before C). \<not> kLess e y" "\<forall>y\<in>set (after C). kLess e y"
    using ins_pos_sorted [OF assms(1), of "[]" T e] srt by (simp_all add: C_def)
  have z3: "zrep (rt_heap t) A (Insert_link s e C ?h2) s C (Node Leaf e True Leaf)"
    by (rule zrep_link [OF z2]) (use new e(1) split in \<open>auto simp: inord_plug Insert_prepare_def\<close>)
  have "rb_left (Insert_link s e C ?h2) s = rb_left (rt_heap t) s"
    using z2 new by (cases "(kLess, e, C)" rule: top_ok.cases)
      (auto simp: Insert_link_def Tree_set_root_def Insert_prepare_def zrep_def inord_plug)
  then have "rb_left (Insert_min kLess s e (Insert_link s e C ?h2)) s = hd (before C @ e # after C)"
    using z2 mn split order by (intro Insert_min_correct) (simp_all add: zrep_def inord_plug)
  moreover have "zrep (rt_heap t) A (Insert_min kLess s e (Insert_link s e C ?h2)) s C (Node Leaf e True Leaf)"
    using z3 zrep_set_min by (simp add: Insert_min_def)
  moreover have "Insert_attach kLess s e (top_of s C) ?h2 = Some (Insert_link s e C ?h2)"
    using ins_pos_top [of kLess e "[]" T] new split
    by (intro Insert_link_check [OF z2]) (simp_all add: C_def inord_plug)
  moreover have "Insert_descend kLess s ?h1 e s (rb_parent ?h1 s) = Some (top_of s C)"
    using Insert_descend_correct [OF z1, of kLess e] zrep_root_eq [OF z1] by (simp add: C_def)
  ultimately show ?thesis by blast
qed

lemma Tree_Insert_refused: "e = nullptr \<Longrightarrow> Tree_Insert kLess e t = Some (False, t)"
  "e \<noteq> rt_sentinel t \<Longrightarrow> rb_linked (rt_heap t) e \<Longrightarrow> Tree_Insert kLess e t = Some (False, t)"
  by (auto simp: Tree_Insert_def)

lemma zrep_nonempty:
  assumes "zrep h0 A h s [] T" and "rb T" and "T \<noteq> Leaf"
  shows "rb_parent h s \<noteq> s" "rb_parent h (rb_parent h s) = s" "\<not> rb_red h (rb_parent h s)" "Tree_IsHeader h s"
  using assms by (cases T; auto simp: zrep_def rb_def Tree_IsHeader_def)+

lemma Tree_Insert_correct:
  assumes "strict_weak kLess" and inv: "Tree_inv kLess t T" and e: "e \<noteq> nullptr" "e \<noteq> rt_sentinel t" "clean_hook (rt_heap t) e"
  shows "\<exists>t' T'. Tree_Insert kLess e t = Some (True, t') \<and> Tree_inv kLess t' T' \<and>
           inord T' = insert_after kLess e (inord T) \<and> rt_sentinel t' = rt_sentinel t \<and>
           (\<forall>x. x \<notin> insert e (insert (rt_sentinel t) (set (inord T))) \<longrightarrow> same_node (rt_heap t) (rt_heap t') x)"
proof -
  let ?s = "rt_sentinel t" and ?C = "ins_pos kLess e [] T" and ?A = "insert e (insert (rt_sentinel t) (set (inord T)))"
  let ?h1 = "Insert_prepare ?s e (rt_heap t)" and ?N = "Node Leaf e True Leaf"
  obtain h where h: "Insert_descend kLess ?s ?h1 e ?s (rb_parent ?h1 ?s) = Some (top_of ?s ?C)"
    "Insert_attach kLess ?s e (top_of ?s ?C) (rb_set_parent e (top_of ?s ?C) ?h1) = Some h"
    "zrep (rt_heap t) ?A (Insert_min kLess ?s e h) ?s ?C ?N"
    "rb_left (Insert_min kLess ?s e h) ?s = hd (before ?C @ e # after ?C)"
    using Tree_Insert_steps [OF assms] by blast
  have split: "inord T = before ?C @ after ?C"
    using ins_pos_plug [of kLess e "[]" T] inord_plug [of ?C Leaf] by simp
  have order: "\<forall>y\<in>set (before ?C). \<not> kLess e y" "\<forall>y\<in>set (after ?C). kLess e y"
    using ins_pos_sorted [OF assms(1), of "[]" T e] inv by (simp_all add: Tree_inv_def)
  have cinv: "cinv ?C 0"
    using inv ins_pos_plug [of kLess e "[]" T] rb_plug [of ?C Leaf] by (simp add: Tree_inv_def)
  define T' where "T' = paint False (ins_fix ?C ?N)"
  obtain h5 where h5: "Tree_InsertFixup ?s e (Insert_min kLess ?s e h) = Some h5" "zrep (rt_heap t) ?A h5 ?s [] T'"
    "rb_left h5 ?s = hd (before ?C @ e # after ?C)"
    using InsertFixup_correct [OF h(3) cinv] h(4) by (auto simp: fixes_to_def T'_def)
  have T': "rb T'" "inord T' = before ?C @ e # after ?C"
    using ins_fix_rb [of ?C ?N] cinv by (simp_all add: T'_def ins_fix_inord inord_plug)
  have "T' \<noteq> Leaf" "rb_linked h5 e"
    using T'(2) zrep_linked [OF h5(2), of e] by auto
  moreover have "hd (inord T') \<noteq> ?s"
    using T'(2) h5(2) hd_in_set [of "inord T'"] by (metis append_is_Nil_conv list.distinct(1) plug.simps(1) zrep_def)
  ultimately have "Tree_Insert kLess e t = Some (True, t\<lparr>rt_heap := h5, rt_size := rt_size t + 1\<rparr>)"
    using e T'(2) h(1,2) h5(1,3) zrep_nonempty [OF h5(2) T'(1)] by (simp add: Tree_Insert_def Let_def clean_hook_def)
  moreover have "Tree_inv kLess (t\<lparr>rt_heap := h5, rt_size := rt_size t + 1\<rparr>) T'"
    using zrep_widen [OF h5(2)] T' h5(3) inv split insert_after_sorted [of kLess "before ?C" "after ?C" e] assms(1) order
    by (simp add: Tree_inv_def hd_append)
  moreover have "inord T' = insert_after kLess e (inord T)"
    unfolding split T'(2) using order by (intro insert_after_split [symmetric])
  moreover have "\<forall>x. x \<notin> ?A \<longrightarrow> same_node (rt_heap t) h5 x"
    using h5(2) unfolding zrep_def by blast
  ultimately show ?thesis
    by (intro exI [of _ "t\<lparr>rt_heap := h5, rt_size := rt_size t + 1\<rparr>"] exI [of _ T'] conjI) simp_all
qed

end
