(* ===== verification/RBTree_Erase.thy ===== *)
theory RBTree_Erase
  imports RBTree_Insert
begin

text \<open>
  \<^verbatim>\<open>Erase\<close> of \<^verbatim>\<open>detail/intrusive_rbtree.h\<close>: the deletion fix-up loop implements \<open>del_fix\<close>, detaching
  a node with two children moves its successor into its place, and the cached minimum follows.
\<close>

section \<open>The deletion fix-up\<close>

lemma zrep_del_left:
  assumes "zrep h0 A h s C (Node t p cp (Node sl w cw sr))" and "\<not> is_red t"
  shows "root_of s t \<noteq> rb_parent h s" "\<not> rb_red h (root_of s t)" "p \<noteq> s" "rb_parent h p = top_of s C"
    "rb_left h p = root_of s t" "rb_right h p = w" "rb_red h p = cp" "w \<noteq> s" "w \<noteq> p" "rb_red h w = cw"
    "rb_left h w = root_of s sl" "rb_right h w = root_of s sr"
    "rb_red h (root_of s sl) = is_red sl" "rb_red h (root_of s sr) = is_red sr"
proof -
  have sub: "subtree h s p t" "subtree h s w sl" "subtree h s w sr" "\<not> rb_red h s"
    using assms(1) by (simp_all add: zrep_def)
  have nodes: "distinct (before C @ inord (Node t p cp (Node sl w cw sr)) @ after C)"
    "s \<notin> set (before C @ inord (Node t p cp (Node sl w cw sr)) @ after C)"
    using assms(1) by (simp_all add: zrep_def inord_plug)
  have sep: "p \<notin> set (inord t)" "w \<notin> set (inord t)" "s \<notin> set (inord t)" "p \<noteq> s" "w \<noteq> s"
    "set (inord t) \<inter> (set (before C) \<union> set (after C)) = {}" "s \<notin> set (before C) \<union> set (after C)"
    using nodes by auto
  have "rb_parent h s \<in> insert p (set (before C) \<union> set (after C))"
    using assms(1) ctx_root [of h s p C] by (cases C) (simp_all add: zrep_def)
  then show "root_of s t \<noteq> rb_parent h s"
    using sep root_of_in [of s t] by auto
  show "\<not> rb_red h (root_of s t)" "rb_red h (root_of s sl) = is_red sl" "rb_red h (root_of s sr) = is_red sr"
    using assms(2) sub subtree_red_root by simp_all
qed (use assms(1) in \<open>auto simp: zrep_def inord_plug\<close>)

lemma zrep_del_right:
  assumes "zrep h0 A h s C (Node (Node sl w cw sr) p cp t)" and "\<not> is_red t"
  shows "root_of s t \<noteq> rb_parent h s" "\<not> rb_red h (root_of s t)" "p \<noteq> s" "rb_parent h p = top_of s C"
    "rb_right h p = root_of s t" "rb_left h p = w" "root_of s t \<noteq> w" "rb_red h p = cp" "w \<noteq> s" "w \<noteq> p" "rb_red h w = cw"
    "rb_left h w = root_of s sl" "rb_right h w = root_of s sr"
    "rb_red h (root_of s sl) = is_red sl" "rb_red h (root_of s sr) = is_red sr"
proof -
  have sub: "subtree h s p t" "subtree h s w sl" "subtree h s w sr" "\<not> rb_red h s"
    using assms(1) by (simp_all add: zrep_def)
  have nodes: "distinct (before C @ inord (Node (Node sl w cw sr) p cp t) @ after C)"
    "s \<notin> set (before C @ inord (Node (Node sl w cw sr) p cp t) @ after C)"
    using assms(1) by (simp_all add: zrep_def inord_plug)
  have sep: "p \<notin> set (inord t)" "w \<notin> set (inord t)" "s \<notin> set (inord t)" "p \<noteq> s" "w \<noteq> s"
    "set (inord t) \<inter> (set (before C) \<union> set (after C)) = {}" "s \<notin> set (before C) \<union> set (after C)"
    using nodes by auto
  have "rb_parent h s \<in> insert p (set (before C) \<union> set (after C))"
    using assms(1) ctx_root [of h s p C] by (cases C) (simp_all add: zrep_def)
  then show "root_of s t \<noteq> rb_parent h s"
    using sep root_of_in [of s t] by auto
  show "root_of s t \<noteq> w"
    using sep(2,5) root_of_in [of s t] by auto
  show "\<not> rb_red h (root_of s t)" "rb_red h (root_of s sl) = is_red sl" "rb_red h (root_of s sr) = is_red sr"
    using assms(2) sub subtree_red_root by simp_all
qed (use assms(1) in \<open>auto simp: zrep_def inord_plug\<close>)

lemma zrep_paint_root:
  "zrep h0 A h s C t \<Longrightarrow> zrep h0 A (rb_set_red (root_of s t) False h) s C (paint False t)"
proof (cases t)
  case Leaf
  then show "zrep h0 A h s C t \<Longrightarrow> ?thesis"
    by (auto simp: zrep_def inord_plug same_node_def)
qed (auto intro: zrep_set_red)

lemma DeleteFixup_stop:
  assumes "zrep h0 A h s C t" and "C = [] \<or> is_red t"
  shows "fixes_to h0 A h s (DeleteFixup_loop s (root_of s t) p h) (plug C (paint False t))"
proof -
  have "rb_red h (root_of s t) = is_red t" "C = [] \<Longrightarrow> rb_parent h s = root_of s t"
    using assms(1) by (auto simp: zrep_red_root zrep_def)
  then have "DeleteFixup_loop s (root_of s t) p h = Some (rb_set_red (root_of s t) False h)"
    using assms(2) by (subst DeleteFixup_loop.simps) auto
  then show ?thesis
    using zrep_paint_root [OF assms(1)] zrep_plug by (auto simp: fixes_to_def)
qed

text \<open>After the last rotation the loop ends at the root.\<close>

lemma DeleteFixup_last:
  assumes "zrep h0 A h1 s C u" and "rb_left h1 s = rb_left h s"
  shows "fixes_to h0 A h s (DeleteFixup_loop s (rb_parent h1 s) s h1) (finish C (False, u))"
proof -
  have z: "zrep h0 A h1 s [] (plug C u)"
    using assms(1) zrep_plug by blast
  then have "fixes_to h0 A h1 s (DeleteFixup_loop s (root_of s (plug C u)) s h1) (plug [] (paint False (plug C u)))"
    by (rule DeleteFixup_stop) simp
  then show ?thesis
    using zrep_root_eq [OF z] assms(2) by (simp add: finish_def fixes_to_def)
qed

lemma del_left_push:
  assumes "zrep h0 A h s C (Node t p cp (Node sl w False sr))" and "\<not> is_red t" "\<not> is_red sl" "\<not> is_red sr"
  shows "DeleteFixup_loop s (root_of s t) p h = DeleteFixup_loop s p (top_of s C) (rb_set_red w True h)"
    and "zrep h0 A (rb_set_red w True h) s C (Node t p cp (Node sl w True sr))"
proof -
  show "DeleteFixup_loop s (root_of s t) p h = DeleteFixup_loop s p (top_of s C) (rb_set_red w True h)"
    using zrep_del_left [OF assms(1,2)] assms(3,4)
    by (subst DeleteFixup_loop.simps) (simp add: Let_def)
  show "zrep h0 A (rb_set_red w True h) s C (Node t p cp (Node sl w True sr))"
    using zrep_set_red [of h0 A h s "FR t p cp # C" sl w False sr True] assms(1) by (simp add: zrep_FR)
qed

text \<open>The colours and the rotation of the last case.\<close>

lemma del_left_rotate:
  assumes "zrep h0 A h s C (Node t p cp (Node a x cx (Node b y cy d)))"
  shows "\<exists>h'. Tree_LeftRotate s p (rb_set_red y False (rb_set_red p False (rb_set_red x cp h))) = Some h' \<and>
           zrep h0 A h' s C (Node (Node t p False a) x cp (Node b y False d)) \<and> rb_left h' s = rb_left h s"
proof -
  have "zrep h0 A (rb_set_red x cp h) s C (Node t p cp (Node a x cp (Node b y cy d)))"
    using zrep_set_red [of h0 A h s "FR t p cp # C"] assms by (simp add: zrep_FR)
  then have "zrep h0 A (rb_set_red p False (rb_set_red x cp h)) s C (Node t p False (Node a x cp (Node b y cy d)))"
    by (rule zrep_set_red)
  then have "zrep h0 A (rb_set_red y False (rb_set_red p False (rb_set_red x cp h))) s C
      (Node t p False (Node a x cp (Node b y False d)))"
    using zrep_set_red [of h0 A _ s "FR a x cp # FR t p False # C"] by (simp add: zrep_FR)
  from zrep_LeftRotate [OF this] show ?thesis by simp
qed

lemma del_left_far:
  assumes "zrep h0 A h s C (Node t p cp (Node sl w False (Node b y True d)))" and "\<not> is_red t"
  shows "fixes_to h0 A h s (DeleteFixup_loop s (root_of s t) p h)
           (finish C (False, Node (Node t p False sl) w cp (Node b y False d)))"
proof -
  obtain h1 where h1: "Tree_LeftRotate s p (rb_set_red y False (rb_set_red p False (rb_set_red w cp h))) = Some h1"
    "zrep h0 A h1 s C (Node (Node t p False sl) w cp (Node b y False d))" "rb_left h1 s = rb_left h s"
    using del_left_rotate [OF assms(1)] by blast
  have "DeleteFixup_loop s (root_of s t) p h = DeleteFixup_loop s (rb_parent h1 s) s h1"
    using zrep_del_left [OF assms] h1(1) by (subst DeleteFixup_loop.simps) (simp add: Let_def)
  then show ?thesis
    using DeleteFixup_last [OF h1(2,3)] by simp
qed

lemma del_left_near:
  assumes "zrep h0 A h s C (Node t p cp (Node (Node a x True b) w False sr))" and "\<not> is_red t" "\<not> is_red sr"
  shows "fixes_to h0 A h s (DeleteFixup_loop s (root_of s t) p h)
           (finish C (False, Node (Node t p False a) x cp (Node b w False sr)))"
proof -
  have "zrep h0 A (rb_set_red x False h) s C (Node t p cp (Node (Node a x False b) w False sr))"
    using zrep_set_red [of h0 A h s "FL w False sr # FR t p cp # C"] assms(1) by (simp add: zrep_FL zrep_FR)
  then have "zrep h0 A (rb_set_red w True (rb_set_red x False h)) s (FR t p cp # C) (Node (Node a x False b) w True sr)"
    by (intro zrep_set_red) (simp add: zrep_FR)
  from zrep_RightRotate [OF this] obtain h1 where
    h1: "Tree_RightRotate s w (rb_set_red w True (rb_set_red x False h)) = Some h1"
    "zrep h0 A h1 s C (Node t p cp (Node a x False (Node b w True sr)))" "rb_left h1 s = rb_left h s"
    by (auto simp: zrep_FR)
  obtain h2 where h2: "Tree_LeftRotate s p (rb_set_red w False (rb_set_red p False (rb_set_red x cp h1))) = Some h2"
    "zrep h0 A h2 s C (Node (Node t p False a) x cp (Node b w False sr))" "rb_left h2 s = rb_left h s"
    using del_left_rotate [OF h1(2)] h1(3) by auto
  have "DeleteFixup_loop s (root_of s t) p h = DeleteFixup_loop s (rb_parent h2 s) s h2"
    using zrep_del_left [OF assms(1,2)] zrep_del_left [OF h1(2) assms(2)] assms(3) h1(1) h2(1)
    by (subst DeleteFixup_loop.simps) (simp add: Let_def)
  then show ?thesis
    using DeleteFixup_last [OF h2(2,3)] by simp
qed

text \<open>A red sibling is rotated above the parent; the round then goes on as with a black one.\<close>

lemma del_left_red:
  assumes "zrep h0 A h s C (Node t p False (Node sl w True sr))" and "\<not> is_red t" and "sl \<noteq> Leaf" "\<not> is_red sl"
  shows "\<exists>h1. DeleteFixup_loop s (root_of s t) p h = DeleteFixup_loop s (root_of s t) p h1 \<and>
           zrep h0 A h1 s (FL w False sr # C) (Node t p True sl) \<and> rb_left h1 s = rb_left h s"
proof -
  have "zrep h0 A (rb_set_red w False h) s C (Node t p False (Node sl w False sr))"
    using zrep_set_red [of h0 A h s "FR t p False # C"] assms(1) by (simp add: zrep_FR)
  then have "zrep h0 A (rb_set_red p True (rb_set_red w False h)) s C (Node t p True (Node sl w False sr))"
    by (rule zrep_set_red)
  from zrep_LeftRotate [OF this] obtain h1 where
    h1: "Tree_LeftRotate s p (rb_set_red p True (rb_set_red w False h)) = Some h1"
    "zrep h0 A h1 s (FL w False sr # C) (Node t p True sl)" "rb_left h1 s = rb_left h s"
    by (auto simp: zrep_FL)
  obtain a x b where sl: "sl = Node a x False b"
    using assms(3,4) by (cases sl) auto
  have "DeleteFixup_loop s (root_of s t) p h = DeleteFixup_loop s (root_of s t) p h1"
    using zrep_del_left [OF assms(1,2)] zrep_del_left [OF h1(2) [unfolded sl] assms(2)] h1(1)
    by (subst (1 2) DeleteFixup_loop.simps) simp
  then show ?thesis using h1 by blast
qed

lemma del_right_push:
  assumes "zrep h0 A h s C (Node (Node sl w False sr) p cp t)" and "\<not> is_red t" "\<not> is_red sl" "\<not> is_red sr"
  shows "DeleteFixup_loop s (root_of s t) p h = DeleteFixup_loop s p (top_of s C) (rb_set_red w True h)"
    and "zrep h0 A (rb_set_red w True h) s C (Node (Node sl w True sr) p cp t)"
proof -
  show "DeleteFixup_loop s (root_of s t) p h = DeleteFixup_loop s p (top_of s C) (rb_set_red w True h)"
    using zrep_del_right [OF assms(1,2)] assms(3,4)
    by (subst DeleteFixup_loop.simps) (simp add: Let_def)
  show "zrep h0 A (rb_set_red w True h) s C (Node (Node sl w True sr) p cp t)"
    using zrep_set_red [of h0 A h s "FL p cp t # C" sl w False sr True] assms(1) by (simp add: zrep_FL)
qed

lemma del_right_rotate:
  assumes "zrep h0 A h s C (Node (Node (Node d y cy b) x cx a) p cp t)"
  shows "\<exists>h'. Tree_RightRotate s p (rb_set_red y False (rb_set_red p False (rb_set_red x cp h))) = Some h' \<and>
           zrep h0 A h' s C (Node (Node d y False b) x cp (Node a p False t)) \<and> rb_left h' s = rb_left h s"
proof -
  have "zrep h0 A (rb_set_red x cp h) s C (Node (Node (Node d y cy b) x cp a) p cp t)"
    using zrep_set_red [of h0 A h s "FL p cp t # C"] assms by (simp add: zrep_FL)
  then have "zrep h0 A (rb_set_red p False (rb_set_red x cp h)) s C (Node (Node (Node d y cy b) x cp a) p False t)"
    by (rule zrep_set_red)
  then have "zrep h0 A (rb_set_red y False (rb_set_red p False (rb_set_red x cp h))) s C
      (Node (Node (Node d y False b) x cp a) p False t)"
    using zrep_set_red [of h0 A _ s "FL x cp a # FL p False t # C"] by (simp add: zrep_FL)
  from zrep_RightRotate [OF this] show ?thesis by simp
qed

lemma del_right_far:
  assumes "zrep h0 A h s C (Node (Node (Node d y True b) w False sr) p cp t)" and "\<not> is_red t"
  shows "fixes_to h0 A h s (DeleteFixup_loop s (root_of s t) p h)
           (finish C (False, Node (Node d y False b) w cp (Node sr p False t)))"
proof -
  obtain h1 where h1: "Tree_RightRotate s p (rb_set_red y False (rb_set_red p False (rb_set_red w cp h))) = Some h1"
    "zrep h0 A h1 s C (Node (Node d y False b) w cp (Node sr p False t))" "rb_left h1 s = rb_left h s"
    using del_right_rotate [OF assms(1)] by blast
  have "DeleteFixup_loop s (root_of s t) p h = DeleteFixup_loop s (rb_parent h1 s) s h1"
    using zrep_del_right [OF assms] h1(1) by (subst DeleteFixup_loop.simps) (simp add: Let_def)
  then show ?thesis
    using DeleteFixup_last [OF h1(2,3)] by simp
qed

lemma del_right_near:
  assumes "zrep h0 A h s C (Node (Node sl w False (Node b x True a)) p cp t)" and "\<not> is_red t" "\<not> is_red sl"
  shows "fixes_to h0 A h s (DeleteFixup_loop s (root_of s t) p h)
           (finish C (False, Node (Node sl w False b) x cp (Node a p False t)))"
proof -
  have "zrep h0 A (rb_set_red x False h) s C (Node (Node sl w False (Node b x False a)) p cp t)"
    using zrep_set_red [of h0 A h s "FR sl w False # FL p cp t # C"] assms(1) by (simp add: zrep_FL zrep_FR)
  then have "zrep h0 A (rb_set_red w True (rb_set_red x False h)) s (FL p cp t # C) (Node sl w True (Node b x False a))"
    by (intro zrep_set_red) (simp add: zrep_FL)
  from zrep_LeftRotate [OF this] obtain h1 where
    h1: "Tree_LeftRotate s w (rb_set_red w True (rb_set_red x False h)) = Some h1"
    "zrep h0 A h1 s C (Node (Node (Node sl w True b) x False a) p cp t)" "rb_left h1 s = rb_left h s"
    by (auto simp: zrep_FL)
  obtain h2 where h2: "Tree_RightRotate s p (rb_set_red w False (rb_set_red p False (rb_set_red x cp h1))) = Some h2"
    "zrep h0 A h2 s C (Node (Node sl w False b) x cp (Node a p False t))" "rb_left h2 s = rb_left h s"
    using del_right_rotate [OF h1(2)] h1(3) by auto
  have "DeleteFixup_loop s (root_of s t) p h = DeleteFixup_loop s (rb_parent h2 s) s h2"
    using zrep_del_right [OF assms(1,2)] zrep_del_right [OF h1(2) assms(2)] assms(3) h1(1) h2(1)
    by (subst DeleteFixup_loop.simps) (simp add: Let_def)
  then show ?thesis
    using DeleteFixup_last [OF h2(2,3)] by simp
qed

lemma del_right_red:
  assumes "zrep h0 A h s C (Node (Node sl w True sr) p False t)" and "\<not> is_red t" and "sr \<noteq> Leaf" "\<not> is_red sr"
  shows "\<exists>h1. DeleteFixup_loop s (root_of s t) p h = DeleteFixup_loop s (root_of s t) p h1 \<and>
           zrep h0 A h1 s (FR sl w False # C) (Node sr p True t) \<and> rb_left h1 s = rb_left h s"
proof -
  have "zrep h0 A (rb_set_red w False h) s C (Node (Node sl w False sr) p False t)"
    using zrep_set_red [of h0 A h s "FL p False t # C"] assms(1) by (simp add: zrep_FL)
  then have "zrep h0 A (rb_set_red p True (rb_set_red w False h)) s C (Node (Node sl w False sr) p True t)"
    by (rule zrep_set_red)
  from zrep_RightRotate [OF this] obtain h1 where
    h1: "Tree_RightRotate s p (rb_set_red p True (rb_set_red w False h)) = Some h1"
    "zrep h0 A h1 s (FR sl w False # C) (Node sr p True t)" "rb_left h1 s = rb_left h s"
    by (auto simp: zrep_FR)
  obtain a x b where sr: "sr = Node a x False b"
    using assms(3,4) by (cases sr) auto
  have "DeleteFixup_loop s (root_of s t) p h = DeleteFixup_loop s (root_of s t) p h1"
    using zrep_del_right [OF assms(1,2)] zrep_del_right [OF h1(2) [unfolded sr] assms(2)] h1(1)
    by (subst (1 2) DeleteFixup_loop.simps) simp
  then show ?thesis using h1 by blast
qed

text \<open>
  A round with a black sibling: the loop goes on at the parent, or the fix-up is finished.
\<close>

lemma del_left_round:
  assumes z: "zrep h0 A h s C (Node t p cp u)" and "\<not> is_red t" "u \<noteq> Leaf" "\<not> is_red u"
    and "sib_L t p cp u = (up, v)"
    and "\<And>h'. up \<Longrightarrow> zrep h0 A h' s C v \<Longrightarrow> fixes_to h0 A h' s (DeleteFixup_loop s p (top_of s C) h') T"
    and "\<not> up \<Longrightarrow> T = finish C (up, v)"
  shows "fixes_to h0 A h s (DeleteFixup_loop s (root_of s t) p h) T"
proof -
  obtain sl w sr where u: "u = Node sl w False sr" using assms(3,4) by (cases u) auto
  consider (push) "\<not> is_red sl" "\<not> is_red sr" | (near) "is_red sl" "\<not> is_red sr" | (far) "is_red sr" by blast
  then show ?thesis
  proof cases
    case push
    have r: "up" "v = Node t p cp (Node sl w True sr)"
      using assms(5) push u by simp_all
    have "fixes_to h0 A (rb_set_red w True h) s (DeleteFixup_loop s p (top_of s C) (rb_set_red w True h)) T"
      by (rule assms(6)) (use r del_left_push(2) [OF z [unfolded u]] assms(2) push in auto)
    then show ?thesis
      using del_left_push(1) [OF z [unfolded u]] assms(2) push by (simp add: fixes_to_def)
  next
    case near
    then obtain a x b where "sl = Node a x True b" by (cases sl) auto
    then show ?thesis
      using del_left_near [of h0 A h s C t p cp a x b w sr] z u assms(2,5,7) near by auto
  next
    case far
    then obtain a x b where "sr = Node a x True b" by (cases sr) auto
    then show ?thesis
      using del_left_far [of h0 A h s C t p cp sl w a x b] z u assms(2,5,7) by auto
  qed
qed

lemma del_right_round:
  assumes z: "zrep h0 A h s C (Node u p cp t)" and "\<not> is_red t" "u \<noteq> Leaf" "\<not> is_red u"
    and "sib_R t p cp u = (up, v)"
    and "\<And>h'. up \<Longrightarrow> zrep h0 A h' s C v \<Longrightarrow> fixes_to h0 A h' s (DeleteFixup_loop s p (top_of s C) h') T"
    and "\<not> up \<Longrightarrow> T = finish C (up, v)"
  shows "fixes_to h0 A h s (DeleteFixup_loop s (root_of s t) p h) T"
proof -
  obtain sl w sr where u: "u = Node sl w False sr" using assms(3,4) by (cases u) auto
  consider (push) "\<not> is_red sl" "\<not> is_red sr" | (near) "is_red sr" "\<not> is_red sl" | (far) "is_red sl" by blast
  then show ?thesis
  proof cases
    case push
    have r: "up" "v = Node (Node sl w True sr) p cp t"
      using assms(5) push u by simp_all
    have "fixes_to h0 A (rb_set_red w True h) s (DeleteFixup_loop s p (top_of s C) (rb_set_red w True h)) T"
      by (rule assms(6)) (use r del_right_push(2) [OF z [unfolded u]] assms(2) push in auto)
    then show ?thesis
      using del_right_push(1) [OF z [unfolded u]] assms(2) push by (simp add: fixes_to_def)
  next
    case near
    then obtain a x b where "sr = Node a x True b" by (cases sr) auto
    then show ?thesis
      using del_right_near [of h0 A h s C sl w a x b p cp t] z u assms(2,5,7) near by auto
  next
    case far
    then obtain a x b where "sl = Node a x True b" by (cases sl) auto
    then show ?thesis
      using del_right_far [of h0 A h s C a x b w sr p cp t] z u assms(2,5,7) by auto
  qed
qed

lemma sib_up:
  "sib_L t p cp u = (True, v) \<Longrightarrow> root_of s v = p \<and> is_red v = cp"
  "sib_R t p cp u = (True, v) \<Longrightarrow> root_of s v = p \<and> is_red v = cp"
  by (cases u; auto split: if_splits rtree.splits)+

lemma round_ok_IH:
  assumes "round_ok cp n (True, v)" and "cinv C (if cp then Suc n else Suc (Suc n))"
  shows "cinv C (Suc (bh v))" "invc (paint False v)" "invh v"
  using assms by (auto simp: round_ok_def split: if_splits)

lemma DeleteFixup_up:
  assumes "zrep h0 A h s C v" and "root_of s v = p" "is_red v"
  shows "fixes_to h0 A h s (DeleteFixup_loop s p q h) (finish C (True, v))"
  using DeleteFixup_stop [OF assms(1)] assms(2,3) by (auto simp: finish_def)

lemma DeleteFixup_left:
  assumes z: "zrep h0 A h s C (Node t p cp u)" and inv: "cinv (FL p cp u # C) (Suc (bh t))" "invc (paint False t)" "invh t"
    and IH: "\<And>v h'. zrep h0 A h' s C v \<Longrightarrow> cinv C (Suc (bh v)) \<Longrightarrow> invc (paint False v) \<Longrightarrow> invh v \<Longrightarrow>
      fixes_to h0 A h' s (DeleteFixup_loop s (root_of s v) (top_of s C) h') (del_fix C v)"
    and black: "\<not> is_red t"
  shows "fixes_to h0 A h s (DeleteFixup_loop s (root_of s t) p h) (del_fix (FL p cp u # C) t)"
proof -
  have t: "\<not> is_red t" "invc t" "invh t" using inv black by simp_all
  obtain sl w cw sr where u: "u = Node sl w cw sr"
    using inv(1) by (cases u) auto
  show ?thesis
  proof (cases cw)
    case True
    have sl: "\<not> cp" "sl \<noteq> Leaf" "\<not> is_red sl" using inv(1) u True by auto
    obtain h1 where h1: "DeleteFixup_loop s (root_of s t) p h = DeleteFixup_loop s (root_of s t) p h1"
      "zrep h0 A h1 s (FL w False sr # C) (Node t p True sl)" "rb_left h1 s = rb_left h s"
      using del_left_red [of h0 A h s C t p sl w sr] z u True sl t(1) by auto
    obtain up v where sib: "sib_L t p True sl = (up, v)" by fastforce
    have "fixes_to h0 A h1 s (DeleteFixup_loop s (root_of s t) p h1) (finish (FL w False sr # C) (up, v))"
      by (rule del_left_round [OF h1(2) t(1) sl(2,3) sib])
        (use DeleteFixup_up sib_up(1) [of t p True sl v s] sib in auto)
    then show ?thesis using h1 sib u True t(1) by (simp add: fixes_to_def)
  next
    case cw: False
    obtain up v where sib: "sib_L t p cp u = (up, v)" by fastforce
    have ok: "round_ok cp (bh t) (up, v)"
      unfolding sib [symmetric] by (rule sib_L_ok [OF t]) (use inv(1) u cw in auto)
    have step: "del_fix (FL p cp u # C) t = (if up then del_fix C v else finish C (up, v))"
      using t(1) u cw sib by auto
    show ?thesis
    proof (rule del_left_round [OF z t(1) _ _ sib])
      fix h' assume up: up and z': "zrep h0 A h' s C v"
      have "fixes_to h0 A h' s (DeleteFixup_loop s (root_of s v) (top_of s C) h') (del_fix C v)"
        by (rule IH [OF z']; rule round_ok_IH) (use ok inv(1) up in auto)
      then show "fixes_to h0 A h' s (DeleteFixup_loop s p (top_of s C) h') (del_fix (FL p cp u # C) t)"
        using step sib_up(1) [of t p cp u v s] sib up by simp
    qed (use u cw step in auto)
  qed
qed

lemma DeleteFixup_right:
  assumes z: "zrep h0 A h s C (Node u p cp t)" and inv: "cinv (FR u p cp # C) (Suc (bh t))" "invc (paint False t)" "invh t"
    and IH: "\<And>v h'. zrep h0 A h' s C v \<Longrightarrow> cinv C (Suc (bh v)) \<Longrightarrow> invc (paint False v) \<Longrightarrow> invh v \<Longrightarrow>
      fixes_to h0 A h' s (DeleteFixup_loop s (root_of s v) (top_of s C) h') (del_fix C v)"
    and black: "\<not> is_red t"
  shows "fixes_to h0 A h s (DeleteFixup_loop s (root_of s t) p h) (del_fix (FR u p cp # C) t)"
proof -
  have t: "\<not> is_red t" "invc t" "invh t" using inv black by simp_all
  obtain sl w cw sr where u: "u = Node sl w cw sr"
    using inv(1) by (cases u) auto
  show ?thesis
  proof (cases cw)
    case True
    have sl: "\<not> cp" "sr \<noteq> Leaf" "\<not> is_red sr" using inv(1) u True by auto
    obtain h1 where h1: "DeleteFixup_loop s (root_of s t) p h = DeleteFixup_loop s (root_of s t) p h1"
      "zrep h0 A h1 s (FR sl w False # C) (Node sr p True t)" "rb_left h1 s = rb_left h s"
      using del_right_red [of h0 A h s C sl w sr p t] z u True sl t(1) by auto
    obtain up v where sib: "sib_R t p True sr = (up, v)" by fastforce
    have "fixes_to h0 A h1 s (DeleteFixup_loop s (root_of s t) p h1) (finish (FR sl w False # C) (up, v))"
      by (rule del_right_round [OF h1(2) t(1) sl(2,3) sib])
        (use DeleteFixup_up sib_up(2) [of t p True sr v s] sib in auto)
    then show ?thesis using h1 sib u True t(1) by (simp add: fixes_to_def)
  next
    case cw: False
    obtain up v where sib: "sib_R t p cp u = (up, v)" by fastforce
    have ok: "round_ok cp (bh t) (up, v)"
      unfolding sib [symmetric] by (rule sib_R_ok [OF t]) (use inv(1) u cw in auto)
    have step: "del_fix (FR u p cp # C) t = (if up then del_fix C v else finish C (up, v))"
      using t(1) u cw sib by auto
    show ?thesis
    proof (rule del_right_round [OF z t(1) _ _ sib])
      fix h' assume up: up and z': "zrep h0 A h' s C v"
      have "fixes_to h0 A h' s (DeleteFixup_loop s (root_of s v) (top_of s C) h') (del_fix C v)"
        by (rule IH [OF z']; rule round_ok_IH) (use ok inv(1) up in auto)
      then show "fixes_to h0 A h' s (DeleteFixup_loop s p (top_of s C) h') (del_fix (FR u p cp # C) t)"
        using step sib_up(2) [of t p cp u v s] sib up by simp
    qed (use u cw step in auto)
  qed
qed

lemma DeleteFixup_loop_correct:
  assumes "zrep h0 A h s C t" and "cinv C (Suc (bh t))" and "invc (paint False t)" and "invh t"
  shows "fixes_to h0 A h s (DeleteFixup_loop s (root_of s t) (top_of s C) h) (del_fix C t)"
  using assms
proof (induction C arbitrary: t h)
  case Nil
  then show ?case using DeleteFixup_stop [of h0 A h s "[]" t] by simp
next
  case (Cons f C)
  show ?case
  proof (cases "is_red t")
    case True
    then show ?thesis
      using DeleteFixup_stop [OF Cons.prems(1)] by (cases f) simp_all
  next
    case False
    show ?thesis
    proof (cases f)
      case (FL p cp u)
      then show ?thesis
        using DeleteFixup_left [of h0 A h s C t p cp u] Cons False by (simp add: zrep_FL)
    next
      case (FR u p cp)
      then show ?thesis
        using DeleteFixup_right [of h0 A h s C u p cp t] Cons False by (simp add: zrep_FR)
    qed
  qed
qed

section \<open>Walks\<close>

fun min_pos :: "frame list \<Rightarrow> rtree \<Rightarrow> frame list \<times> addr \<times> bool \<times> rtree" where
  "min_pos C (Node Leaf d c r) = (C, d, c, r)"
| "min_pos C (Node (Node ll la lc lr) a c r) = min_pos (FL a c r # C) (Node ll la lc lr)"
| "min_pos C Leaf = (C, 0, False, Leaf)"

lemma min_pos_plug:
  "t \<noteq> Leaf \<Longrightarrow> min_pos C t = (D, d, c, r) \<Longrightarrow> plug D (Node Leaf d c r) = plug C t \<and> before D = before C \<and> d = hd (inord t)"
  by (induction C t rule: min_pos.induct) (auto simp: hd_append)

lemma min_pos_append:
  "t \<noteq> Leaf \<Longrightarrow> min_pos (C @ E) t = (case min_pos C t of (D, d, c, r) \<Rightarrow> (D @ E, d, c, r))"
  by (induction C t rule: min_pos.induct) auto

lemma Minimum_loop_correct:
  assumes "zrep h0 A h s C t" and "t \<noteq> Leaf"
  shows "Minimum_loop s h (root_of s t) = Some (hd (inord t))"
  using assms
proof (induction C t rule: min_pos.induct)
  case (1 C d c r)
  then show ?case by (subst Minimum_loop.simps) (simp add: zrep_def)
next
  case (2 C ll la lc lr a c r)
  have "la \<noteq> s" "rb_left h a = la"
    using "2.prems"(1) by (auto simp: zrep_def inord_plug)
  then show ?case
    using "2.IH" "2.prems"(1) by (subst Minimum_loop.simps) (simp add: zrep_FL hd_append)
qed simp

lemma Next_of_min:
  assumes "zrep h0 A h s C (Node Leaf m c r)" and "before C = []"
  shows "Tree_Next s h m = Some (hd (inord r @ after C @ [s]))"
proof -
  have m: "m \<noteq> s" "rb_right h m = root_of s r" "rb_parent h m = top_of s C"
    using assms(1) by (auto simp: zrep_def inord_plug)
  show ?thesis
  proof (cases r)
    case (Node rl ra rc rr)
    have "zrep h0 A h s (FR Leaf m c # C) r" using assms(1) by (simp add: zrep_FR)
    then have "Minimum_loop s h (root_of s r) = Some (hd (inord r))"
      using Minimum_loop_correct Node by blast
    moreover have "root_of s r \<noteq> s"
      using assms(1) Node by (auto simp: zrep_def inord_plug)
    ultimately show ?thesis
      using m Node by (simp add: Tree_Next_def Tree_Minimum_def hd_append)
  next
    case Leaf
    show ?thesis
    proof (cases C)
      case Nil
      then show ?thesis using m Leaf assms(1) by (simp add: Tree_Next_def zrep_def)
    next
      case (Cons f C')
      then obtain p cp u where f: "f = FL p cp u" using assms(2) by (cases f) auto
      have "rb_parent h s \<noteq> m" using zrep_root [OF assms(1)] Cons by simp
      moreover have "p \<noteq> s" "rb_left h p = m" using assms(1) Cons f by (auto simp: zrep_def inord_plug)
      ultimately show ?thesis
        using m Leaf Cons f by (simp add: Tree_Next_def) (subst Next_loop.simps, simp)
    qed
  qed
qed

lemma HeaderOf_loop_correct:
  assumes "zrep h0 A h s C (Node l n c r)"
  shows "HeaderOf_loop (length C + 2 + k) h n = s"
  using assms
proof (induction C arbitrary: l n c r)
  case Nil
  have "\<not> Tree_IsHeader h n" "Tree_IsHeader h s" "rb_parent h n = s" "s \<noteq> nullptr"
    using Nil root_of_in [of s r] by (auto simp: zrep_def Tree_IsHeader_def)
  then show ?case by (simp add: numeral_2_eq_2)
next
  case (Cons f C)
  have n: "\<not> Tree_IsHeader h n" "rb_parent h n = top_of s (f # C)"
    using Cons.prems root_of_in [of s r] by (auto simp: zrep_def Tree_IsHeader_def inord_plug)
  have "HeaderOf_loop (length C + 2 + k) h (top_of s (f # C)) = s" "top_of s (f # C) \<noteq> nullptr"
    using Cons.IH Cons.prems zrep_node by (cases f; auto simp: zrep_FL zrep_FR dest: zrep_node)+
  then show ?case using n by (simp add: Let_def)
qed

lemma plug_length: "length C \<le> length (before C @ after C)"
proof (induction C)
  case (Cons f C)
  then show ?case by (cases f) auto
qed simp

section \<open>Detaching\<close>

lemma transplanted_moved:
  assumes "transplanted h h' s (root_of s u) C" and "subtree h s q u"
    and "distinct (inord u)" and "s \<notin> set (inord u)" and "set (inord u) \<inter> (set (before C) \<union> set (after C)) = {}"
  shows "subtree h' s (top_of s C) u"
proof (cases u)
  case (Node x n c y)
  have "subtree h' s n x = subtree h s n x" "subtree h' s n y = subtree h s n y"
    using assms(3-5) Node by (subst transplanted_subtree [OF assms(1)]; auto)+
  then show ?thesis
    using assms Node by (simp add: transplanted_def)
qed simp

lemma transplanted_outside:
  assumes "transplanted h h' s d C" and "\<And>x. x \<notin> A \<Longrightarrow> same_node h0 h x"
    and "insert d (insert s (set (before C) \<union> set (after C))) \<subseteq> A" and "x \<notin> A"
  shows "same_node h0 h' x"
  using assms(1) assms(2) [OF assms(4)] assms(3,4) by (auto simp: transplanted_def same_node_def)

lemma Transplant_zrep:
  assumes z: "zrep h0 A h s C (Node l e c r)" and u: "u = l \<or> u = r"
  shows "\<exists>h'. Tree_Transplant s e (root_of s u) h = Some h' \<and> zrep h0 A h' s C u \<and> transplanted h h' s (root_of s u) C"
proof -
  have rep: "ctx h s e C" "rb_parent h e = top_of s C" "subtree h s e u"
    and nodes: "distinct (before C @ inord (Node l e c r) @ after C)" "s \<notin> set (before C @ inord (Node l e c r) @ after C)"
    and A: "insert s (set (before C @ inord (Node l e c r) @ after C)) \<subseteq> A" "\<And>x. x \<notin> A \<Longrightarrow> same_node h0 h x"
    and s: "rb_right h s = s" "\<not> rb_red h s" "\<not> rb_linked h s"
    using z u by (auto simp: zrep_def inord_plug)
  have sep: "distinct (inord u)" "s \<notin> set (inord u)" "set (inord u) \<inter> (set (before C) \<union> set (after C)) = {}"
    "e \<noteq> s" "e \<notin> set (before C) \<union> set (after C)" "distinct (before C @ after C)" "s \<notin> set (before C) \<union> set (after C)"
    using nodes u by auto
  then have "root_of s u \<notin> set (before C) \<union> set (after C)"
    using root_of_in [of s u] by auto
  then obtain h' where h': "Tree_Transplant s e (root_of s u) h = Some h'" "transplanted h h' s (root_of s u) C"
    using Transplant_ctx [OF rep(1,2) sep(4,5) _ sep(6,7)] by blast
  have "insert (root_of s u) (insert s (set (before C) \<union> set (after C))) \<subseteq> A"
    using A(1) u root_of_in [of s u] by auto
  then have "same_node h0 h' x" if "x \<notin> A" for x
    using transplanted_outside [OF h'(2) A(2)] that by blast
  moreover have "subtree h' s (top_of s C) u"
    by (rule transplanted_moved [OF h'(2) rep(3) sep(1-3)])
  moreover have "ctx h' s (root_of s u) C" "rb_right h' s = s" "\<not> rb_red h' s" "\<not> rb_linked h' s"
    using h'(2) sep(7) s by (auto simp: transplanted_def)
  ultimately have "zrep h0 A h' s C u"
    using z u by (auto simp: zrep_def inord_plug)
  then show ?thesis using h' by blast
qed

lemma Erase_replace_correct:
  assumes rep: "ctx h s e C" "rb_parent h e = top_of s C" "rb_left h e = root_of s l" "rb_red h e = c"
    and sub: "subtree h s e l" "subtree h s d r" "rb_right h d = root_of s r" "rb_linked h d" "l \<noteq> Leaf"
    and nodes: "distinct (before C @ inord (Node l d c r) @ after C)" "s \<notin> set (before C @ inord (Node l d c r) @ after C)"
    "nullptr \<notin> set (before C @ inord (Node l d c r) @ after C)" "s \<noteq> nullptr"
    "e \<notin> set (before C @ inord (Node l d c r) @ after C)" "e \<noteq> s"
    and A: "insert s (set (before C @ inord (Node l d c r) @ after C)) \<subseteq> A" "\<And>x. x \<notin> A \<Longrightarrow> same_node h0 h x"
    and s: "rb_right h s = s" "\<not> rb_red h s" "\<not> rb_linked h s"
  shows "\<exists>h'. Erase_replace s e d h = Some h' \<and> zrep h0 A h' s C (Node l d c r) \<and> rb_left h' s = rb_left h s"
proof -
  have sep: "e \<notin> set (before C) \<union> set (after C)" "d \<notin> set (before C) \<union> set (after C)"
    "distinct (before C @ after C)" "s \<notin> set (before C) \<union> set (after C)" "d \<noteq> s" "e \<noteq> d"
    using nodes by auto
  obtain h1 where h1: "Tree_Transplant s e d h = Some h1" "transplanted h h1 s d C"
    using Transplant_ctx [OF rep(1,2) nodes(6) sep(1-4)] by blast
  obtain ll la lc lr where l: "l = Node ll la lc lr" using sub(5) by (cases l) auto
  define h3 where "h3 = rb_set_red d c (rb_set_parent la d (rb_set_left d la h1))"
  have sub1: "subtree h1 s e l" "subtree h1 s d r"
    using sub(1,2) nodes by (subst transplanted_subtree [OF h1(2)]; auto)+
  have e1: "rb_left h1 e = la" "rb_parent h1 e = top_of s C" "rb_parent h1 d = top_of s C" "rb_red h1 e = c"
    "rb_right h1 d = root_of s r" "rb_linked h1 d" "ctx h1 s d C"
    using h1(2) sep rep sub nodes(6) l by (auto simp: transplanted_def)
  have la: "la \<noteq> s" "la \<noteq> d" "la \<noteq> e" "la \<notin> set (before C) \<union> set (after C)"
    using nodes l by auto
  have "Erase_replace s e d h = Some h3"
    using h1(1) e1 la sep(5,6) nodes(6) by (simp add: Erase_replace_def h3_def Let_def)
  moreover have "subtree h3 s (top_of s C) (Node l d c r)"
    using sub1 e1 nodes l la by (auto simp: h3_def)
  moreover have "ctx h3 s d C"
    using e1(7) sep la by (simp add: h3_def)
  moreover have "same_node h0 h3 x" if "x \<notin> A" for x
  proof -
    have "same_node h0 h1 x"
      by (rule transplanted_outside [OF h1(2) A(2) _ that]) (use A(1) in auto)
    then show ?thesis using A(1) that l by (auto simp: same_node_def h3_def)
  qed
  moreover have "rb_right h3 s = s" "\<not> rb_red h3 s" "\<not> rb_linked h3 s" "rb_left h3 s = rb_left h s"
    using h1(2) s sep by (auto simp: transplanted_def h3_def)
  ultimately show ?thesis
    using nodes A(1) by (simp add: zrep_def inord_plug)
qed

lemma root_of_neq: "t \<noteq> Leaf \<Longrightarrow> s \<notin> set (inord t) \<Longrightarrow> root_of s t \<noteq> s"
  by (cases t) auto

definition det :: "frame list \<Rightarrow> rtree \<Rightarrow> bool \<Rightarrow> rtree \<Rightarrow> frame list \<times> rtree \<times> bool" where
  "det C l c r =
     (if l = Leaf then (C, r, c) else if r = Leaf then (C, l, c)
      else case min_pos [] r of (D, d, cd, dr) \<Rightarrow> (D @ FR l d c # C, dr, cd))"

lemma zrep_refocus: "zrep h0 A h s (D @ C) t = zrep h0 A h s C (plug D t)"
  by (metis plug_append zrep_plug)

lemma zrep_top:
  assumes "zrep h0 A h s C (Node l e c r)"
  shows "top_of s C \<noteq> nullptr" "top_of s C = s \<or> rb_left h (top_of s C) = e \<or> rb_right h (top_of s C) = e"
proof -
  show "top_of s C \<noteq> nullptr" "top_of s C = s \<or> rb_left h (top_of s C) = e \<or> rb_right h (top_of s C) = e"
    using assms by (cases C rule: allows_red.cases; auto simp: zrep_def inord_plug)+
qed

lemma Erase_detach_one:
  assumes "zrep h0 A h s C (Node l e c r)" and "l = Leaf \<and> u = r \<or> r = Leaf \<and> u = l \<and> l \<noteq> Leaf"
  shows "\<exists>h1. Erase_detach s e h = Some (h1, root_of s u, top_of s C, c) \<and> zrep h0 A h1 s C u \<and> rb_left h1 s = rb_left h s"
proof -
  obtain h1 where h1: "Tree_Transplant s e (root_of s u) h = Some h1" "zrep h0 A h1 s C u"
    "transplanted h h1 s (root_of s u) C"
    using Transplant_zrep [OF assms(1), of u] assms(2) by blast
  have e: "rb_left h e = root_of s l" "rb_right h e = root_of s r" "rb_parent h e = top_of s C" "rb_red h e = c"
    and s: "s \<notin> set (inord l)" "s \<notin> set (before C) \<union> set (after C)"
    using assms(1) by (auto simp: zrep_def inord_plug)
  then have "Erase_detach s e h = Some (h1, root_of s u, top_of s C, c)"
    using zrep_top [OF assms(1)] assms(2) h1(1) root_of_in [of s l]
    by (cases l) (auto simp: Erase_detach_def Let_def)
  moreover have "rb_left h1 s = rb_left h s"
    using h1(3) s(2) by (simp add: transplanted_def)
  ultimately show ?thesis using h1(2) by blast
qed

text \<open>Two children: the successor is the child itself, or further down on the left.\<close>

lemma Erase_detach_child:
  assumes z: "zrep h0 A h s C (Node l e c (Node Leaf d cd dr))" and l: "l \<noteq> Leaf"
  shows "\<exists>h1. Erase_detach s e h = Some (h1, root_of s dr, d, cd) \<and>
           zrep h0 A h1 s C (Node l d c dr) \<and> rb_left h1 s = rb_left h s"
proof -
  have rep: "ctx h s e C" "rb_parent h e = top_of s C" "rb_left h e = root_of s l" "rb_red h e = c" "rb_right h e = d"
    and sub: "subtree h s e l" "subtree h s d dr" "rb_right h d = root_of s dr" "rb_linked h d" "rb_left h d = s"
      "rb_parent h d = e" "rb_red h d = cd"
    and nodes: "distinct (before C @ inord (Node l d c dr) @ after C)" "s \<notin> set (before C @ inord (Node l d c dr) @ after C)"
      "nullptr \<notin> set (before C @ inord (Node l d c dr) @ after C)" "s \<noteq> nullptr"
      "e \<notin> set (before C @ inord (Node l d c dr) @ after C)" "e \<noteq> s"
    and A: "insert s (set (before C @ inord (Node l d c dr) @ after C)) \<subseteq> A" "\<And>x. x \<notin> A \<Longrightarrow> same_node h0 h x"
    and s: "rb_right h s = s" "\<not> rb_red h s" "\<not> rb_linked h s"
    using z by (auto simp: zrep_def inord_plug)
  obtain h1 where h1: "Erase_replace s e d h = Some h1" "zrep h0 A h1 s C (Node l d c dr)" "rb_left h1 s = rb_left h s"
    using Erase_replace_correct [OF rep(1-4) sub(1-4) l nodes A s] by blast
  have "Minimum_loop s h d = Some d"
    using sub(5) by (subst Minimum_loop.simps) simp
  moreover have "d \<noteq> s" "root_of s l \<noteq> s"
    using nodes(2) l by (cases l; auto)+
  moreover have "root_of s dr \<noteq> s \<longrightarrow> rb_set_parent (root_of s dr) d h = h"
    using sub(2) by (cases dr) (auto simp: rb_set_parent_def)
  ultimately have "Erase_detach s e h = Some (h1, root_of s dr, d, cd)"
    using rep sub h1(1) by (simp add: Erase_detach_def Tree_Minimum_def Let_def)
  then show ?thesis using h1 by blast
qed

lemma Erase_replace_fresh:
  assumes z: "zrep h0 A h s C (Node l e c (Node rl ra rc rr))" and l: "l \<noteq> Leaf"
    and d: "d \<notin> set (before C @ inord (Node l e c (Node rl ra rc rr)) @ after C)" "d \<noteq> s" "d \<noteq> nullptr" "d \<in> A" "rb_linked h d"
  shows "\<exists>h'. Erase_replace s e d (rb_set_parent ra d (rb_set_right d ra h)) = Some h' \<and>
           zrep h0 A h' s C (Node l d c (Node rl ra rc rr)) \<and> rb_left h' s = rb_left h s"
proof -
  let ?r = "Node rl ra rc rr"
  define h3 where "h3 = rb_set_parent ra d (rb_set_right d ra h)"
  have nodes: "distinct (before C @ inord (Node l d c ?r) @ after C)" "s \<notin> set (before C @ inord (Node l d c ?r) @ after C)"
      "nullptr \<notin> set (before C @ inord (Node l d c ?r) @ after C)" "s \<noteq> nullptr"
      "e \<notin> set (before C @ inord (Node l d c ?r) @ after C)" "e \<noteq> s"
    and A: "insert s (set (before C @ inord (Node l d c ?r) @ after C)) \<subseteq> A" "\<And>x. x \<notin> A \<Longrightarrow> same_node h0 h x"
    using z d by (auto simp: zrep_def inord_plug)
  have rep: "ctx h s e C" "rb_parent h e = top_of s C" "rb_left h e = root_of s l" "rb_red h e = c" "subtree h s e l"
      "subtree h s e ?r" "rb_right h s = s" "\<not> rb_red h s" "\<not> rb_linked h s"
    using z by (auto simp: zrep_def)
  have ne: "e \<noteq> d" "e \<noteq> ra" "d \<noteq> ra" "s \<noteq> ra" "ra \<in> A"
    using nodes A(1) by auto
  have "\<exists>h'. Erase_replace s e d h3 = Some h' \<and> zrep h0 A h' s C (Node l d c ?r) \<and> rb_left h' s = rb_left h3 s"
  proof (rule Erase_replace_correct)
    show "ctx h3 s e C" "subtree h3 s e l" "subtree h3 s d ?r"
      using rep nodes(1,2) ne by (auto simp: h3_def)
    show "same_node h0 h3 x" if "x \<notin> A" for x
      using A(2) [OF that] d(4) ne(5) that by (auto simp: same_node_def h3_def)
  qed (use rep nodes A(1) ne d l in \<open>auto simp: h3_def\<close>)
  then show ?thesis by (simp add: h3_def)
qed

lemma Erase_detach_deep:
  assumes z: "zrep h0 A h s (FL p cp u # D @ FR l e c # C) (Node Leaf d cd dr)" and l: "l \<noteq> Leaf"
    and left: "d = hd (inord (plug (FL p cp u # D) (Node Leaf d cd dr)))"
  shows "\<exists>h1. Erase_detach s e h = Some (h1, root_of s dr, p, cd) \<and>
           zrep h0 A h1 s (FL p cp u # D @ FR l d c # C) dr \<and> rb_left h1 s = rb_left h s"
proof -
  let ?D = "FL p cp u # D"
  let ?r = "plug ?D (Node Leaf d cd dr)" and ?r' = "plug ?D dr"
  have z': "zrep h0 A h s C (Node l e c ?r)"
    using z zrep_refocus [of h0 A h s ?D "FR l e c # C"] by (simp add: zrep_FR)
  obtain h1 where h1: "Tree_Transplant s d (root_of s dr) h = Some h1" "zrep h0 A h1 s (?D @ FR l e c # C) dr"
    "transplanted h h1 s (root_of s dr) (?D @ FR l e c # C)"
    using Transplant_zrep [of h0 A h s "?D @ FR l e c # C" Leaf d cd dr dr] z by auto
  have z1: "zrep h0 A h1 s C (Node l e c ?r')"
    using h1(2) zrep_refocus [of h0 A h1 s ?D "FR l e c # C"] by (simp add: zrep_FR)
  obtain rl ra rc rr where r': "?r' = Node rl ra rc rr"
    by (cases ?r') (auto dest: arg_cong [of _ _ inord] simp: inord_plug)
  have split: "inord ?r = before D @ d # inord dr @ after ?D" "inord ?r' = before D @ inord dr @ after ?D"
    by (simp_all add: inord_plug)
  have d: "d \<notin> set (before C @ inord (Node l e c ?r') @ after C)" "d \<noteq> s" "d \<noteq> nullptr" "d \<in> A"
    using z' split by (simp_all add: zrep_def inord_plug)
  have dl: "rb_linked h1 d" "rb_right h1 e = ra"
    using z h1(3) z1 r' by (simp_all add: zrep_def transplanted_def)
  obtain h4 where h4: "Erase_replace s e d (rb_set_parent ra d (rb_set_right d ra h1)) = Some h4"
    "zrep h0 A h4 s C (Node l d c ?r')" "rb_left h4 s = rb_left h1 s"
    using Erase_replace_fresh [OF z1 [unfolded r'] l] d dl(1) unfolding r' by blast
  have e: "rb_left h e = root_of s l" "rb_right h e = root_of s ?r"
    using z' by (simp_all add: zrep_def)
  have p: "rb_left h d = s" "rb_right h d = root_of s dr" "rb_parent h d = p" "rb_red h d = cd" "rb_left h p = d"
    using z by (simp_all add: zrep_def)
  have "p \<in> set (inord ?r)" "e \<notin> set (inord ?r)" "s \<notin> set (inord ?r)" "nullptr \<notin> set (inord ?r)"
    using z' by (simp_all add: zrep_def inord_plug)
  then have ne: "p \<noteq> e" "p \<noteq> s" "p \<noteq> nullptr"
    by metis+
  have "ra \<in> set (inord ?r')"
    unfolding r' by simp
  moreover have "s \<notin> set (inord ?r')" "d \<notin> set (inord ?r')"
    using z1 d(1) by (simp_all add: zrep_def inord_plug)
  ultimately have ra: "ra \<noteq> s" "ra \<noteq> d"
    by metis+
  have r: "?r \<noteq> Leaf"
    by (auto dest: arg_cong [of _ _ inord] simp: inord_plug)
  have "Minimum_loop s h (root_of s ?r) = Some (hd (inord ?r))"
    using z' by (intro Minimum_loop_correct [of h0 A h s "FR l e c # C", OF _ r]) (simp only: zrep_FR)
  moreover have "root_of s ?r \<noteq> s"
    using z' by (intro root_of_neq [OF r]) (simp add: zrep_def inord_plug)
  moreover have "root_of s l \<noteq> s"
    using z' by (intro root_of_neq [OF l]) (simp add: zrep_def inord_plug)
  ultimately have "Erase_detach s e h = Some (h4, root_of s dr, p, cd)"
    using e p ne ra dl(2) h1(1) h4(1) d(2) unfolding left [symmetric] by (simp add: Erase_detach_def Tree_Minimum_def Let_def)
  moreover have "rb_left h1 s = rb_left h s"
    using z h1(3) by (simp add: zrep_def transplanted_def inord_plug)
  ultimately show ?thesis
    using h4(2,3) zrep_refocus [of h0 A h4 s ?D "FR l d c # C" dr] by (simp add: zrep_FR)
qed

lemma Erase_detach_correct:
  assumes z: "zrep h0 A h s C (Node l e c r)" and det: "det C l c r = (C', t', red)"
  shows "\<exists>h1. Erase_detach s e h = Some (h1, root_of s t', top_of s C', red) \<and>
           zrep h0 A h1 s C' t' \<and> rb_left h1 s = rb_left h s"
proof -
  consider (one) "l = Leaf \<or> r = Leaf" | (two) "l \<noteq> Leaf" "r \<noteq> Leaf" by blast
  then show ?thesis
  proof cases
    case one
    then show ?thesis
      using Erase_detach_one [OF z, of t'] det by (auto simp: det_def split: if_splits)
  next
    case two
    obtain D d cd dr where m: "min_pos [] r = (D, d, cd, dr)" by (cases "min_pos [] r") auto
    have p: "plug D (Node Leaf d cd dr) = r" "before D = []" "d = hd (inord r)"
      using min_pos_plug [OF two(2) m] by auto
    have r: "C' = D @ FR l d c # C" "t' = dr" "red = cd"
      using det two m by (simp_all add: det_def)
    show ?thesis
    proof (cases D)
      case Nil
      then show ?thesis
        using Erase_detach_child [of h0 A h s C l e c d cd dr] z p two(1) r by (auto simp: zrep_FR)
    next
      case (Cons f D')
      then obtain q cq u where f: "f = FL q cq u" using p(2) by (cases f) auto
      have "zrep h0 A h s (FL q cq u # D' @ FR l e c # C) (Node Leaf d cd dr)"
        using z p(1) Cons f zrep_refocus [of h0 A h s D "FR l e c # C"] by (simp add: zrep_FR)
      from Erase_detach_deep [OF this two(1)] show ?thesis
        using p Cons f r by simp
    qed
  qed
qed

lemma cinv_rename: "cinv (D @ FR l e c # C) n = cinv (D @ FR l d c # C) n"
proof (induction D arbitrary: n)
  case (Cons f D)
  moreover have "allows_red (D @ FR l e c # C) = allows_red (D @ FR l d c # C)"
    by (cases D rule: allows_red.cases) auto
  ultimately show ?case by (cases f) simp_all
qed simp

lemma allows_red_rename: "allows_red (D @ FR l e c # C) = allows_red (D @ FR l d c # C)"
  by (cases D rule: allows_red.cases) auto

lemma bh_0: "invh t \<Longrightarrow> invc t \<Longrightarrow> bh t = 0 \<Longrightarrow> \<not> is_red t \<Longrightarrow> t = Leaf"
  by (cases t) auto

text \<open>After detaching a red node the rules hold; after a black one its place is one too low.\<close>

lemma det_rb:
  assumes "rb (plug C (Node l e c r))" and "det C l c r = (C', t', red)"
  shows "if red then rb (plug C' t') else cinv C' (Suc (bh t')) \<and> invc t' \<and> invh t'"
proof -
  have inv: "cinv C (bh (Node l e c r))" "invc (Node l e c r)" "invh (Node l e c r)" "c \<longrightarrow> allows_red C"
    using assms(1) by (simp_all add: rb_plug)
  consider (one) "l = Leaf \<or> r = Leaf" | (two) "l \<noteq> Leaf" "r \<noteq> Leaf" by blast
  then show ?thesis
  proof cases
    case one
    then show ?thesis
      using inv assms(2) bh_0 [of r] bh_0 [of l] by (auto simp: det_def rb_plug split: if_splits)
  next
    case two
    obtain D d cd dr where m: "min_pos [] r = (D, d, cd, dr)" by (cases "min_pos [] r") auto
    have p: "plug D (Node Leaf d cd dr) = r"
      using min_pos_plug [OF two(2) m] by auto
    have r: "C' = D @ FR l d c # C" "t' = dr" "red = cd"
      using assms(2) two m by (simp_all add: det_def)
    have "rb (plug (D @ FR l e c # C) (Node Leaf d cd dr))"
      using assms(1) p by (simp add: plug_append)
    then have inv': "cinv C' (bh (Node Leaf d cd dr))" "invc (Node Leaf d cd dr)" "invh (Node Leaf d cd dr)"
      using cinv_rename [of D l e c C _ d] r by (simp_all add: rb_plug)
    then show ?thesis
      using bh_0 [of dr] r by (auto simp: rb_plug)
  qed
qed

lemma before_append: "before (D @ C) = before C @ before D"
  by (induction D rule: before.induct) auto

lemma after_append: "after (D @ C) = after D @ after C"
  by (induction D rule: after.induct) auto

lemma det_inord:
  assumes "det C l c r = (C', t', red)"
  shows "inord (plug C' t') = before C @ inord l @ inord r @ after C"
proof -
  consider (one) "l = Leaf \<or> r = Leaf" | (two) "l \<noteq> Leaf" "r \<noteq> Leaf" by blast
  then show ?thesis
  proof cases
    case one
    then show ?thesis using assms by (auto simp: det_def inord_plug split: if_splits)
  next
    case two
    obtain D d cd dr where m: "min_pos [] r = (D, d, cd, dr)" by (cases "min_pos [] r") auto
    have p: "plug D (Node Leaf d cd dr) = r" "before D = []"
      using min_pos_plug [OF two(2) m] by auto
    have r: "inord r = d # inord dr @ after D"
      using p inord_plug [of D "Node Leaf d cd dr"] by simp
    then show ?thesis
      using assms two m p(2) by (auto simp: det_def inord_plug before_append after_append)
  qed
qed

end
