(* ===== verification/RBTree.thy ===== *)
theory RBTree
  imports RBTree_Erase
begin

text \<open>
  The container operations of \<^verbatim>\<open>detail/intrusive_rbtree.h\<close> as a whole: \<^verbatim>\<open>Insert\<close>, \<^verbatim>\<open>Erase\<close>,
  \<^verbatim>\<open>Earliest\<close> and \<^verbatim>\<open>ExtractPrefix\<close> on a tree that satisfies \<open>Tree_inv\<close>, with the in-order sequence as
  the abstract value.
\<close>

section \<open>Erase\<close>

lemma locate: "x \<in> set (inord t) \<Longrightarrow> \<exists>C l c r. plug C (Node l x c r) = plug D t"
proof (induction t arbitrary: D)
  case (Node t1 a c t2)
  then consider "x = a" | "x \<in> set (inord t1)" | "x \<in> set (inord t2)" by auto
  then show ?case
  proof cases
    case 1
    then show ?thesis by blast
  next
    case 2
    then show ?thesis using Node.IH(1) [of "FL a c t2 # D"] by auto
  next
    case 3
    then show ?thesis using Node.IH(2) [of "FR t1 a c # D"] by auto
  qed
qed simp

lemma zrep_pointers:
  assumes "zrep h0 A h s C t"
  shows "root_of s t \<noteq> nullptr" "top_of s C \<noteq> nullptr"
proof -
  show "root_of s t \<noteq> nullptr"
    using assms root_of_in [of s t] by (auto simp: zrep_def inord_plug)
  show "top_of s C \<noteq> nullptr"
    using assms by (cases C rule: allows_red.cases) (auto simp: zrep_def inord_plug)
qed

lemma HeaderOf_correct:
  assumes "zrep h0 A h s C (Node l e c r)"
  shows "Tree_HeaderOf (length (inord (plug C (Node l e c r)))) h e = s"
proof -
  have "length C \<le> length (before C @ inord l @ inord r @ after C)"
    using plug_length [of C] by simp
  then obtain k where "length (before C @ inord l @ inord r @ after C) = length C + k"
    using le_Suc_ex by blast
  then have "length (inord (plug C (Node l e c r))) + 1 = length C + 2 + k"
    by (simp add: inord_plug)
  moreover have "rb_linked h e" "e \<noteq> nullptr"
    using assms by (auto simp: zrep_def inord_plug)
  ultimately show ?thesis
    using HeaderOf_loop_correct [OF assms, of k] by (simp add: Tree_HeaderOf_def)
qed

text \<open>The cached minimum before the links change.\<close>

lemma Erase_min:
  assumes z: "zrep h0 A h s C (Node l e c r)" and "rb_left h s = hd (inord (plug C (Node l e c r)) @ [s])"
  shows "\<exists>h1. (if e = rb_left h s then do { next \<leftarrow> Tree_Next s h (rb_left h s); Some (rb_set_left s next h) } else Some h) = Some h1 \<and>
           zrep h0 A h1 s C (Node l e c r) \<and> rb_left h1 s = hd ((before C @ inord l @ inord r @ after C) @ [s])"
proof (cases "before C @ inord l = []")
  case True
  then have "l = Leaf" "before C = []" by (cases l; simp)+
  then have "Tree_Next s h e = Some (hd (inord r @ after C @ [s]))"
    using Next_of_min [of h0 A h s C e c r] z by simp
  then show ?thesis
    using assms True zrep_set_min by (auto simp: inord_plug)
next
  case False
  then have "hd (before C @ inord l) \<in> set (before C @ inord l)" by (rule hd_in_set)
  moreover have "hd (before C @ inord l @ ys) = hd (before C @ inord l)" for ys
    using False by (metis append.assoc hd_append2)
  ultimately show ?thesis
    using assms z False by (auto simp: inord_plug zrep_def)
qed

lemma Tree_Erase_refused: "e = nullptr \<Longrightarrow> Tree_Erase e t = Some (False, t)"
  "e \<noteq> rt_sentinel t \<Longrightarrow> \<not> rb_linked (rt_heap t) e \<Longrightarrow> Tree_Erase e t = Some (False, t)"
  by (auto simp: Tree_Erase_def)

lemma zrep_clear_hook:
  assumes "zrep h0 A h s C t" and "e \<notin> set (inord (plug C t))" "e \<noteq> s" "e \<in> A"
  shows "zrep h0 A (rb_clear_hook e h) s C t"
  unfolding rb_clear_hook_def by (intro zrep_outside assms)

lemma clear_hook_clean: "clean_hook (rb_clear_hook e h) e"
  "x \<noteq> e \<Longrightarrow> same_node h (rb_clear_hook e h) x"
  by (simp_all add: clean_hook_def same_node_def rb_clear_hook_def)

text \<open>Detaching and the fix-up together.\<close>

lemma Erase_links:
  assumes z: "zrep h0 A h s C (Node l e c r)" and rb: "rb (plug C (Node l e c r))"
  shows "\<exists>h2 x p red h3 T'. Erase_detach s e h = Some (h2, x, p, red) \<and> x \<noteq> nullptr \<and> p \<noteq> nullptr \<and>
           (if \<not> red then Tree_DeleteFixup s x p h2 else Some h2) = Some h3 \<and>
           zrep h0 A h3 s [] T' \<and> rb T' \<and> inord T' = before C @ inord l @ inord r @ after C \<and> rb_left h3 s = rb_left h s"
proof -
  obtain C' t' red where d: "det C l c r = (C', t', red)" by (cases "det C l c r") auto
  obtain h2 where h2: "Erase_detach s e h = Some (h2, root_of s t', top_of s C', red)" "zrep h0 A h2 s C' t'"
    "rb_left h2 s = rb_left h s"
    using Erase_detach_correct [OF z d] by blast
  note ptr = zrep_pointers [OF h2(2)]
  show ?thesis
  proof (cases red)
    case True
    then show ?thesis
      using h2 ptr det_rb [OF rb d] det_inord [OF d] zrep_plug [of h0 A h2 s C' t']
      by (intro exI [of _ h2] exI [of _ "root_of s t'"] exI [of _ "top_of s C'"] exI [of _ red]
          exI [of _ "plug C' t'"] conjI) simp_all
  next
    case False
    then have inv: "cinv C' (Suc (bh t'))" "invc t'" "invh t'"
      using det_rb [OF rb d] by simp_all
    then obtain h3 where h3: "DeleteFixup_loop s (root_of s t') (top_of s C') h2 = Some h3"
      "zrep h0 A h3 s [] (del_fix C' t')" "rb_left h3 s = rb_left h2 s"
      using DeleteFixup_loop_correct [OF h2(2)] invc_paint by (auto simp: fixes_to_def)
    then show ?thesis
      using h2 ptr False del_fix_rb [of C' t'] inv invc_paint del_fix_inord [of C' t'] det_inord [OF d]
      by (intro exI [of _ h2] exI [of _ "root_of s t'"] exI [of _ "top_of s C'"] exI [of _ red]
          exI [of _ h3] exI [of _ "del_fix C' t'"] conjI) (simp_all add: Tree_DeleteFixup_def)
  qed
qed

lemma zrep_hook:
  assumes "zrep h0 A h s C (Node l e c r)"
  shows "rb_left h e \<noteq> nullptr" "rb_right h e \<noteq> nullptr" "rb_parent h e \<noteq> nullptr" "rb_linked h e" "e \<noteq> s" "e \<noteq> nullptr"
  using assms zrep_pointers [of h0 A h s "FL e c r # C" l] zrep_pointers [of h0 A h s "FR l e c # C" r] zrep_pointers [OF assms]
  by (auto simp: zrep_FL zrep_FR) (auto simp: zrep_def inord_plug)

text \<open>The assertions at the end of \<^verbatim>\<open>Erase\<close>.\<close>

lemma Erase_final:
  assumes "zrep h0 A h s [] T" and "rb T" and "rb_left h s = hd (inord T @ [s])"
  shows "if length (inord T) = 0 then rb_parent h s = s \<and> rb_left h s = s
         else rb_parent h s \<noteq> s \<and> rb_parent h (rb_parent h s) = s \<and> rb_left h s \<noteq> s"
    and "Tree_IsHeader h s"
proof -
  show "Tree_IsHeader h s" using assms(1) by (simp add: zrep_def Tree_IsHeader_def)
  show "if length (inord T) = 0 then rb_parent h s = s \<and> rb_left h s = s
         else rb_parent h s \<noteq> s \<and> rb_parent h (rb_parent h s) = s \<and> rb_left h s \<noteq> s"
  proof (cases T)
    case Leaf
    then show ?thesis using assms by (simp add: zrep_def)
  next
    case (Node l a c r)
    then have "inord T \<noteq> []" by simp
    moreover from this have "hd (inord T) \<in> set (inord T)" by (rule hd_in_set)
    ultimately have "rb_left h s \<noteq> s"
      using assms(1,3) by (metis hd_append2 plug.simps(1) zrep_def)
    then show ?thesis
      using zrep_nonempty [OF assms(1,2)] Node by simp
  qed
qed

lemma Tree_Erase_correct:
  assumes inv: "Tree_inv kLess t T" and e: "e \<in> set (inord T)"
  shows "\<exists>t' T'. Tree_Erase e t = Some (True, t') \<and> Tree_inv kLess t' T' \<and> inord T' = remove1 e (inord T) \<and>
           rt_sentinel t' = rt_sentinel t \<and> clean_hook (rt_heap t') e \<and>
           (\<forall>x. x \<notin> insert (rt_sentinel t) (set (inord T)) \<longrightarrow> same_node (rt_heap t) (rt_heap t') x)"
proof -
  let ?s = "rt_sentinel t" and ?h = "rt_heap t" and ?A = "insert (rt_sentinel t) (set (inord T))"
  obtain C l c r where T: "T = plug C (Node l e c r)"
    using locate [OF e, of "[]"] by auto
  have z: "zrep ?h ?A ?h ?s C (Node l e c r)"
    using inv T zrep_plug zrep_restrict [of ?h ?s "[]" T ?A] by (auto simp: Tree_inv_def)
  have rb: "rb (plug C (Node l e c r))" and mn: "rb_left ?h ?s = hd (inord (plug C (Node l e c r)) @ [?s])"
    and sz: "rt_size t = length (inord (plug C (Node l e c r)))"
    using inv T by (simp_all add: Tree_inv_def)
  obtain h1 where h1: "(if e = rb_left ?h ?s then do { next \<leftarrow> Tree_Next ?s ?h (rb_left ?h ?s); Some (rb_set_left ?s next ?h) } else Some ?h) = Some h1"
    "zrep ?h ?A h1 ?s C (Node l e c r)" "rb_left h1 ?s = hd ((before C @ inord l @ inord r @ after C) @ [?s])"
    using Erase_min [OF z mn] by blast
  obtain h2 x p red h3 T' where d: "Erase_detach ?s e h1 = Some (h2, x, p, red)" "x \<noteq> nullptr" "p \<noteq> nullptr"
    "(if \<not> red then Tree_DeleteFixup ?s x p h2 else Some h2) = Some h3" "zrep ?h ?A h3 ?s [] T'" "rb T'"
    "inord T' = before C @ inord l @ inord r @ after C" "rb_left h3 ?s = rb_left h1 ?s"
    using Erase_links [OF h1(2) rb] by blast
  define t' where "t' = t\<lparr>rt_heap := rb_clear_hook e h3, rt_size := rt_size t - 1\<rparr>"
  have dist: "distinct (before C @ inord l @ e # inord r @ after C)" and es: "e \<noteq> ?s"
    using z by (simp_all add: zrep_def inord_plug)
  have z4: "zrep ?h ?A (rb_clear_hook e h3) ?s [] T'"
    by (rule zrep_clear_hook [OF d(5)]) (use d(7) dist e es in auto)
  have mn4: "rb_left (rb_clear_hook e h3) ?s = hd (inord T' @ [?s])"
    using d(7,8) h1(3) es by (simp add: rb_clear_hook_def)
  have len: "rt_size t - 1 = length (inord T')"
    using sz d(7) by (simp add: inord_plug)
  have root: "rb_parent ?h ?s \<noteq> ?s"
    using zrep_nonempty(1) [of ?h ?A ?h ?s T] z rb T zrep_plug e by (metis empty_iff inord.simps(1) list.set(1))
  have "Tree_Erase e t = Some (True, t')"
    using zrep_hook [OF z] HeaderOf_correct [OF z] root sz h1(1) d(1-4) Erase_final [OF z4 d(6) mn4]
    unfolding Tree_Erase_def t'_def Let_def len
    by (simp add: inord_plug)
  moreover have "Tree_inv kLess t' T'"
    using zrep_widen [OF z4] d(6,7) mn4 len inv T
    by (auto simp: Tree_inv_def t'_def inord_plug sorted_wrt_append)
  moreover have "inord T' = remove1 e (inord T)"
    using d(7) T dist by (auto simp: inord_plug remove1_append)
  moreover have "\<forall>x. x \<notin> ?A \<longrightarrow> same_node ?h (rb_clear_hook e h3) x"
    using z4 unfolding zrep_def by blast
  ultimately show ?thesis
    using clear_hook_clean(1) [of e h3] by (intro exI [of _ t'] exI [of _ T'] conjI) (simp_all add: t'_def)
qed

section \<open>Construction and prefix extraction\<close>

lemma Tree_init_inv: "s \<noteq> nullptr \<Longrightarrow> \<not> rb_linked h s \<Longrightarrow> Tree_inv kLess (Tree_init s h) Leaf"
  by (simp add: Tree_inv_def Tree_init_def zrep_def rb_def same_node_def)

lemma Tree_Empty_iff: "Tree_inv kLess t T \<Longrightarrow> Tree_Empty t \<longleftrightarrow> inord T = []"
  by (auto simp: Tree_inv_def Tree_Empty_def)

lemma Tree_Earliest_correct:
  assumes "Tree_inv kLess t T"
  shows "Tree_Earliest t = (case inord T of [] \<Rightarrow> nullptr | x # _ \<Rightarrow> x)"
proof (cases "inord T")
  case (Cons x xs)
  then have "x \<noteq> rt_sentinel t" using assms by (auto simp: Tree_inv_def zrep_def)
  then show ?thesis using assms Cons by (simp add: Tree_inv_def Tree_Earliest_def Let_def)
qed (use assms in \<open>simp add: Tree_inv_def Tree_Earliest_def Let_def\<close>)

lemma same_node_trans: "same_node h1 h2 x \<Longrightarrow> same_node h2 h3 x \<Longrightarrow> same_node h1 h3 x"
  by (simp add: same_node_def)

lemma same_node_clean: "same_node h h' x \<Longrightarrow> clean_hook h x \<Longrightarrow> clean_hook h' x"
  by (simp add: same_node_def clean_hook_def)

lemma ExtractPrefix_loop_correct:
  assumes "Tree_inv kLess t T"
  shows "\<exists>t' T'. ExtractPrefix_loop pred on_pop n c t =
             Some (n + length (takeWhile pred (inord T)), fold on_pop (takeWhile pred (inord T)) c, t') \<and>
           Tree_inv kLess t' T' \<and> inord T' = dropWhile pred (inord T) \<and> rt_sentinel t' = rt_sentinel t \<and>
           (\<forall>x\<in>set (takeWhile pred (inord T)). clean_hook (rt_heap t') x) \<and>
           (\<forall>x. x \<notin> insert (rt_sentinel t) (set (inord T)) \<longrightarrow> same_node (rt_heap t) (rt_heap t') x)"
  using assms
proof (induction "inord T" arbitrary: t T n c)
  case Nil
  then show ?case
    using Tree_Empty_iff [OF Nil.prems]
    by (intro exI [of _ t] exI [of _ T]) (subst ExtractPrefix_loop.simps, simp add: same_node_def)
next
  case (Cons x xs)
  have x: "\<not> Tree_Empty t" "Tree_Earliest t = x" "x \<in> set (inord T)"
    using Tree_Empty_iff [OF Cons.prems] Tree_Earliest_correct [OF Cons.prems] Cons.hyps(2) by (auto split: list.splits)
  show ?case
  proof (cases "pred x")
    case False
    then show ?thesis
      using x Cons.prems Cons.hyps(2) [symmetric]
      by (intro exI [of _ t] exI [of _ T]) (subst ExtractPrefix_loop.simps, simp add: same_node_def)
  next
    case True
    obtain t1 T1 where t1: "Tree_Erase x t = Some (True, t1)" "Tree_inv kLess t1 T1" "inord T1 = remove1 x (inord T)"
      "rt_sentinel t1 = rt_sentinel t" "clean_hook (rt_heap t1) x"
      "\<forall>y. y \<notin> insert (rt_sentinel t) (set (inord T)) \<longrightarrow> same_node (rt_heap t) (rt_heap t1) y"
      using Tree_Erase_correct [OF Cons.prems x(3)] by blast
    have xs: "inord T = x # xs" "inord T1 = xs" "x \<notin> set xs"
      using Cons.prems Cons.hyps(2) [symmetric] t1(3) by (simp_all add: Tree_inv_def zrep_def)
    obtain t2 T2 where t2: "ExtractPrefix_loop pred on_pop (n + 1) (on_pop x c) t1 =
        Some (n + 1 + length (takeWhile pred xs), fold on_pop (takeWhile pred xs) (on_pop x c), t2)"
      "Tree_inv kLess t2 T2" "inord T2 = dropWhile pred xs" "rt_sentinel t2 = rt_sentinel t1"
      "\<forall>y\<in>set (takeWhile pred xs). clean_hook (rt_heap t2) y"
      "\<forall>y. y \<notin> insert (rt_sentinel t1) (set xs) \<longrightarrow> same_node (rt_heap t1) (rt_heap t2) y"
      using Cons.hyps(1) [OF xs(2) [symmetric] t1(2), of "n + 1" "on_pop x c"] unfolding xs(2) by blast
    have "x \<noteq> rt_sentinel t"
      using Cons.prems xs(1) by (auto simp: Tree_inv_def zrep_def)
    then have "clean_hook (rt_heap t2) x"
      using same_node_clean [OF _ t1(5)] t2(6) t1(4) xs(3) by auto
    moreover have "same_node (rt_heap t) (rt_heap t2) y" if "y \<notin> insert (rt_sentinel t) (set (inord T))" for y
      using same_node_trans [of "rt_heap t" "rt_heap t1" y "rt_heap t2"] t1(4,6) t2(6) xs(1) that by auto
    moreover have "ExtractPrefix_loop pred on_pop n c t =
        Some (n + length (takeWhile pred (x # xs)), fold on_pop (takeWhile pred (x # xs)) c, t2)"
      using x True t1(1) t2(1) by (subst ExtractPrefix_loop.simps) simp
    ultimately show ?thesis
      using t2(2-5) t1(4) True xs(1) by (intro exI [of _ t2] exI [of _ T2]) auto
  qed
qed

end
