(* ===== verification/RBTree_Clear.thy ===== *)
theory RBTree_Clear
  imports RBTree
begin

text \<open>
  \<^verbatim>\<open>Clear\<close> and \<^verbatim>\<open>CheckInvariants\<close> of \<^verbatim>\<open>detail/intrusive_rbtree.h\<close>: the iterative post-order walk ends
  and resets every hook, and the self check accepts exactly the trees that satisfy \<open>Tree_inv\<close> and
  are strictly ordered.
\<close>

section \<open>Clear\<close>

definition unlinked_child :: "RBHeap \<Rightarrow> RBHeap \<Rightarrow> addr \<Rightarrow> addr \<Rightarrow> addr \<Rightarrow> bool" where
  "unlinked_child h h' s p x \<longleftrightarrow>
     rb_parent h' p = rb_parent h p \<and> rb_red h' p = rb_red h p \<and> rb_linked h' p = rb_linked h p \<and>
     rb_left h' p = (if rb_left h p = x then s else rb_left h p) \<and>
     rb_right h' p = (if rb_left h p = x then rb_right h p else s)"

definition cleared :: "RBHeap \<Rightarrow> RBHeap \<Rightarrow> addr set \<Rightarrow> addr \<Rightarrow> bool" where
  "cleared h h' X p \<longleftrightarrow> (\<forall>x\<in>X. clean_hook h' x) \<and> (\<forall>x. x \<notin> X \<longrightarrow> x \<noteq> p \<longrightarrow> same_node h h' x)"

lemma Clear_leaf:
  assumes "a \<noteq> s" "a \<noteq> nullptr" "rb_linked h a" "rb_left h a = s" "rb_right h a = s" "s \<noteq> nullptr"
    and "rb_parent h a = p" "p \<noteq> nullptr" "p \<noteq> a" "p \<noteq> s \<longrightarrow> rb_left h p = a \<or> rb_right h p = a"
  shows "\<exists>h'. Clear_loop s a h = Clear_loop s p h' \<and> cleared h h' {a} p \<and>
           (if p = s then same_node h h' s else unlinked_child h h' s p a)"
proof -
  define h1 where "h1 = (if p = s then h else if rb_left h p = a then rb_set_left p s h else rb_set_right p s h)"
  have "Clear_loop s a h = Clear_loop s p (rb_clear_hook a h1)"
    using assms by (subst Clear_loop.simps) (auto simp: h1_def Let_def)
  moreover have "cleared h (rb_clear_hook a h1) {a} p"
    by (simp add: cleared_def clean_hook_def same_node_def rb_clear_hook_def h1_def)
  moreover have "if p = s then same_node h (rb_clear_hook a h1) s else unlinked_child h (rb_clear_hook a h1) s p a"
    using assms(1,9) by (simp add: unlinked_child_def same_node_def rb_clear_hook_def h1_def)
  ultimately show ?thesis by blast
qed

lemma cleared_subtree:
  assumes "cleared h h' X p" and "set (inord t) \<inter> insert p X = {}"
  shows "subtree h' s q t = subtree h s q t"
  by (rule subtree_cong) (use assms in \<open>auto simp: cleared_def\<close>)

text \<open>Clearing the left or the right subtree of \<open>a\<close> and coming back to \<open>a\<close>.\<close>

lemma Clear_enter_left:
  assumes "a \<noteq> s" "a \<noteq> nullptr" "rb_linked h a" "rb_left h a = x" "x \<noteq> s" "x \<noteq> nullptr" "rb_right h a \<noteq> nullptr"
  shows "Clear_loop s a h = Clear_loop s x h"
  using assms by (subst Clear_loop.simps) simp

lemma Clear_enter_right:
  assumes "a \<noteq> s" "a \<noteq> nullptr" "rb_linked h a" "rb_left h a = s" "rb_right h a = x" "x \<noteq> s" "x \<noteq> nullptr" "s \<noteq> nullptr"
  shows "Clear_loop s a h = Clear_loop s x h"
  using assms by (subst Clear_loop.simps) simp

definition clears :: "RBHeap \<Rightarrow> addr \<Rightarrow> addr \<Rightarrow> rtree \<Rightarrow> bool" where
  "clears h s p t \<longleftrightarrow>
     (\<exists>h'. Clear_loop s (root_of s t) h = Clear_loop s p h' \<and> cleared h h' (set (inord t)) p \<and>
        (if p = s then same_node h h' s else unlinked_child h h' s p (root_of s t)))"

lemma Clear_left_child:
  assumes "clears h s a l" "l \<noteq> Leaf" "a \<noteq> s" "a \<noteq> nullptr" "rb_linked h a" "rb_left h a = root_of s l"
    "root_of s l \<noteq> s" "root_of s l \<noteq> nullptr" "rb_right h a \<noteq> nullptr"
  shows "\<exists>h1. Clear_loop s a h = Clear_loop s a h1 \<and> cleared h h1 (set (inord l)) a \<and>
      rb_left h1 a = s \<and> rb_right h1 a = rb_right h a \<and> rb_parent h1 a = rb_parent h a \<and> rb_linked h1 a"
proof -
  obtain h1 where "Clear_loop s (root_of s l) h = Clear_loop s a h1" "cleared h h1 (set (inord l)) a"
    "unlinked_child h h1 s a (root_of s l)"
    using assms(1,3) by (auto simp: clears_def)
  then show ?thesis
    using assms Clear_enter_left [of a s h "root_of s l"]
    by (intro exI [of _ h1] conjI) (simp_all add: unlinked_child_def)
qed

lemma Clear_right_child:
  assumes "clears h s a r" "r \<noteq> Leaf" "a \<noteq> s" "a \<noteq> nullptr" "rb_linked h a" "rb_right h a = root_of s r"
    "root_of s r \<noteq> s" "root_of s r \<noteq> nullptr" "rb_left h a = s" "s \<noteq> nullptr"
  shows "\<exists>h1. Clear_loop s a h = Clear_loop s a h1 \<and> cleared h h1 (set (inord r)) a \<and>
      rb_left h1 a = s \<and> rb_right h1 a = s \<and> rb_parent h1 a = rb_parent h a \<and> rb_linked h1 a"
proof -
  obtain h1 where "Clear_loop s (root_of s r) h = Clear_loop s a h1" "cleared h h1 (set (inord r)) a"
    "unlinked_child h h1 s a (root_of s r)"
    using assms(1,3) by (auto simp: clears_def)
  then show ?thesis
    using assms Clear_enter_right [of a s h "root_of s r"]
    by (intro exI [of _ h1] conjI) (simp_all add: unlinked_child_def)
qed

lemma cleared_trans:
  assumes "cleared h h1 X a" "cleared h1 h2 Y a" "cleared h2 h3 {a} p" "X \<inter> Y = {}" "a \<notin> X" "a \<notin> Y" "p \<notin> X" "p \<notin> Y" "p \<noteq> a"
  shows "cleared h h3 (insert a (X \<union> Y)) p" and "same_node h h2 p"
proof -
  have far: "same_node h1 h2 x" if "x \<notin> Y" "x \<noteq> a" for x using assms(2) that by (simp add: cleared_def)
  have last: "same_node h2 h3 x" if "x \<noteq> a" "x \<noteq> p" for x using assms(3) that by (simp add: cleared_def)
  have first: "same_node h h1 x" if "x \<notin> X" "x \<noteq> a" for x using assms(1) that by (simp add: cleared_def)
  show "same_node h h2 p"
    using same_node_trans first far assms by metis
  have "clean_hook h3 x" if "x \<in> X" for x
  proof -
    have "x \<noteq> a" "x \<notin> Y" "x \<noteq> p" using that assms by auto
    then show ?thesis
      using far last same_node_clean that assms(1) unfolding cleared_def by metis
  qed
  moreover have "clean_hook h3 x" if "x \<in> Y" for x
  proof -
    have "x \<noteq> a" "x \<noteq> p" using that assms by auto
    then show ?thesis
      using last same_node_clean that assms(2) unfolding cleared_def by metis
  qed
  moreover have "clean_hook h3 a" using assms(3) by (simp add: cleared_def)
  moreover have "same_node h h3 x" if "x \<notin> X" "x \<notin> Y" "x \<noteq> a" "x \<noteq> p" for x
    using same_node_trans first far last that by metis
  ultimately show "cleared h h3 (insert a (X \<union> Y)) p"
    by (auto simp: cleared_def)
qed

lemma Clear_subtree:
  assumes "subtree h s p t" and "t \<noteq> Leaf" and "distinct (inord t)" and "s \<notin> set (inord t)" "nullptr \<notin> set (inord t)"
    and "p \<notin> set (inord t)" "p \<noteq> nullptr" "s \<noteq> nullptr"
    and "p \<noteq> s \<longrightarrow> rb_left h p = root_of s t \<or> rb_right h p = root_of s t"
  shows "clears h s p t"
  using assms
proof (induction t arbitrary: p h)
  case (Node l a c r)
  have a: "a \<noteq> s" "a \<noteq> nullptr" "rb_linked h a" "rb_left h a = root_of s l" "rb_right h a = root_of s r" "rb_parent h a = p"
    "p \<noteq> a" "subtree h s a l" "subtree h s a r" "s \<noteq> nullptr" "p \<noteq> nullptr"
    using Node.prems by simp_all
  have sep: "distinct (inord l)" "distinct (inord r)" "s \<notin> set (inord l)" "s \<notin> set (inord r)" "nullptr \<notin> set (inord l)"
    "nullptr \<notin> set (inord r)" "a \<notin> set (inord l)" "a \<notin> set (inord r)" "p \<notin> set (inord l)" "p \<notin> set (inord r)"
    "set (inord l) \<inter> set (inord r) = {}"
    using Node.prems(3-6) by auto
  have ptr: "root_of s l \<noteq> nullptr" "root_of s r \<noteq> nullptr"
    using a(10) sep root_of_in [of s l] root_of_in [of s r] by auto
  have "\<exists>h1. Clear_loop s a h = Clear_loop s a h1 \<and> cleared h h1 (set (inord l)) a \<and>
      rb_left h1 a = s \<and> rb_right h1 a = root_of s r \<and> rb_parent h1 a = p \<and> rb_linked h1 a"
  proof (cases "l = Leaf")
    case True
    then show ?thesis using a by (intro exI [of _ h]) (simp add: cleared_def same_node_def)
  next
    case False
    have "clears h s a l"
      by (rule Node.IH(1)) (simp_all add: a sep False)
    then show ?thesis
      using Clear_left_child [of h s a l] False a ptr root_of_neq [OF False sep(3)] by simp
  qed
  then obtain h1 where h1: "Clear_loop s a h = Clear_loop s a h1" "cleared h h1 (set (inord l)) a"
    "rb_left h1 a = s" "rb_right h1 a = root_of s r" "rb_parent h1 a = p" "rb_linked h1 a" by blast
  have "\<exists>h2. Clear_loop s a h1 = Clear_loop s a h2 \<and> cleared h1 h2 (set (inord r)) a \<and>
      rb_left h2 a = s \<and> rb_right h2 a = s \<and> rb_parent h2 a = p \<and> rb_linked h2 a"
  proof (cases "r = Leaf")
    case True
    then show ?thesis using h1 by (intro exI [of _ h1]) (simp add: cleared_def same_node_def)
  next
    case False
    have "subtree h1 s a r"
      using cleared_subtree [OF h1(2), of r] a(9) sep by auto
    then have "clears h1 s a r"
      by (intro Node.IH(2)) (simp_all add: a sep False h1)
    then show ?thesis
      using Clear_right_child [of h1 s a r] False a ptr h1 root_of_neq [OF False sep(4)] by simp
  qed
  then obtain h2 where h2: "Clear_loop s a h1 = Clear_loop s a h2" "cleared h1 h2 (set (inord r)) a"
    "rb_left h2 a = s" "rb_right h2 a = s" "rb_parent h2 a = p" "rb_linked h2 a" by blast
  have p2: "same_node h h2 p"
    using h1(2) h2(2) sep a(7) same_node_trans unfolding cleared_def by metis
  then obtain h3 where h3: "Clear_loop s a h2 = Clear_loop s p h3" "cleared h2 h3 {a} p"
    "if p = s then same_node h2 h3 s else unlinked_child h2 h3 s p a"
    using Clear_leaf [of a s h2 p] a h2(3-6) Node.prems(9) by (auto simp: same_node_def)
  have "cleared h h3 (set (inord (Node l a c r))) p"
    using cleared_trans(1) [OF h1(2) h2(2) h3(2) sep(11,7,8,9,10) a(7)] by simp
  moreover have "if p = s then same_node h h3 s else unlinked_child h h3 s p a"
    using p2 h3(3) by (auto simp: same_node_def unlinked_child_def)
  ultimately show ?case
    using h1(1) h2(1) h3(1) by (auto simp: clears_def)
qed simp

lemma Tree_Clear_correct:
  assumes inv: "Tree_inv kLess t T"
  shows "\<exists>t'. Tree_Clear t = Some t' \<and> Tree_inv kLess t' Leaf \<and> rt_sentinel t' = rt_sentinel t \<and>
           (\<forall>x\<in>set (inord T). clean_hook (rt_heap t') x) \<and>
           (\<forall>x. x \<notin> insert (rt_sentinel t) (set (inord T)) \<longrightarrow> same_node (rt_heap t) (rt_heap t') x)"
proof (cases "T = Leaf")
  case True
  then show ?thesis
    using inv Tree_Empty_iff [OF inv] by (intro exI [of _ t]) (simp add: Tree_Clear_def same_node_def)
next
  case False
  let ?s = "rt_sentinel t" and ?h = "rt_heap t"
  have z: "subtree ?h ?s ?s T" "rb_parent ?h ?s = root_of ?s T" "distinct (inord T)" "?s \<notin> set (inord T)"
    "nullptr \<notin> set (inord T)" "?s \<noteq> nullptr" "\<not> rb_linked ?h ?s"
    using inv by (simp_all add: Tree_inv_def zrep_def)
  have "clears ?h ?s ?s T"
    by (rule Clear_subtree) (simp_all add: z False)
  then obtain h' where h': "Clear_loop ?s (root_of ?s T) ?h = Clear_loop ?s ?s h'"
    "cleared ?h h' (set (inord T)) ?s" "same_node ?h h' ?s"
    by (auto simp: clears_def)
  have "Clear_loop ?s ?s h' = Some h'" by (subst Clear_loop.simps) simp
  then have run: "Clear_loop ?s (rb_parent ?h ?s) ?h = Some h'" using h'(1) z(2) by simp
  define h2 where "h2 = rb_set_red ?s False (rb_set_right ?s ?s (rb_set_left ?s ?s (rb_set_parent ?s ?s h')))"
  define t' where "t' = t\<lparr>rt_heap := h2, rt_size := 0\<rparr>"
  have ne: "inord T \<noteq> []" using False by (cases T) auto
  then have "Tree_Clear t = Some t'"
    using Tree_Empty_iff [OF inv] run by (simp add: Tree_Clear_def t'_def h2_def Let_def)
  moreover have "Tree_inv kLess t' Leaf"
    using z(6,7) h'(3) by (simp add: Tree_inv_def t'_def h2_def zrep_def rb_def same_node_def)
  moreover have "clean_hook h2 x" if "x \<in> set (inord T)" for x
    using h'(2) z(4) that by (auto simp: cleared_def clean_hook_def h2_def)
  moreover have "same_node ?h h2 x" if "x \<notin> set (inord T)" "x \<noteq> ?s" for x
    using h'(2) that by (auto simp: cleared_def same_node_def h2_def)
  ultimately show ?thesis
    by (intro exI [of _ t']) (simp add: t'_def)
qed

section \<open>The self check\<close>

definition check_spec :: "(addr \<Rightarrow> addr \<Rightarrow> bool) \<Rightarrow> addr \<Rightarrow> RBHeap \<Rightarrow> addr \<Rightarrow> addr \<Rightarrow> addr \<Rightarrow> rtree \<Rightarrow> bool" where
  "check_spec kLess s h parent lower upper t \<longleftrightarrow>
     subtree h s parent t \<and> invc t \<and> invh t \<and> sorted_wrt kLess (inord t) \<and>
     s \<notin> set (inord t) \<and> nullptr \<notin> set (inord t) \<and> (\<forall>x\<in>set (inord t). \<not> Tree_IsHeader h x) \<and>
     (\<forall>x\<in>set (inord t). (lower \<noteq> nullptr \<longrightarrow> kLess lower x) \<and> (upper \<noteq> nullptr \<longrightarrow> kLess x upper))"

definition check_value :: "rtree \<Rightarrow> CheckResult" where
  "check_value t = \<lparr>cr_ok = True, cr_black_height = bh t, cr_count = length (inord t), cr_min = hd (inord t @ [nullptr])\<rparr>"

lemma root_red: "subtree h s p t \<Longrightarrow> \<not> rb_red h s \<Longrightarrow> rb_red h (root_of s t) = is_red t"
  by (cases t) auto

lemma check_spec_Node:
  assumes "transp kLess"
  shows "check_spec kLess s h parent lower upper (Node l a c r) \<longleftrightarrow>
     rb_parent h a = parent \<and> rb_left h a = root_of s l \<and> rb_right h a = root_of s r \<and> rb_red h a = c \<and> rb_linked h a \<and>
     a \<noteq> s \<and> a \<noteq> nullptr \<and> \<not> Tree_IsHeader h a \<and> (lower \<noteq> nullptr \<longrightarrow> kLess lower a) \<and> (upper \<noteq> nullptr \<longrightarrow> kLess a upper) \<and>
     (c \<longrightarrow> \<not> is_red l \<and> \<not> is_red r) \<and> bh l = bh r \<and>
     check_spec kLess s h a lower a l \<and> check_spec kLess s h a a upper r"
  (is "?L \<longleftrightarrow> ?R")
proof
  assume ?L then show ?R by (auto simp: check_spec_def sorted_wrt_append)
next
  assume ?R
  then show ?L
    using assms unfolding check_spec_def sorted_wrt_append inord.simps subtree.simps invc.simps invh.simps
    by (auto dest: transpD)
qed

lemma CheckSubtree_complete:
  assumes "transp kLess" "irreflp kLess" "\<not> rb_red h s" "s \<noteq> nullptr" "parent \<noteq> nullptr"
    and "check_spec kLess s h parent lower upper t"
  shows "CheckSubtree kLess s h (root_of s t) parent lower upper = Some (check_value t)"
  using assms(5,6)
proof (induction t arbitrary: parent lower upper)
  case Leaf
  then show ?case by (subst CheckSubtree.simps) (simp add: check_value_def)
next
  case (Node l a c r)
  have a: "rb_parent h a = parent" "rb_left h a = root_of s l" "rb_right h a = root_of s r" "rb_red h a = c" "rb_linked h a"
    "a \<noteq> s" "a \<noteq> nullptr" "\<not> Tree_IsHeader h a" "lower \<noteq> nullptr \<longrightarrow> kLess lower a" "upper \<noteq> nullptr \<longrightarrow> kLess a upper"
    "c \<longrightarrow> \<not> is_red l \<and> \<not> is_red r" "bh l = bh r" "check_spec kLess s h a lower a l" "check_spec kLess s h a a upper r"
    using Node.prems(2) unfolding check_spec_Node [OF assms(1)] by simp_all
  have sub: "subtree h s a l" "subtree h s a r" "nullptr \<notin> set (inord l)" "nullptr \<notin> set (inord r)"
    using a(13,14) by (simp_all add: check_spec_def)
  have ptr: "root_of s l \<noteq> nullptr" "root_of s r \<noteq> nullptr"
    using sub(3,4) assms(4) root_of_in [of s l] root_of_in [of s r] by (metis insert_iff)+
  have red: "rb_red h (root_of s l) = is_red l" "rb_red h (root_of s r) = is_red r"
    using root_red [OF sub(1) assms(3)] root_red [OF sub(2) assms(3)] by simp_all
  have irr: "\<not> kLess a a" using assms(2) by (simp add: irreflp_def)
  have IH: "CheckSubtree kLess s h (root_of s l) a lower a = Some (check_value l)"
    "CheckSubtree kLess s h (root_of s r) a a upper = Some (check_value r)"
    using Node.IH(1) [OF a(7) a(13)] Node.IH(2) [OF a(7) a(14)] by simp_all
  have guards: "\<not> a = s" "\<not> (a = nullptr \<or> parent = nullptr)" "\<not> (\<not> rb_linked h a \<or> Tree_IsHeader h a)"
    "\<not> rb_parent h a \<noteq> parent" "\<not> (rb_left h a = nullptr \<or> rb_right h a = nullptr)" "\<not> kLess a a"
    "\<not> (lower \<noteq> nullptr \<and> \<not> kLess lower a)" "\<not> (upper \<noteq> nullptr \<and> \<not> kLess a upper)"
    "\<not> (rb_red h a \<and> (rb_red h (rb_left h a) \<or> rb_red h (rb_right h a)))"
    using a(1-11) Node.prems(1) ptr red irr by auto
  note guards = guards [unfolded a(2,3)]
  have "hd (inord l @ a # inord r @ [nullptr]) = (if inord l = [] then a else hd (inord l @ [nullptr]))"
    by (simp add: hd_append)
  then have "check_value (Node l a c r) = \<lparr>cr_ok = True, cr_black_height = bh l + (if \<not> c then 1 else 0),
      cr_count = length (inord l) + length (inord r) + 1, cr_min = (if length (inord l) = 0 then a else hd (inord l @ [nullptr]))\<rparr>"
    by (simp add: check_value_def)
  moreover have "CheckSubtree kLess s h a parent lower upper = Some \<lparr>cr_ok = True, cr_black_height = bh l + (if \<not> c then 1 else 0),
      cr_count = length (inord l) + length (inord r) + 1, cr_min = (if length (inord l) = 0 then a else hd (inord l @ [nullptr]))\<rparr>"
    by (subst CheckSubtree.simps)
      (simp only: guards a(2,3) if_False IH Option.bind.simps, simp add: check_value_def a(4,12))
  ultimately show ?case by simp
qed

lemma fail_else:
  assumes "(if b then Some CheckResult_fail else x) = Some r" "cr_ok r"
  shows "\<not> b" "x = Some r"
  using assms by (auto simp: CheckResult_fail_def split: if_splits)

definition check_right :: "((addr \<Rightarrow> addr \<Rightarrow> bool) \<Rightarrow> addr \<Rightarrow> RBHeap \<Rightarrow> addr \<Rightarrow> addr \<Rightarrow> addr \<Rightarrow> addr \<Rightarrow> CheckResult option) \<Rightarrow>
    (addr \<Rightarrow> addr \<Rightarrow> bool) \<Rightarrow> addr \<Rightarrow> RBHeap \<Rightarrow> addr \<Rightarrow> addr \<Rightarrow> CheckResult \<Rightarrow> CheckResult option" where
  "check_right f kLess s h node upper left =
     (if \<not> cr_ok left then Some CheckResult_fail
      else do {
        right \<leftarrow> f kLess s h (rb_right h node) node node upper;
        if \<not> cr_ok right then Some CheckResult_fail
        else if cr_black_height left \<noteq> cr_black_height right then Some CheckResult_fail
        else Some \<lparr>cr_ok = True,
                   cr_black_height = cr_black_height left + (if \<not> rb_red h node then 1 else 0),
                   cr_count = cr_count left + cr_count right + 1,
                   cr_min = (if cr_count left = 0 then node else cr_min left)\<rparr>
      })"

lemma check_right_ok:
  assumes "check_right f kLess s h node upper L = Some r" "cr_ok r"
  shows "cr_ok L \<and> (\<exists>R. f kLess s h (rb_right h node) node node upper = Some R \<and> cr_ok R \<and>
    cr_black_height L = cr_black_height R \<and>
    r = \<lparr>cr_ok = True, cr_black_height = cr_black_height L + (if \<not> rb_red h node then 1 else 0),
         cr_count = cr_count L + cr_count R + 1, cr_min = (if cr_count L = 0 then node else cr_min L)\<rparr>)"
proof -
  note e = fail_else [OF assms(1) [unfolded check_right_def] assms(2)]
  then obtain R where R: "f kLess s h (rb_right h node) node node upper = Some R"
    "(if \<not> cr_ok R then Some CheckResult_fail
      else if cr_black_height L \<noteq> cr_black_height R then Some CheckResult_fail
      else Some \<lparr>cr_ok = True, cr_black_height = cr_black_height L + (if \<not> rb_red h node then 1 else 0),
         cr_count = cr_count L + cr_count R + 1, cr_min = (if cr_count L = 0 then node else cr_min L)\<rparr>) = Some r"
    by (auto simp: Option.bind_eq_Some_conv)
  note e1 = fail_else [OF R(2) assms(2)]
  note e2 = fail_else [OF e1(2) assms(2)]
  show ?thesis
    using e(1) R(1) e1(1) e2 by auto
qed

definition sound_at :: "(addr \<Rightarrow> addr \<Rightarrow> bool) \<Rightarrow> addr \<Rightarrow> RBHeap \<Rightarrow> addr \<Rightarrow> addr \<Rightarrow> addr \<Rightarrow> addr \<Rightarrow> CheckResult \<Rightarrow> bool" where
  "sound_at kLess s h node parent lower upper r \<longleftrightarrow>
     (cr_ok r \<longrightarrow> transp kLess \<longrightarrow> \<not> rb_red h s \<longrightarrow>
      (\<exists>t. node = root_of s t \<and> check_spec kLess s h parent lower upper t \<and> r = check_value t))"

lemma CheckSubtree_sound:
  assumes "CheckSubtree kLess s h node parent lower upper = Some r"
  shows "sound_at kLess s h node parent lower upper r"
proof (rule CheckSubtree.raw_induct [where P = sound_at, OF _ assms])
  fix f kLess s h node parent lower upper r
  assume IH: "\<And>kLess s h node parent lower upper r. f kLess s h node parent lower upper = Some r \<Longrightarrow> sound_at kLess s h node parent lower upper r"
    and body: "(if node = s then Some \<lparr>cr_ok = True, cr_black_height = 0, cr_count = 0, cr_min = nullptr\<rparr>
        else if node = nullptr \<or> parent = nullptr then Some CheckResult_fail
        else if \<not> rb_linked h node \<or> Tree_IsHeader h node then Some CheckResult_fail
        else if rb_parent h node \<noteq> parent then Some CheckResult_fail
        else if rb_left h node = nullptr \<or> rb_right h node = nullptr then Some CheckResult_fail
        else if kLess node node then Some CheckResult_fail
        else if lower \<noteq> nullptr \<and> \<not> kLess lower node then Some CheckResult_fail
        else if upper \<noteq> nullptr \<and> \<not> kLess node upper then Some CheckResult_fail
        else if rb_red h node \<and> (rb_red h (rb_left h node) \<or> rb_red h (rb_right h node)) then Some CheckResult_fail
        else do {
          left \<leftarrow> f kLess s h (rb_left h node) node lower node;
          if \<not> cr_ok left then Some CheckResult_fail
          else do {
            right \<leftarrow> f kLess s h (rb_right h node) node node upper;
            if \<not> cr_ok right then Some CheckResult_fail
            else if cr_black_height left \<noteq> cr_black_height right then Some CheckResult_fail
            else Some \<lparr>cr_ok = True,
                       cr_black_height = cr_black_height left + (if \<not> rb_red h node then 1 else 0),
                       cr_count = cr_count left + cr_count right + 1,
                       cr_min = (if cr_count left = 0 then node else cr_min left)\<rparr>
          }
        }) = Some r"
  show "sound_at kLess s h node parent lower upper r"
    unfolding sound_at_def
  proof (intro impI)
    assume ok: "cr_ok r" "transp kLess" "\<not> rb_red h s"
    show "\<exists>t. node = root_of s t \<and> check_spec kLess s h parent lower upper t \<and> r = check_value t"
    proof (cases "node = s")
      case True
      then show ?thesis
        using body by (intro exI [of _ Leaf]) (simp add: check_spec_def check_value_def)
    next
      case False
      have right: "(\<lambda>left. if \<not> cr_ok left then Some CheckResult_fail
          else do {
            right \<leftarrow> f kLess s h (rb_right h node) node node upper;
            if \<not> cr_ok right then Some CheckResult_fail
            else if cr_black_height left \<noteq> cr_black_height right then Some CheckResult_fail
            else Some \<lparr>cr_ok = True,
                       cr_black_height = cr_black_height left + (if \<not> rb_red h node then 1 else 0),
                       cr_count = cr_count left + cr_count right + 1,
                       cr_min = (if cr_count left = 0 then node else cr_min left)\<rparr>
          }) = check_right f kLess s h node upper"
        by (rule ext) (simp only: check_right_def)
      note e0 = body [unfolded if_not_P [OF False] right]
      note e1 = fail_else [OF e0 ok(1)]
      note e2 = fail_else [OF e1(2) ok(1)]
      note e3 = fail_else [OF e2(2) ok(1)]
      note e4 = fail_else [OF e3(2) ok(1)]
      note e5 = fail_else [OF e4(2) ok(1)]
      note e6 = fail_else [OF e5(2) ok(1)]
      note e7 = fail_else [OF e6(2) ok(1)]
      note e8 = fail_else [OF e7(2) ok(1)]
      have g: "node \<noteq> nullptr" "rb_linked h node" "\<not> Tree_IsHeader h node" "rb_parent h node = parent"
        "lower \<noteq> nullptr \<longrightarrow> kLess lower node" "upper \<noteq> nullptr \<longrightarrow> kLess node upper"
        "rb_red h node \<longrightarrow> \<not> rb_red h (rb_left h node) \<and> \<not> rb_red h (rb_right h node)"
        using e1(1) e2(1) e3(1) e6(1) e7(1) e8(1) by auto
      obtain L where L: "f kLess s h (rb_left h node) node lower node = Some L" "check_right f kLess s h node upper L = Some r"
        using e8(2) by (auto simp: Option.bind_eq_Some_conv)
      obtain R where R: "cr_ok L" "f kLess s h (rb_right h node) node node upper = Some R" "cr_ok R"
        "cr_black_height L = cr_black_height R"
        and r: "r = \<lparr>cr_ok = True, cr_black_height = cr_black_height L + (if \<not> rb_red h node then 1 else 0),
                     cr_count = cr_count L + cr_count R + 1, cr_min = (if cr_count L = 0 then node else cr_min L)\<rparr>"
        using check_right_ok [OF L(2) ok(1)] by blast
      obtain l where l: "rb_left h node = root_of s l" "check_spec kLess s h node lower node l" "L = check_value l"
        using IH [OF L(1)] R(1) ok(2,3) unfolding sound_at_def by blast
      obtain q where q: "rb_right h node = root_of s q" "check_spec kLess s h node node upper q" "R = check_value q"
        using IH [OF R(2)] R(3) ok(2,3) unfolding sound_at_def by blast
      have red: "rb_red h (root_of s l) = is_red l" "rb_red h (root_of s q) = is_red q"
        using l(2) q(2) ok(3) root_red by (auto simp: check_spec_def)
      have "check_spec kLess s h parent lower upper (Node l node (rb_red h node) q)"
        unfolding check_spec_Node [OF ok(2)]
        using g l q red R(4) False by (simp add: check_value_def)
      moreover have "r = check_value (Node l node (rb_red h node) q)"
        using r l(3) q(3) by (auto simp: check_value_def hd_append)
      ultimately show ?thesis by (intro exI [of _ "Node l node (rb_red h node) q"]) simp
    qed
  qed
qed

lemma sorted_wrt_distinct: "sorted_wrt P xs \<Longrightarrow> (\<And>x. \<not> P x x) \<Longrightarrow> distinct xs"
  by (induction xs) auto

lemma strict_weak_order: "strict_weak k \<Longrightarrow> transp k" "strict_weak k \<Longrightarrow> irreflp k"
  by (auto simp: strict_weak_def transp_def irreflp_def)

lemma subtree_not_header:
  "subtree h s p t \<Longrightarrow> distinct (inord t) \<Longrightarrow> s \<notin> set (inord t) \<Longrightarrow> x \<in> set (inord t) \<Longrightarrow> \<not> Tree_IsHeader h x"
proof (induction t arbitrary: p)
  case (Node l a c r)
  have "root_of s r \<noteq> a" using Node.prems(2,3) root_of_in [of s r] by auto
  then show ?case using Node by (auto simp: Tree_IsHeader_def)
qed simp

lemma Tree_inv_check_spec:
  assumes "Tree_inv kLess t T" and "sorted_wrt kLess (inord T)"
  shows "check_spec kLess (rt_sentinel t) (rt_heap t) (rt_sentinel t) nullptr nullptr T"
  using assms subtree_not_header [of "rt_heap t" "rt_sentinel t" "rt_sentinel t" T]
  by (auto simp: check_spec_def Tree_inv_def zrep_def rb_def)

lemma HeaderOf_member:
  assumes "Tree_inv kLess t T" and "x \<in> set (inord T)"
  shows "Tree_HeaderOf (rt_size t) (rt_heap t) x = rt_sentinel t"
proof -
  obtain C l c r where T: "T = plug C (Node l x c r)"
    using locate [OF assms(2), of "[]"] by auto
  then have "zrep (rt_heap t) UNIV (rt_heap t) (rt_sentinel t) C (Node l x c r)"
    using assms(1) zrep_plug by (simp add: Tree_inv_def)
  then show ?thesis
    using HeaderOf_correct [of "rt_heap t" UNIV "rt_heap t" "rt_sentinel t" C l x c r] T assms(1) by (simp add: Tree_inv_def)
qed

lemma CheckInvariants_complete:
  assumes inv: "Tree_inv kLess t T" and sorted: "sorted_wrt kLess (inord T)" and less: "strict_weak kLess"
  shows "Tree_CheckInvariants kLess t = Some True"
proof (cases T)
  case Leaf
  then show ?thesis
    using inv by (simp add: Tree_CheckInvariants_def Tree_inv_def zrep_def Tree_IsHeader_def Let_def)
next
  case (Node l a c r)
  let ?s = "rt_sentinel t" and ?h = "rt_heap t"
  have mn: "rb_left ?h ?s = hd (inord T)" "hd (inord T) \<in> set (inord T)" "a \<in> set (inord T)"
    using inv Node by (auto simp: Tree_inv_def hd_append)
  have z: "rb_parent ?h ?s = a" "\<not> rb_red ?h ?s" "\<not> rb_linked ?h ?s" "Tree_IsHeader ?h ?s" "?s \<noteq> nullptr"
    "rb_parent ?h a = ?s" "\<not> rb_red ?h a" "rt_size t = length (inord T)" "?s \<notin> set (inord T)" "nullptr \<notin> set (inord T)"
    using inv Node by (auto simp: Tree_inv_def zrep_def rb_def Tree_IsHeader_def)
  have chk: "CheckSubtree kLess ?s ?h a ?s nullptr nullptr = Some (check_value T)"
    using CheckSubtree_complete [OF strict_weak_order(1,2) [OF less] z(2,5,5) Tree_inv_check_spec [OF inv sorted]] Node by simp
  have ne: "a \<noteq> ?s" "a \<noteq> nullptr" "hd (inord T) \<noteq> ?s" "hd (inord T) \<noteq> nullptr" "length (inord T) \<noteq> 0"
    using mn z(9,10) by (metis list.size(3) length_0_conv empty_iff list.set(1))+
  have hdr: "Tree_HeaderOf (rt_size t) ?h a = ?s" "Tree_HeaderOf (rt_size t) ?h (hd (inord T)) = ?s"
    using HeaderOf_member [OF inv] mn by simp_all
  show ?thesis
    using z(1-8) ne hdr chk mn(1) mn(2)
    by (simp add: Tree_CheckInvariants_def Let_def check_value_def hd_append)
qed

lemma CheckInvariants_sound:
  assumes chk: "Tree_CheckInvariants kLess t = Some True" and less: "strict_weak kLess"
  shows "\<exists>T. Tree_inv kLess t T \<and> sorted_wrt kLess (inord T)"
proof -
  let ?s = "rt_sentinel t" and ?h = "rt_heap t"
  have hdr: "\<not> rb_red ?h ?s" "\<not> rb_linked ?h ?s" "rb_right ?h ?s = ?s" "?s \<noteq> nullptr"
    using chk by (auto simp: Tree_CheckInvariants_def Let_def Tree_IsHeader_def split: if_splits)
  show ?thesis
  proof (cases "rb_parent ?h ?s = ?s")
    case True
    then have "rt_size t = 0" "rb_left ?h ?s = ?s"
      using chk by (auto simp: Tree_CheckInvariants_def Let_def split: if_splits)
    then have "Tree_inv kLess t Leaf"
      using hdr True by (simp add: Tree_inv_def zrep_def rb_def same_node_def)
    then show ?thesis by (intro exI [of _ Leaf]) simp
  next
    case False
    then obtain r where r: "CheckSubtree kLess ?s ?h (rb_parent ?h ?s) ?s nullptr nullptr = Some r" "cr_ok r"
      "cr_count r = rt_size t" "cr_min r = rb_left ?h ?s" "rt_size t \<noteq> 0" "\<not> rb_red ?h (rb_parent ?h ?s)"
      using chk by (auto simp: Tree_CheckInvariants_def Let_def Option.bind_eq_Some_conv split: if_splits)
    then obtain T where T: "rb_parent ?h ?s = root_of ?s T" "check_spec kLess ?s ?h ?s nullptr nullptr T" "r = check_value T"
      using CheckSubtree_sound [OF r(1)] strict_weak_order(1) [OF less] hdr(1) unfolding sound_at_def by blast
    have sorted: "sorted_wrt kLess (inord T)"
      using T(2) by (simp add: check_spec_def)
    have "distinct (inord T)"
      using sorted less by (intro sorted_wrt_distinct) (auto simp: strict_weak_def)
    moreover have "sorted_wrt (\<lambda>a b. \<not> kLess b a) (inord T)"
      using sorted by (rule sorted_wrt_mono_rel [rotated]) (use less in \<open>auto simp: strict_weak_def\<close>)
    moreover have ne: "inord T \<noteq> []"
      using r(3,5) T(3) by (auto simp: check_value_def)
    moreover have "length (inord T) = rt_size t" "hd (inord T) = rb_left ?h ?s"
      using r(3,4) T(3) ne by (simp_all add: check_value_def)
    moreover have "\<not> is_red T"
      using r(6) T(1,2) root_red [of ?h ?s ?s T] hdr(1) by (simp add: check_spec_def)
    ultimately have "Tree_inv kLess t T"
      using T(1,2) hdr by (simp add: Tree_inv_def check_spec_def zrep_def rb_def same_node_def hd_append)
    then show ?thesis using sorted by blast
  qed
qed

end
