(* ===== verification/RBTree_Spec.thy ===== *)
theory RBTree_Spec
  imports RBTree_Clear
begin

text \<open>
  What \<^verbatim>\<open>detail/intrusive_rbtree.h\<close> promises, over the in-order sequence of the linked elements: the
  tagged parent word holds three independent fields, \<^verbatim>\<open>Insert\<close> puts an element behind the ones that
  are not greater, \<^verbatim>\<open>Erase\<close> removes it, \<^verbatim>\<open>ExtractPrefix\<close> pops the leading elements that satisfy the
  predicate, \<^verbatim>\<open>Clear\<close> ends and resets every hook, and \<^verbatim>\<open>CheckInvariants\<close> accepts exactly the sound
  trees. Each result also says that the hooks of all other objects are untouched.
\<close>

unbundle bit_operations_syntax

section \<open>The tagged word\<close>

lemma flag_bits: "bit kRed n \<longleftrightarrow> n = 0" "bit kLinked n \<longleftrightarrow> n = 1" "bit kFlagMask n \<longleftrightarrow> n < 3"
proof -
  show red: "bit kRed n \<longleftrightarrow> n = 0" by (simp add: kRed_def bit_1_iff)
  show linked: "bit kLinked n \<longleftrightarrow> n = 1" using bit_2_iff [where 'a = u64, of n] by (auto simp: kLinked_def)
  have "kReserved = 2 ^ 2" by (simp add: kReserved_def)
  then have "bit kReserved n \<longleftrightarrow> n = 2" using bit_exp_iff [where 'a = u64, of 2 n] by auto
  then show "bit kFlagMask n \<longleftrightarrow> n < 3" using red linked by (auto simp: kFlagMask_def bit_or_iff)
qed

lemmas word_bits = bit_eq_iff [where 'a = u64] flag_bits bit_and_iff bit_or_iff bit_not_iff

lemma word_red_bit: "word_red w \<longleftrightarrow> bit w 0"
  and word_linked_bit: "word_linked w \<longleftrightarrow> bit w 1"
  by (auto simp: word_red_def word_linked_def word_bits)

lemma aligned_bits: "raw AND kFlagMask = 0 \<longleftrightarrow> (\<forall>n < 3. \<not> bit raw n)"
proof
  assume aligned: "raw AND kFlagMask = 0"
  show "\<forall>n < 3. \<not> bit raw n"
  proof (intro allI impI)
    fix n :: nat assume "n < 3"
    moreover have "\<not> bit (raw AND kFlagMask) n" using aligned by simp
    ultimately show "\<not> bit raw n" by (simp add: bit_and_iff flag_bits)
  qed
qed (auto simp: word_bits)

lemma word_set_parent_aligned:
  assumes "raw AND kFlagMask = 0"
  shows "word_parent (raw OR (w AND kFlagMask)) = raw" "word_red (raw OR (w AND kFlagMask)) = word_red w"
    "word_linked (raw OR (w AND kFlagMask)) = word_linked w"
  using assms unfolding aligned_bits
  by (auto simp: word_parent_def word_red_bit word_linked_bit word_bits dest: bit_imp_le_length)

text \<open>
  C34. The colour, the linked flag and the parent address share one 64-bit word. Storing an aligned
  parent succeeds and reads back, storing one field leaves the other two as they were, and an
  unaligned parent is refused by the assertion.
\<close>

theorem rb_word_roundtrip:
  "(if raw AND kFlagMask = 0
    then \<exists>w'. word_set_parent raw w = Some w' \<and> word_parent w' = raw \<and> word_red w' = word_red w \<and> word_linked w' = word_linked w
    else word_set_parent raw w = None) \<and>
   word_red (word_set_red red w) = red \<and> word_parent (word_set_red red w) = word_parent w \<and>
   word_linked (word_set_red red w) = word_linked w \<and>
   word_linked (word_set_linked linked w) = linked \<and> word_parent (word_set_linked linked w) = word_parent w \<and>
   word_red (word_set_linked linked w) = word_red w"
proof (intro conjI)
  show "if raw AND kFlagMask = 0
    then \<exists>w'. word_set_parent raw w = Some w' \<and> word_parent w' = raw \<and> word_red w' = word_red w \<and> word_linked w' = word_linked w
    else word_set_parent raw w = None"
    using word_set_parent_aligned [of raw w] by (simp add: word_set_parent_def)
qed (auto simp: word_set_red_def word_set_linked_def word_parent_def word_red_bit word_linked_bit word_bits)

section \<open>The container\<close>

text \<open>
  C1. \<^verbatim>\<open>Insert\<close> of an unlinked element into a sound tree returns true, ends within the assertions, and
  gives a sound red-black tree whose elements are the old ones with the new one placed behind every
  element that is not greater; no hook outside of the tree changes.
\<close>

theorem rbtree_insert:
  assumes "strict_weak kLess" and "Tree_inv kLess t T" and "e \<noteq> nullptr" "e \<noteq> rt_sentinel t" "clean_hook (rt_heap t) e"
  shows "\<exists>t' T'. Tree_Insert kLess e t = Some (True, t') \<and> Tree_inv kLess t' T' \<and>
           inord T' = insert_after kLess e (inord T) \<and> rt_sentinel t' = rt_sentinel t \<and>
           (\<forall>x. x \<notin> insert e (insert (rt_sentinel t) (set (inord T))) \<longrightarrow> same_node (rt_heap t) (rt_heap t') x)"
  by (rule Tree_Insert_correct [OF assms])

definition empty_heap :: RBHeap where
  "empty_heap = \<lparr>rb_parent = (\<lambda>_. nullptr), rb_left = (\<lambda>_. nullptr), rb_right = (\<lambda>_. nullptr),
                 rb_red = (\<lambda>_. False), rb_linked = (\<lambda>_. False)\<rparr>"

definition addr_less :: "addr \<Rightarrow> addr \<Rightarrow> bool" where
  "addr_less a b \<longleftrightarrow> a < b"

lemma addr_less_weak: "strict_weak addr_less"
  by (auto simp: strict_weak_def addr_less_def)

lemma empty_heap_clean: "x \<noteq> 1 \<Longrightarrow> clean_hook (rt_heap (Tree_init 1 empty_heap)) x"
  by (simp add: clean_hook_def Tree_init_def empty_heap_def)

lemma init_inv: "Tree_inv addr_less (Tree_init 1 empty_heap) Leaf"
  by (rule Tree_init_inv) (simp_all add: empty_heap_def)

lemma init_sentinel: "rt_sentinel (Tree_init 1 empty_heap) = 1"
  by (simp add: Tree_init_def)

theorem rbtree_insert_witness:
  "strict_weak addr_less \<and> Tree_inv addr_less (Tree_init 1 empty_heap) Leaf \<and> clean_hook (rt_heap (Tree_init 1 empty_heap)) 7 \<and>
   (\<exists>t' T'. Tree_Insert addr_less 7 (Tree_init 1 empty_heap) = Some (True, t') \<and> Tree_inv addr_less t' T' \<and> inord T' = [7])"
  using rbtree_insert [OF addr_less_weak init_inv, of 7] addr_less_weak init_inv empty_heap_clean [of 7] init_sentinel
  by (auto simp: insert_after_def)

lemma one_element:
  obtains t T where "Tree_Insert addr_less 7 (Tree_init 1 empty_heap) = Some (True, t)" "Tree_inv addr_less t T" "inord T = [7]"
  using Tree_Insert_correct [OF addr_less_weak init_inv, of 7] empty_heap_clean [of 7] init_sentinel
  by (auto simp: insert_after_def)

text \<open>
  C2. \<^verbatim>\<open>Erase\<close> of a linked element returns true and gives a sound tree over the remaining elements in
  their order; the hook of the erased element is reset and no hook outside of the tree changes.
\<close>

theorem rbtree_erase:
  assumes "Tree_inv kLess t T" and "e \<in> set (inord T)"
  shows "\<exists>t' T'. Tree_Erase e t = Some (True, t') \<and> Tree_inv kLess t' T' \<and> inord T' = remove1 e (inord T) \<and>
           rt_sentinel t' = rt_sentinel t \<and> clean_hook (rt_heap t') e \<and>
           (\<forall>x. x \<notin> insert (rt_sentinel t) (set (inord T)) \<longrightarrow> same_node (rt_heap t) (rt_heap t') x)"
  by (rule Tree_Erase_correct [OF assms])

theorem rbtree_erase_witness:
  "\<exists>t T. Tree_Insert addr_less 7 (Tree_init 1 empty_heap) = Some (True, t) \<and> Tree_inv addr_less t T \<and> 7 \<in> set (inord T) \<and>
     (\<exists>t' T'. Tree_Erase 7 t = Some (True, t') \<and> Tree_inv addr_less t' T' \<and> inord T' = [])"
proof -
  obtain t T where t: "Tree_Insert addr_less 7 (Tree_init 1 empty_heap) = Some (True, t)" "Tree_inv addr_less t T" "inord T = [7]"
    by (rule one_element)
  then show ?thesis using rbtree_erase [OF t(2), of 7] by (intro exI [of _ t] exI [of _ T]) auto
qed

text \<open>
  C33. \<^verbatim>\<open>ExtractPrefix\<close> pops exactly the leading elements that satisfy the predicate, calls
  \<^verbatim>\<open>on_pop\<close> on them in order, returns their number and leaves a sound tree over the rest; every popped
  hook is reset before the call returns.
\<close>

theorem rbtree_extract_prefix:
  assumes "Tree_inv kLess t T"
  shows "(\<exists>t' T'. Tree_ExtractPrefixImpl pred on_pop c t =
             Some (length (takeWhile pred (inord T)), fold on_pop (takeWhile pred (inord T)) c, t') \<and>
           Tree_inv kLess t' T' \<and> inord T' = dropWhile pred (inord T) \<and>
           (\<forall>x\<in>set (takeWhile pred (inord T)). clean_hook (rt_heap t') x)) \<and>
         (\<exists>t' T'. Tree_PopWhile pred t = Some (takeWhile pred (inord T), t') \<and>
           Tree_inv kLess t' T' \<and> inord T' = dropWhile pred (inord T))"
proof (intro conjI)
  show "\<exists>t' T'. Tree_ExtractPrefixImpl pred on_pop c t =
             Some (length (takeWhile pred (inord T)), fold on_pop (takeWhile pred (inord T)) c, t') \<and>
           Tree_inv kLess t' T' \<and> inord T' = dropWhile pred (inord T) \<and>
           (\<forall>x\<in>set (takeWhile pred (inord T)). clean_hook (rt_heap t') x)"
    using ExtractPrefix_loop_correct [OF assms, of pred on_pop 0 c] by (auto simp: Tree_ExtractPrefixImpl_def)
next
  have snoc: "fold (\<lambda>elem result. result @ [elem]) xs ys = ys @ xs" for xs ys :: "addr list"
    by (induction xs arbitrary: ys) simp_all
  show "\<exists>t' T'. Tree_PopWhile pred t = Some (takeWhile pred (inord T), t') \<and>
           Tree_inv kLess t' T' \<and> inord T' = dropWhile pred (inord T)"
    using ExtractPrefix_loop_correct [OF assms, of pred "\<lambda>elem result. result @ [elem]" 0 "[]"]
    by (auto simp: Tree_PopWhile_def Tree_ExtractPrefix_def Tree_ExtractPrefixImpl_def snoc)
qed

theorem rbtree_extract_prefix_witness:
  "\<exists>t T. Tree_Insert addr_less 7 (Tree_init 1 empty_heap) = Some (True, t) \<and> Tree_inv addr_less t T \<and>
     (\<exists>t'. Tree_ExtractPrefixImpl (\<lambda>x. x \<le> 9) (\<lambda>x c. c @ [x]) [] t = Some (1, [7], t') \<and> clean_hook (rt_heap t') 7)"
proof -
  obtain t T where t: "Tree_Insert addr_less 7 (Tree_init 1 empty_heap) = Some (True, t)" "Tree_inv addr_less t T" "inord T = [7]"
    by (rule one_element)
  then show ?thesis
    using rbtree_extract_prefix [OF t(2), of "\<lambda>x. x \<le> 9" "\<lambda>x c. c @ [x]" "[]"]
    by (intro exI [of _ t] exI [of _ T]) auto
qed

text \<open>
  C17. \<^verbatim>\<open>Clear\<close> ends on every sound tree, although it walks without recursion while it cuts the links it
  walks on: it returns the empty tree, with the hook of every former element reset and all other
  hooks untouched.
\<close>

theorem rbtree_clear_terminates:
  assumes "Tree_inv kLess t T"
  shows "\<exists>t'. Tree_Clear t = Some t' \<and> Tree_inv kLess t' Leaf \<and> rt_sentinel t' = rt_sentinel t \<and>
           (\<forall>x\<in>set (inord T). clean_hook (rt_heap t') x) \<and>
           (\<forall>x. x \<notin> insert (rt_sentinel t) (set (inord T)) \<longrightarrow> same_node (rt_heap t) (rt_heap t') x)"
  by (rule Tree_Clear_correct [OF assms])

theorem rbtree_clear_terminates_witness:
  "\<exists>t T. Tree_Insert addr_less 7 (Tree_init 1 empty_heap) = Some (True, t) \<and> Tree_inv addr_less t T \<and>
     (\<exists>t'. Tree_Clear t = Some t' \<and> Tree_inv addr_less t' Leaf \<and> clean_hook (rt_heap t') 7)"
proof -
  obtain t T where t: "Tree_Insert addr_less 7 (Tree_init 1 empty_heap) = Some (True, t)" "Tree_inv addr_less t T" "inord T = [7]"
    by (rule one_element)
  then show ?thesis
    using rbtree_clear_terminates [OF t(2)] by (intro exI [of _ t] exI [of _ T]) auto
qed

text \<open>
  C16. \<^verbatim>\<open>CheckInvariants\<close> answers true exactly when the links form a red-black tree below the sentinel
  with the right size and cached minimum, and its elements are strictly increasing. A tree that holds
  two equal elements, which \<^verbatim>\<open>Insert\<close> accepts, is therefore rejected.
\<close>

theorem rbtree_self_check:
  assumes "strict_weak kLess"
  shows "Tree_CheckInvariants kLess t = Some True \<longleftrightarrow> (\<exists>T. Tree_inv kLess t T \<and> sorted_wrt kLess (inord T))"
  using CheckInvariants_sound [OF _ assms] CheckInvariants_complete [OF _ _ assms] by blast

theorem rbtree_self_check_witness:
  "strict_weak addr_less \<and> Tree_CheckInvariants addr_less (Tree_init 1 empty_heap) = Some True"
  using rbtree_self_check [OF addr_less_weak, of "Tree_init 1 empty_heap"] init_inv addr_less_weak by fastforce

end
