(* ===== verification/Lifecycle.thy ===== *)
theory Lifecycle
  imports Alyrn_Prelude
begin

text \<open>
  The completion lifecycles of \<^verbatim>\<open>include/alyrn/detail\<close>: the one-bit \<^verbatim>\<open>CompletionGate\<close>, and the
  three protocols that order result, release and continuation of an operation
  (\<^verbatim>\<open>SingleResultLifecycle\<close>, \<^verbatim>\<open>SplitReleaseLifecycle\<close>, \<^verbatim>\<open>CompositeLifecycle\<close>). The locale
  \<open>authorization_protocol\<close> states their common contract once: a milestone is granted exactly
  when its prerequisites were granted and it was not granted before. Every lifecycle is an
  interpretation of it.
\<close>

section \<open>CompletionGate\<close>

record CompletionGate =
  completed :: bool

definition CompletionGate_init :: CompletionGate where
  "CompletionGate_init = \<lparr>completed = False\<rparr>"

definition CompletionGate_Reset :: "CompletionGate \<Rightarrow> CompletionGate" where
  "CompletionGate_Reset g = g\<lparr>completed := False\<rparr>"

definition CompletionGate_TryComplete :: "CompletionGate \<Rightarrow> bool \<times> CompletionGate" where
  "CompletionGate_TryComplete g =
     (if completed g then (False, g) else (True, g\<lparr>completed := True\<rparr>))"

definition CompletionGate_Completed :: "CompletionGate \<Rightarrow> bool" where
  "CompletionGate_Completed g = completed g"

lemmas CompletionGate_defs =
  CompletionGate_init_def CompletionGate_Reset_def CompletionGate_TryComplete_def
  CompletionGate_Completed_def

section \<open>SingleResultLifecycle\<close>

datatype SingleResultState =
  SR_Pending | SR_ResultReady | SR_ReleaseAuthorized | SR_ContinuationAuthorized

record SingleResultLifecycle =
  sr_state :: SingleResultState

definition SingleResult_init :: SingleResultLifecycle where
  "SingleResult_init = \<lparr>sr_state = SR_Pending\<rparr>"

definition SingleResult_Reset :: "SingleResultLifecycle \<Rightarrow> SingleResultLifecycle" where
  "SingleResult_Reset l = l\<lparr>sr_state := SR_Pending\<rparr>"

definition SingleResult_TryAuthorizeResult ::
    "SingleResultLifecycle \<Rightarrow> bool \<times> SingleResultLifecycle" where
  "SingleResult_TryAuthorizeResult l =
     (if sr_state l \<noteq> SR_Pending then (False, l)
      else (True, l\<lparr>sr_state := SR_ResultReady\<rparr>))"

definition SingleResult_TryAuthorizeRelease ::
    "SingleResultLifecycle \<Rightarrow> bool \<times> SingleResultLifecycle" where
  "SingleResult_TryAuthorizeRelease l =
     (if sr_state l \<noteq> SR_ResultReady then (False, l)
      else (True, l\<lparr>sr_state := SR_ReleaseAuthorized\<rparr>))"

definition SingleResult_TryAuthorizeContinuation ::
    "SingleResultLifecycle \<Rightarrow> bool \<times> SingleResultLifecycle" where
  "SingleResult_TryAuthorizeContinuation l =
     (if sr_state l \<noteq> SR_ReleaseAuthorized then (False, l)
      else (True, l\<lparr>sr_state := SR_ContinuationAuthorized\<rparr>))"

definition SingleResult_ResultReady :: "SingleResultLifecycle \<Rightarrow> bool" where
  "SingleResult_ResultReady l \<longleftrightarrow> sr_state l \<noteq> SR_Pending"

definition SingleResult_ReleaseAuthorized :: "SingleResultLifecycle \<Rightarrow> bool" where
  "SingleResult_ReleaseAuthorized l \<longleftrightarrow>
     sr_state l = SR_ReleaseAuthorized \<or> sr_state l = SR_ContinuationAuthorized"

definition SingleResult_ContinuationAuthorized :: "SingleResultLifecycle \<Rightarrow> bool" where
  "SingleResult_ContinuationAuthorized l \<longleftrightarrow> sr_state l = SR_ContinuationAuthorized"

lemmas SingleResult_defs =
  SingleResult_init_def SingleResult_Reset_def SingleResult_TryAuthorizeResult_def
  SingleResult_TryAuthorizeRelease_def SingleResult_TryAuthorizeContinuation_def
  SingleResult_ResultReady_def SingleResult_ReleaseAuthorized_def
  SingleResult_ContinuationAuthorized_def

section \<open>SplitReleaseLifecycle\<close>

record SplitReleaseLifecycle =
  spl_logical_result :: CompletionGate
  spl_release_authorized :: CompletionGate
  spl_continuation_authorized :: CompletionGate
  spl_physical_terminal :: bool

definition SplitRelease_init :: SplitReleaseLifecycle where
  "SplitRelease_init =
     \<lparr>spl_logical_result = CompletionGate_init, spl_release_authorized = CompletionGate_init,
      spl_continuation_authorized = CompletionGate_init, spl_physical_terminal = False\<rparr>"

definition SplitRelease_RecordLogicalResult ::
    "SplitReleaseLifecycle \<Rightarrow> bool \<times> SplitReleaseLifecycle" where
  "SplitRelease_RecordLogicalResult l =
     (let (ok, g) = CompletionGate_TryComplete (spl_logical_result l)
      in (ok, l\<lparr>spl_logical_result := g\<rparr>))"

definition SplitRelease_MarkPhysicalTerminal ::
    "SplitReleaseLifecycle \<Rightarrow> bool \<times> SplitReleaseLifecycle" where
  "SplitRelease_MarkPhysicalTerminal l =
     (if spl_physical_terminal l then (False, l)
      else (True, l\<lparr>spl_physical_terminal := True\<rparr>))"

definition SplitRelease_TryAuthorizeRelease ::
    "SplitReleaseLifecycle \<Rightarrow> bool \<times> SplitReleaseLifecycle" where
  "SplitRelease_TryAuthorizeRelease l =
     (if \<not> CompletionGate_Completed (spl_logical_result l) \<or> \<not> spl_physical_terminal l
      then (False, l)
      else let (ok, g) = CompletionGate_TryComplete (spl_release_authorized l)
           in (ok, l\<lparr>spl_release_authorized := g\<rparr>))"

definition SplitRelease_TryAuthorizeContinuation ::
    "SplitReleaseLifecycle \<Rightarrow> bool \<times> SplitReleaseLifecycle" where
  "SplitRelease_TryAuthorizeContinuation l =
     (if \<not> CompletionGate_Completed (spl_release_authorized l) then (False, l)
      else let (ok, g) = CompletionGate_TryComplete (spl_continuation_authorized l)
           in (ok, l\<lparr>spl_continuation_authorized := g\<rparr>))"

definition SplitRelease_LogicalResultReady :: "SplitReleaseLifecycle \<Rightarrow> bool" where
  "SplitRelease_LogicalResultReady l = CompletionGate_Completed (spl_logical_result l)"

definition SplitRelease_PhysicalTerminal :: "SplitReleaseLifecycle \<Rightarrow> bool" where
  "SplitRelease_PhysicalTerminal l = spl_physical_terminal l"

definition SplitRelease_ReleaseAuthorized :: "SplitReleaseLifecycle \<Rightarrow> bool" where
  "SplitRelease_ReleaseAuthorized l = CompletionGate_Completed (spl_release_authorized l)"

definition SplitRelease_ContinuationAuthorized :: "SplitReleaseLifecycle \<Rightarrow> bool" where
  "SplitRelease_ContinuationAuthorized l =
     CompletionGate_Completed (spl_continuation_authorized l)"

lemmas SplitRelease_defs =
  SplitRelease_init_def SplitRelease_RecordLogicalResult_def
  SplitRelease_MarkPhysicalTerminal_def SplitRelease_TryAuthorizeRelease_def
  SplitRelease_TryAuthorizeContinuation_def SplitRelease_LogicalResultReady_def
  SplitRelease_PhysicalTerminal_def SplitRelease_ReleaseAuthorized_def
  SplitRelease_ContinuationAuthorized_def

section \<open>CompositeLifecycle\<close>

datatype CompositeMember = CM_First | CM_Second

record CompositeLifecycle =
  cmp_first_member :: CompletionGate
  cmp_second_member :: CompletionGate
  cmp_logical_result :: CompletionGate
  cmp_release_authorized :: CompletionGate
  cmp_continuation_authorized :: CompletionGate

definition Composite_init :: CompositeLifecycle where
  "Composite_init =
     \<lparr>cmp_first_member = CompletionGate_init, cmp_second_member = CompletionGate_init,
      cmp_logical_result = CompletionGate_init, cmp_release_authorized = CompletionGate_init,
      cmp_continuation_authorized = CompletionGate_init\<rparr>"

definition Composite_GateFor :: "CompositeMember \<Rightarrow> CompositeLifecycle \<Rightarrow> CompletionGate" where
  "Composite_GateFor m l = (if m = CM_First then cmp_first_member l else cmp_second_member l)"

definition Composite_RecordMemberCompletion ::
    "CompositeMember \<Rightarrow> CompositeLifecycle \<Rightarrow> bool \<times> CompositeLifecycle" where
  "Composite_RecordMemberCompletion m l =
     (let (ok, g) = CompletionGate_TryComplete (Composite_GateFor m l)
      in (ok, if m = CM_First then l\<lparr>cmp_first_member := g\<rparr> else l\<lparr>cmp_second_member := g\<rparr>))"

definition Composite_MemberCompleted :: "CompositeMember \<Rightarrow> CompositeLifecycle \<Rightarrow> bool" where
  "Composite_MemberCompleted m l = CompletionGate_Completed (Composite_GateFor m l)"

definition Composite_AllMembersCompleted :: "CompositeLifecycle \<Rightarrow> bool" where
  "Composite_AllMembersCompleted l \<longleftrightarrow>
     CompletionGate_Completed (cmp_first_member l) \<and>
     CompletionGate_Completed (cmp_second_member l)"

definition Composite_TryAuthorizeLogicalResult ::
    "CompositeLifecycle \<Rightarrow> bool \<times> CompositeLifecycle" where
  "Composite_TryAuthorizeLogicalResult l =
     (if \<not> Composite_AllMembersCompleted l then (False, l)
      else let (ok, g) = CompletionGate_TryComplete (cmp_logical_result l)
           in (ok, l\<lparr>cmp_logical_result := g\<rparr>))"

definition Composite_TryAuthorizeRelease ::
    "CompositeLifecycle \<Rightarrow> bool \<times> CompositeLifecycle" where
  "Composite_TryAuthorizeRelease l =
     (if \<not> CompletionGate_Completed (cmp_logical_result l) then (False, l)
      else let (ok, g) = CompletionGate_TryComplete (cmp_release_authorized l)
           in (ok, l\<lparr>cmp_release_authorized := g\<rparr>))"

definition Composite_TryAuthorizeContinuation ::
    "CompositeLifecycle \<Rightarrow> bool \<times> CompositeLifecycle" where
  "Composite_TryAuthorizeContinuation l =
     (if \<not> CompletionGate_Completed (cmp_release_authorized l) then (False, l)
      else let (ok, g) = CompletionGate_TryComplete (cmp_continuation_authorized l)
           in (ok, l\<lparr>cmp_continuation_authorized := g\<rparr>))"

definition Composite_LogicalResultAuthorized :: "CompositeLifecycle \<Rightarrow> bool" where
  "Composite_LogicalResultAuthorized l = CompletionGate_Completed (cmp_logical_result l)"

definition Composite_ReleaseAuthorized :: "CompositeLifecycle \<Rightarrow> bool" where
  "Composite_ReleaseAuthorized l = CompletionGate_Completed (cmp_release_authorized l)"

definition Composite_ContinuationAuthorized :: "CompositeLifecycle \<Rightarrow> bool" where
  "Composite_ContinuationAuthorized l =
     CompletionGate_Completed (cmp_continuation_authorized l)"

lemmas Composite_defs =
  Composite_init_def Composite_GateFor_def Composite_RecordMemberCompletion_def
  Composite_MemberCompleted_def Composite_AllMembersCompleted_def
  Composite_TryAuthorizeLogicalResult_def Composite_TryAuthorizeRelease_def
  Composite_TryAuthorizeContinuation_def Composite_LogicalResultAuthorized_def
  Composite_ReleaseAuthorized_def Composite_ContinuationAuthorized_def

section \<open>Operations as data\<close>

text \<open>Every lifecycle is driven by its adapter through the operations below.\<close>

datatype SingleResultOp = SR_Result | SR_Release | SR_Continuation

fun SingleResult_step ::
    "SingleResultOp \<Rightarrow> SingleResultLifecycle \<Rightarrow> bool \<times> SingleResultLifecycle" where
  "SingleResult_step SR_Result l = SingleResult_TryAuthorizeResult l"
| "SingleResult_step SR_Release l = SingleResult_TryAuthorizeRelease l"
| "SingleResult_step SR_Continuation l = SingleResult_TryAuthorizeContinuation l"

datatype SplitReleaseOp = SPL_Logical | SPL_Physical | SPL_Release | SPL_Continuation

fun SplitRelease_step ::
    "SplitReleaseOp \<Rightarrow> SplitReleaseLifecycle \<Rightarrow> bool \<times> SplitReleaseLifecycle" where
  "SplitRelease_step SPL_Logical l = SplitRelease_RecordLogicalResult l"
| "SplitRelease_step SPL_Physical l = SplitRelease_MarkPhysicalTerminal l"
| "SplitRelease_step SPL_Release l = SplitRelease_TryAuthorizeRelease l"
| "SplitRelease_step SPL_Continuation l = SplitRelease_TryAuthorizeContinuation l"

datatype CompositeOp = CMP_Member CompositeMember | CMP_Logical | CMP_Release | CMP_Continuation

fun Composite_step :: "CompositeOp \<Rightarrow> CompositeLifecycle \<Rightarrow> bool \<times> CompositeLifecycle" where
  "Composite_step (CMP_Member m) l = Composite_RecordMemberCompletion m l"
| "Composite_step CMP_Logical l = Composite_TryAuthorizeLogicalResult l"
| "Composite_step CMP_Release l = Composite_TryAuthorizeRelease l"
| "Composite_step CMP_Continuation l = Composite_TryAuthorizeContinuation l"

section \<open>The common contract\<close>

text \<open>
  \<open>granted s\<close> is the set of milestones reached in \<open>s\<close> and \<open>needs a\<close> the milestones that must
  come before \<open>a\<close>.
\<close>

locale authorization_protocol =
  fixes step :: "'op \<Rightarrow> 's \<Rightarrow> bool \<times> 's"
    and granted :: "'s \<Rightarrow> 'op set"
    and needs :: "'op \<Rightarrow> 'op set"
    and initial :: 's
  assumes step_grants: "fst (step a s) \<longleftrightarrow> a \<notin> granted s \<and> needs a \<subseteq> granted s"
    and step_records: "granted (snd (step a s)) =
      (if fst (step a s) then insert a (granted s) else granted s)"
    and initial_clear: "granted initial = {}"
begin

lemma granted_exec:
  "granted (exec step as s) = granted s \<union> {a. (a, True) \<in> set (outputs step as s)}"
proof (induction as arbitrary: s)
  case (Cons a as)
  then show ?case by (auto simp: step_records)
qed simp

lemma granted_mono: "granted s \<subseteq> granted (exec step as s)"
  by (simp add: granted_exec)

lemma granted_from_initial:
  "granted (exec step as initial) = {a. (a, True) \<in> set (outputs step as initial)}"
  by (simp add: granted_exec initial_clear)

lemma never_again:
  "a \<in> granted s \<Longrightarrow> count_list (outputs step as s) (a, True) = 0"
proof (induction as arbitrary: s)
  case (Cons b as)
  have "a \<in> granted (snd (step b s))"
    using Cons.prems by (simp add: step_records)
  moreover have "\<not> (b = a \<and> fst (step b s))"
    using Cons.prems by (auto simp: step_grants)
  ultimately show ?case using Cons.IH by auto
qed simp

lemma at_most_once: "count_list (outputs step as s) (a, True) \<le> 1"
proof (induction as arbitrary: s)
  case (Cons b as)
  show ?case
  proof (cases "(b, fst (step b s)) = (a, True)")
    case True
    then have "a \<in> granted (snd (step b s))"
      by (auto simp: step_records)
    with True show ?thesis by (simp add: never_again)
  next
    case False
    then show ?thesis using Cons.IH by auto
  qed
qed simp

text \<open>Every prerequisite of a granted milestone was granted at an earlier position.\<close>

lemma needs_earlier:
  assumes "i < length as" and "outputs step as initial ! i = (a, True)" and "b \<in> needs a"
  shows "\<exists>j<i. outputs step as initial ! j = (b, True)"
proof -
  let ?s = "exec step (take i as) initial"
  have "b \<in> granted ?s"
    using assms by (auto simp: nth_outputs step_grants)
  then have "(b, True) \<in> set (take i (outputs step as initial))"
    by (simp add: granted_from_initial take_outputs)
  then show ?thesis
    using assms(1) by (auto simp: in_set_conv_nth)
qed

text \<open>A milestone whose prerequisites are met is granted on the first request.\<close>

lemma request_grants:
  assumes "needs a \<subseteq> granted s"
  shows "a \<in> granted (snd (step a s))"
  using assms by (auto simp: step_records step_grants)

end

fun SingleResult_granted :: "SingleResultState \<Rightarrow> SingleResultOp set" where
  "SingleResult_granted SR_Pending = {}"
| "SingleResult_granted SR_ResultReady = {SR_Result}"
| "SingleResult_granted SR_ReleaseAuthorized = {SR_Result, SR_Release}"
| "SingleResult_granted SR_ContinuationAuthorized = {SR_Result, SR_Release, SR_Continuation}"

fun SingleResult_needs :: "SingleResultOp \<Rightarrow> SingleResultOp set" where
  "SingleResult_needs SR_Result = {}"
| "SingleResult_needs SR_Release = {SR_Result}"
| "SingleResult_needs SR_Continuation = {SR_Release}"

interpretation single_result: authorization_protocol SingleResult_step
  "\<lambda>l. SingleResult_granted (sr_state l)" SingleResult_needs SingleResult_init
proof unfold_locales
  fix a s
  show "fst (SingleResult_step a s) \<longleftrightarrow>
      a \<notin> SingleResult_granted (sr_state s) \<and>
      SingleResult_needs a \<subseteq> SingleResult_granted (sr_state s)"
    by (cases a; cases "sr_state s") (simp_all add: SingleResult_defs)
  show "SingleResult_granted (sr_state (snd (SingleResult_step a s))) =
      (if fst (SingleResult_step a s) then insert a (SingleResult_granted (sr_state s))
       else SingleResult_granted (sr_state s))"
    by (cases a; cases "sr_state s") (auto simp: SingleResult_defs)
qed (simp add: SingleResult_defs)

fun SplitRelease_is_granted :: "SplitReleaseLifecycle \<Rightarrow> SplitReleaseOp \<Rightarrow> bool" where
  "SplitRelease_is_granted l SPL_Logical = SplitRelease_LogicalResultReady l"
| "SplitRelease_is_granted l SPL_Physical = SplitRelease_PhysicalTerminal l"
| "SplitRelease_is_granted l SPL_Release = SplitRelease_ReleaseAuthorized l"
| "SplitRelease_is_granted l SPL_Continuation = SplitRelease_ContinuationAuthorized l"

fun SplitRelease_needs :: "SplitReleaseOp \<Rightarrow> SplitReleaseOp set" where
  "SplitRelease_needs SPL_Logical = {}"
| "SplitRelease_needs SPL_Physical = {}"
| "SplitRelease_needs SPL_Release = {SPL_Logical, SPL_Physical}"
| "SplitRelease_needs SPL_Continuation = {SPL_Release}"

interpretation split_release: authorization_protocol SplitRelease_step
  "\<lambda>l. {a. SplitRelease_is_granted l a}" SplitRelease_needs SplitRelease_init
proof unfold_locales
  fix a s
  show "fst (SplitRelease_step a s) \<longleftrightarrow>
      a \<notin> {a. SplitRelease_is_granted s a} \<and>
      SplitRelease_needs a \<subseteq> {a. SplitRelease_is_granted s a}"
    by (cases a) (auto simp: SplitRelease_defs CompletionGate_defs)
  have "SplitRelease_is_granted (snd (SplitRelease_step a s)) b \<longleftrightarrow>
      SplitRelease_is_granted s b \<or> b = a \<and> fst (SplitRelease_step a s)" for b
    by (cases a; cases b) (auto simp: SplitRelease_defs CompletionGate_defs)
  then show "{b. SplitRelease_is_granted (snd (SplitRelease_step a s)) b} =
      (if fst (SplitRelease_step a s) then insert a {b. SplitRelease_is_granted s b}
       else {b. SplitRelease_is_granted s b})"
    by auto
  have "\<not> SplitRelease_is_granted SplitRelease_init b" for b
    by (cases b) (simp_all add: SplitRelease_defs CompletionGate_defs)
  then show "{b. SplitRelease_is_granted SplitRelease_init b} = {}"
    by simp
qed

fun Composite_is_granted :: "CompositeLifecycle \<Rightarrow> CompositeOp \<Rightarrow> bool" where
  "Composite_is_granted l (CMP_Member m) = Composite_MemberCompleted m l"
| "Composite_is_granted l CMP_Logical = Composite_LogicalResultAuthorized l"
| "Composite_is_granted l CMP_Release = Composite_ReleaseAuthorized l"
| "Composite_is_granted l CMP_Continuation = Composite_ContinuationAuthorized l"

fun Composite_needs :: "CompositeOp \<Rightarrow> CompositeOp set" where
  "Composite_needs (CMP_Member m) = {}"
| "Composite_needs CMP_Logical = {CMP_Member CM_First, CMP_Member CM_Second}"
| "Composite_needs CMP_Release = {CMP_Logical}"
| "Composite_needs CMP_Continuation = {CMP_Release}"

lemma Composite_is_granted_step:
  "Composite_is_granted (snd (Composite_step a s)) b \<longleftrightarrow>
     Composite_is_granted s b \<or> b = a \<and> fst (Composite_step a s)"
proof (cases a)
  case (CMP_Member m)
  then show ?thesis
    by (cases b; cases m; cases "case b of CMP_Member k \<Rightarrow> k | _ \<Rightarrow> m")
       (auto simp: Composite_defs CompletionGate_defs)
qed (cases b; auto simp: Composite_defs CompletionGate_defs)+

interpretation composite: authorization_protocol Composite_step
  "\<lambda>l. {a. Composite_is_granted l a}" Composite_needs Composite_init
proof unfold_locales
  fix a s
  show "fst (Composite_step a s) \<longleftrightarrow>
      a \<notin> {a. Composite_is_granted s a} \<and> Composite_needs a \<subseteq> {a. Composite_is_granted s a}"
    by (cases a) (auto simp: Composite_defs CompletionGate_defs)
  show "{b. Composite_is_granted (snd (Composite_step a s)) b} =
      (if fst (Composite_step a s) then insert a {b. Composite_is_granted s b}
       else {b. Composite_is_granted s b})"
    by (auto simp: Composite_is_granted_step)
  have "\<not> Composite_is_granted Composite_init b" for b
    by (cases b) (simp_all add: Composite_defs CompletionGate_defs)
  then show "{b. Composite_is_granted Composite_init b} = {}"
    by simp
qed

section \<open>Properties\<close>

text \<open>
  C21. In a split-release operation the continuation is authorized at most once, after the
  release was authorized, and the release only after both the logical result was recorded and
  the physical operation became terminal, whatever the order in which the adapter calls.
\<close>

theorem split_release_order:
  assumes "i < length ops"
    and "outputs SplitRelease_step ops SplitRelease_init ! i = (SPL_Continuation, True)"
  shows "(\<exists>j<i. outputs SplitRelease_step ops SplitRelease_init ! j = (SPL_Release, True) \<and>
           (\<exists>k<j. outputs SplitRelease_step ops SplitRelease_init ! k = (SPL_Logical, True)) \<and>
           (\<exists>k<j. outputs SplitRelease_step ops SplitRelease_init ! k = (SPL_Physical, True))) \<and>
         count_list (outputs SplitRelease_step ops SplitRelease_init) (SPL_Continuation, True) = 1"
proof -
  let ?out = "outputs SplitRelease_step ops SplitRelease_init"
  obtain j where j: "j < i" "?out ! j = (SPL_Release, True)"
    using split_release.needs_earlier [OF assms, of SPL_Release] by auto
  then have "j < length ops" using assms(1) by simp
  note earlier = split_release.needs_earlier [OF this j(2)]
  have "(SPL_Continuation, True) \<in> set ?out"
    using assms by (metis length_outputs nth_mem)
  then have "count_list ?out (SPL_Continuation, True) = 1"
    using split_release.at_most_once by (metis count_list_0_iff le_less less_one)
  then show ?thesis
    using j earlier [of SPL_Logical] earlier [of SPL_Physical] by auto
qed

theorem split_release_order_witness:
  "outputs SplitRelease_step [SPL_Physical, SPL_Release, SPL_Logical, SPL_Release, SPL_Continuation]
     SplitRelease_init ! 4 = (SPL_Continuation, True) \<and>
   (\<exists>j<4. outputs SplitRelease_step
       [SPL_Physical, SPL_Release, SPL_Logical, SPL_Release, SPL_Continuation]
       SplitRelease_init ! j = (SPL_Release, True))"
proof -
  let ?ops = "[SPL_Physical, SPL_Release, SPL_Logical, SPL_Release, SPL_Continuation]"
  have "outputs SplitRelease_step ?ops SplitRelease_init ! 4 = (SPL_Continuation, True)"
    by (simp add: SplitRelease_defs CompletionGate_defs)
  then show ?thesis
    using split_release_order [of 4 ?ops] by auto
qed

text \<open>
  C22. In a composite operation the continuation is authorized at most once and only after the
  release, the release only after the logical result, and the logical result only after both
  physical members completed.
\<close>

theorem composite_order:
  assumes "i < length ops"
    and "outputs Composite_step ops Composite_init ! i = (CMP_Continuation, True)"
  shows "(\<exists>j<i. outputs Composite_step ops Composite_init ! j = (CMP_Release, True) \<and>
           (\<exists>k<j. outputs Composite_step ops Composite_init ! k = (CMP_Logical, True) \<and>
             (\<forall>m. \<exists>n<k. outputs Composite_step ops Composite_init ! n = (CMP_Member m, True)))) \<and>
         count_list (outputs Composite_step ops Composite_init) (CMP_Continuation, True) = 1"
proof -
  let ?out = "outputs Composite_step ops Composite_init"
  obtain j where j: "j < i" "?out ! j = (CMP_Release, True)"
    using composite.needs_earlier [OF assms, of CMP_Release] by auto
  then have "j < length ops" using assms(1) by simp
  then obtain k where k: "k < j" "?out ! k = (CMP_Logical, True)"
    using composite.needs_earlier [OF _ j(2), of CMP_Logical] by auto
  then have "k < length ops" using \<open>j < length ops\<close> by simp
  then have "\<exists>n<k. ?out ! n = (CMP_Member m, True)" for m
    using composite.needs_earlier [OF _ k(2), of "CMP_Member m"] by (cases m) auto
  moreover have "(CMP_Continuation, True) \<in> set ?out"
    using assms by (metis length_outputs nth_mem)
  then have "count_list ?out (CMP_Continuation, True) = 1"
    using composite.at_most_once by (metis count_list_0_iff le_less less_one)
  ultimately show ?thesis using j k by blast
qed

theorem composite_order_witness:
  "outputs Composite_step
     [CMP_Member CM_Second, CMP_Logical, CMP_Member CM_First, CMP_Logical, CMP_Release,
      CMP_Continuation] Composite_init ! 5 = (CMP_Continuation, True) \<and>
   count_list (outputs Composite_step
     [CMP_Member CM_Second, CMP_Logical, CMP_Member CM_First, CMP_Logical, CMP_Release,
      CMP_Continuation] Composite_init) (CMP_Continuation, True) = 1"
proof -
  let ?ops = "[CMP_Member CM_Second, CMP_Logical, CMP_Member CM_First, CMP_Logical, CMP_Release,
      CMP_Continuation]"
  have "outputs Composite_step ?ops Composite_init ! 5 = (CMP_Continuation, True)"
    by (simp add: Composite_defs CompletionGate_defs)
  then show ?thesis
    using composite_order [of 5 ?ops] by auto
qed

end
