(* ===== verification/Source_State.thy ===== *)
theory Source_State
  imports Alyrn_Prelude
begin

text \<open>
  The admission state machines of \<^verbatim>\<open>include/alyrn/net/detail\<close>: \<^verbatim>\<open>AcceptSourceStateMachine\<close>
  and \<^verbatim>\<open>RecvSourceStateMachine\<close> with their options. Both implement the locale
  \<open>admission_source\<close>: pausing and stopping wait for the armed requests, a stopped source is
  terminal exactly when nothing is owed any more, and terminal is final.
\<close>

section \<open>Shared enumerations\<close>

datatype SourceState =
  S_Idle | S_Active | S_Pausing | S_Paused | S_Stopping | S_Draining | S_Terminal

datatype MultishotRequestDisposition = MR_More | MR_Terminal

datatype EventDisposition = ED_None | ED_Produced | ED_Delivered

section \<open>Accept source\<close>

record AcceptSourceOptions =
  ao_pending_depth :: nat
  ao_event_capacity :: nat
  ao_resume_threshold :: nat

definition AcceptOptions_Valid :: "AcceptSourceOptions \<Rightarrow> bool" where
  "AcceptOptions_Valid opt \<longleftrightarrow>
     ao_pending_depth opt > 0 \<and> ao_event_capacity opt \<ge> ao_pending_depth opt \<and>
     (ao_resume_threshold opt = 0 \<or> ao_resume_threshold opt < ao_event_capacity opt)"

definition AcceptOptions_ResumeThreshold :: "AcceptSourceOptions \<Rightarrow> nat" where
  "AcceptOptions_ResumeThreshold opt =
     (if ao_resume_threshold opt = 0 then ao_event_capacity opt div 2 else ao_resume_threshold opt)"

record AcceptMachine =
  am_options :: AcceptSourceOptions
  am_state :: SourceState
  am_queued :: nat
  am_armed :: nat

definition Accept_Create :: "AcceptSourceOptions \<Rightarrow> AcceptMachine result" where
  "Accept_Create opt =
     (if \<not> AcceptOptions_Valid opt then Err EINVAL
      else Ok \<lparr>am_options = opt, am_state = S_Idle, am_queued = 0, am_armed = 0\<rparr>)"

definition Accept_ReconcilePause :: "AcceptMachine \<Rightarrow> AcceptMachine" where
  "Accept_ReconcilePause m =
     (if am_state m = S_Pausing \<and> am_armed m = 0 then m\<lparr>am_state := S_Paused\<rparr> else m)"

definition Accept_ReconcileStopping :: "AcceptMachine \<Rightarrow> AcceptMachine" where
  "Accept_ReconcileStopping m0 =
     (let m = Accept_ReconcilePause m0 in
      if am_state m = S_Stopping then
        (if am_armed m \<noteq> 0 then m
         else m\<lparr>am_state := (if am_queued m = 0 then S_Terminal else S_Draining)\<rparr>)
      else if am_state m = S_Draining \<and> am_queued m = 0 \<and> am_armed m = 0
      then m\<lparr>am_state := S_Terminal\<rparr>
      else m)"

definition Accept_Start :: "AcceptMachine \<Rightarrow> unit result \<times> AcceptMachine" where
  "Accept_Start m =
     (if am_state m \<noteq> S_Idle then (Err EALREADY, m)
      else (Ok (), m\<lparr>am_state := S_Active\<rparr>))"

definition Accept_CanArm :: "AcceptMachine \<Rightarrow> bool" where
  "Accept_CanArm m \<longleftrightarrow>
     am_state m = S_Active \<and> am_armed m < ao_pending_depth (am_options m) \<and>
     am_queued m + am_armed m < ao_event_capacity (am_options m)"

definition Accept_TryArm :: "AcceptMachine \<Rightarrow> bool \<times> AcceptMachine" where
  "Accept_TryArm m =
     (if am_state m \<noteq> S_Active \<or> am_armed m \<ge> ao_pending_depth (am_options m) \<or>
         am_queued m + am_armed m \<ge> ao_event_capacity (am_options m)
      then (False, m)
      else (True, m\<lparr>am_armed := am_armed m + 1\<rparr>))"

definition Accept_RequestPause :: "AcceptMachine \<Rightarrow> unit result \<times> AcceptMachine" where
  "Accept_RequestPause m =
     (if am_state m = S_Terminal \<or> am_state m = S_Draining \<or> am_state m = S_Stopping \<or>
         am_state m = S_Pausing \<or> am_state m = S_Paused then (Ok (), m)
      else if am_state m \<noteq> S_Active then (Err EINVAL, m)
      else (Ok (), Accept_ReconcilePause (m\<lparr>am_state := S_Pausing\<rparr>)))"

definition Accept_TryResume :: "AcceptMachine \<Rightarrow> bool \<times> AcceptMachine" where
  "Accept_TryResume m =
     (if am_state m \<noteq> S_Paused \<or> am_queued m > AcceptOptions_ResumeThreshold (am_options m)
      then (False, m)
      else (True, m\<lparr>am_state := S_Active\<rparr>))"

definition Accept_CompleteRequest :: "bool \<Rightarrow> AcceptMachine \<Rightarrow> unit result \<times> AcceptMachine" where
  "Accept_CompleteRequest produced m =
     (if am_armed m = 0 then (Err EINVAL, m)
      else if produced \<and> am_queued m \<ge> ao_event_capacity (am_options m) then (Err ENOBUFS, m)
      else (Ok (), Accept_ReconcileStopping
              (m\<lparr>am_armed := am_armed m - 1,
                 am_queued := (if produced then am_queued m + 1 else am_queued m)\<rparr>)))"

definition Accept_CompleteMultishotEvent ::
    "EventDisposition \<Rightarrow> MultishotRequestDisposition \<Rightarrow> AcceptMachine \<Rightarrow>
     unit result \<times> AcceptMachine" where
  "Accept_CompleteMultishotEvent event request m =
     (if am_armed m = 0 then (Err EINVAL, m)
      else if event = ED_Delivered then (Err EINVAL, m)
      else if event = ED_Produced \<and> am_queued m \<ge> ao_event_capacity (am_options m)
      then (Err ENOBUFS, m)
      else (Ok (), Accept_ReconcileStopping
              (m\<lparr>am_armed := (if request = MR_Terminal then am_armed m - 1 else am_armed m),
                 am_queued := (if event = ED_Produced then am_queued m + 1 else am_queued m)\<rparr>)))"

definition Accept_ConsumeEvent :: "AcceptMachine \<Rightarrow> bool \<times> AcceptMachine" where
  "Accept_ConsumeEvent m =
     (if am_queued m = 0 then (False, m)
      else (True, Accept_ReconcileStopping (m\<lparr>am_queued := am_queued m - 1\<rparr>)))"

definition Accept_RequestStop :: "AcceptMachine \<Rightarrow> AcceptMachine" where
  "Accept_RequestStop m =
     (if am_state m = S_Terminal \<or> am_state m = S_Draining \<or> am_state m = S_Stopping then m
      else if am_state m = S_Idle then m\<lparr>am_state := S_Terminal\<rparr>
      else Accept_ReconcileStopping (m\<lparr>am_state := S_Stopping\<rparr>))"

lemmas Accept_defs =
  AcceptOptions_Valid_def AcceptOptions_ResumeThreshold_def Accept_ReconcilePause_def
  Accept_ReconcileStopping_def Accept_Start_def Accept_CanArm_def Accept_TryArm_def
  Accept_RequestPause_def Accept_TryResume_def Accept_CompleteRequest_def
  Accept_CompleteMultishotEvent_def Accept_ConsumeEvent_def Accept_RequestStop_def

section \<open>Receive source\<close>

record RecvSourceOptions =
  ro_pending_depth :: nat
  ro_event_capacity :: nat
  ro_buffer_capacity :: nat
  ro_resume_threshold :: nat

definition RecvOptions_Valid :: "RecvSourceOptions \<Rightarrow> bool" where
  "RecvOptions_Valid opt \<longleftrightarrow>
     ro_pending_depth opt > 0 \<and> ro_event_capacity opt > 0 \<and>
     ro_buffer_capacity opt \<ge> ro_event_capacity opt \<and>
     (ro_resume_threshold opt = 0 \<or> ro_resume_threshold opt < ro_event_capacity opt)"

definition RecvOptions_ResumeThreshold :: "RecvSourceOptions \<Rightarrow> nat" where
  "RecvOptions_ResumeThreshold opt =
     (if ro_resume_threshold opt = 0 then ro_event_capacity opt div 2 else ro_resume_threshold opt)"

record RecvMachine =
  rm_options :: RecvSourceOptions
  rm_state :: SourceState
  rm_queued :: nat
  rm_armed :: nat
  rm_leases :: nat

definition kMaxRearmWorkingSet :: nat where
  "kMaxRearmWorkingSet = 8"

definition Recv_Create :: "RecvSourceOptions \<Rightarrow> RecvMachine result" where
  "Recv_Create opt =
     (if \<not> RecvOptions_Valid opt then Err EINVAL
      else Ok \<lparr>rm_options = opt, rm_state = S_Idle, rm_queued = 0, rm_armed = 0, rm_leases = 0\<rparr>)"

definition Recv_ReconcilePause :: "RecvMachine \<Rightarrow> RecvMachine" where
  "Recv_ReconcilePause m =
     (if rm_state m = S_Pausing \<and> rm_armed m = 0 then m\<lparr>rm_state := S_Paused\<rparr> else m)"

definition Recv_ReconcileStopping :: "RecvMachine \<Rightarrow> RecvMachine" where
  "Recv_ReconcileStopping m0 =
     (let m = Recv_ReconcilePause m0 in
      if rm_state m = S_Stopping then
        (if rm_armed m \<noteq> 0 then m
         else m\<lparr>rm_state := (if rm_queued m = 0 \<and> rm_leases m = 0
                            then S_Terminal else S_Draining)\<rparr>)
      else if rm_state m = S_Draining \<and> rm_armed m = 0 \<and> rm_queued m = 0 \<and> rm_leases m = 0
      then m\<lparr>rm_state := S_Terminal\<rparr>
      else m)"

definition Recv_Start :: "RecvMachine \<Rightarrow> unit result \<times> RecvMachine" where
  "Recv_Start m =
     (if rm_state m \<noteq> S_Idle then (Err EALREADY, m)
      else (Ok (), m\<lparr>rm_state := S_Active\<rparr>))"

definition Recv_CanQueueEvent :: "RecvMachine \<Rightarrow> bool" where
  "Recv_CanQueueEvent m \<longleftrightarrow>
     rm_queued m < ro_event_capacity (rm_options m) \<and>
     rm_leases m < ro_buffer_capacity (rm_options m)"

definition Recv_CanDeliverEvent :: "RecvMachine \<Rightarrow> bool" where
  "Recv_CanDeliverEvent m \<longleftrightarrow> rm_leases m < ro_buffer_capacity (rm_options m)"

definition Recv_CanArm :: "RecvMachine \<Rightarrow> bool" where
  "Recv_CanArm m =
     (if rm_state m \<noteq> S_Active \<or> rm_armed m \<ge> ro_pending_depth (rm_options m) \<or>
         \<not> Recv_CanQueueEvent m then False
      else let reserved = rm_leases m + rm_armed m in
           if reserved \<ge> ro_buffer_capacity (rm_options m) then False
           else let free_slots = ro_buffer_capacity (rm_options m) - reserved;
                    min_free = min (RecvOptions_ResumeThreshold (rm_options m)) kMaxRearmWorkingSet
                in free_slots \<ge> min_free)"

definition Recv_TryArm :: "RecvMachine \<Rightarrow> bool \<times> RecvMachine" where
  "Recv_TryArm m =
     (if \<not> Recv_CanArm m then (False, m) else (True, m\<lparr>rm_armed := rm_armed m + 1\<rparr>))"

definition Recv_RequestPause :: "RecvMachine \<Rightarrow> unit result \<times> RecvMachine" where
  "Recv_RequestPause m =
     (if rm_state m = S_Terminal \<or> rm_state m = S_Draining \<or> rm_state m = S_Stopping \<or>
         rm_state m = S_Pausing \<or> rm_state m = S_Paused then (Ok (), m)
      else if rm_state m \<noteq> S_Active then (Err EINVAL, m)
      else (Ok (), Recv_ReconcilePause (m\<lparr>rm_state := S_Pausing\<rparr>)))"

definition Recv_TryResume :: "RecvMachine \<Rightarrow> bool \<times> RecvMachine" where
  "Recv_TryResume m =
     (if rm_state m \<noteq> S_Paused \<or> rm_queued m > RecvOptions_ResumeThreshold (rm_options m)
      then (False, m)
      else (True, m\<lparr>rm_state := S_Active\<rparr>))"

definition Recv_ReconcileUnlessActive :: "RecvMachine \<Rightarrow> RecvMachine" where
  "Recv_ReconcileUnlessActive m =
     (if rm_state m \<noteq> S_Active then Recv_ReconcileStopping m else m)"

definition Recv_CompleteMultishotEvent ::
    "EventDisposition \<Rightarrow> MultishotRequestDisposition \<Rightarrow> RecvMachine \<Rightarrow>
     unit result \<times> RecvMachine" where
  "Recv_CompleteMultishotEvent event request m =
     (if rm_armed m = 0 then (Err EINVAL, m)
      else if event = ED_Produced \<and> \<not> Recv_CanQueueEvent m then (Err ENOBUFS, m)
      else if event = ED_Delivered \<and> \<not> Recv_CanDeliverEvent m then (Err ENOBUFS, m)
      else (Ok (), Recv_ReconcileUnlessActive
              (m\<lparr>rm_armed := (if request = MR_Terminal then rm_armed m - 1 else rm_armed m),
                 rm_queued := (if event = ED_Produced then rm_queued m + 1 else rm_queued m),
                 rm_leases := (if event = ED_Produced \<or> event = ED_Delivered
                               then rm_leases m + 1 else rm_leases m)\<rparr>)))"

definition Recv_AcquireEvent :: "RecvMachine \<Rightarrow> bool \<times> RecvMachine" where
  "Recv_AcquireEvent m =
     (if rm_queued m = 0 then (False, m)
      else (True, Recv_ReconcileUnlessActive (m\<lparr>rm_queued := rm_queued m - 1\<rparr>)))"

definition Recv_DiscardQueuedEvent :: "RecvMachine \<Rightarrow> bool \<times> RecvMachine" where
  "Recv_DiscardQueuedEvent m =
     (if rm_queued m = 0 then (False, m)
      else (True, Recv_ReconcileUnlessActive (m\<lparr>rm_queued := rm_queued m - 1\<rparr>)))"

definition Recv_ReleaseLease :: "RecvMachine \<Rightarrow> bool \<times> RecvMachine" where
  "Recv_ReleaseLease m =
     (if rm_leases m = 0 then (False, m)
      else (True, Recv_ReconcileUnlessActive (m\<lparr>rm_leases := rm_leases m - 1\<rparr>)))"

definition Recv_RequestStop :: "RecvMachine \<Rightarrow> unit result \<times> RecvMachine" where
  "Recv_RequestStop m =
     (if rm_state m = S_Terminal \<or> rm_state m = S_Draining \<or> rm_state m = S_Stopping
      then (Ok (), m)
      else if rm_state m = S_Idle then (Ok (), m\<lparr>rm_state := S_Terminal\<rparr>)
      else (Ok (), Recv_ReconcileStopping (m\<lparr>rm_state := S_Stopping\<rparr>)))"

lemmas Recv_defs =
  RecvOptions_Valid_def RecvOptions_ResumeThreshold_def kMaxRearmWorkingSet_def
  Recv_ReconcilePause_def Recv_ReconcileStopping_def Recv_Start_def Recv_CanQueueEvent_def
  Recv_CanDeliverEvent_def Recv_CanArm_def Recv_TryArm_def Recv_RequestPause_def
  Recv_TryResume_def Recv_ReconcileUnlessActive_def Recv_CompleteMultishotEvent_def
  Recv_AcquireEvent_def Recv_DiscardQueuedEvent_def Recv_ReleaseLease_def Recv_RequestStop_def

section \<open>Operations as data\<close>

datatype AcceptOp =
    AO_Start | AO_TryArm | AO_Pause | AO_Resume | AO_Complete bool
  | AO_Multishot EventDisposition MultishotRequestDisposition | AO_Consume | AO_Stop

text \<open>Boolean answers and \<^verbatim>\<open>Result<void>\<close> answers are read as one result of type bool.\<close>

definition done_result :: "unit result \<times> 'm \<Rightarrow> bool result \<times> 'm" where
  "done_result p = (map_sum id (\<lambda>_. True) (fst p), snd p)"

definition bool_result :: "bool \<times> 'm \<Rightarrow> bool result \<times> 'm" where
  "bool_result p = (Ok (fst p), snd p)"

fun Accept_step :: "AcceptOp \<Rightarrow> AcceptMachine \<Rightarrow> bool result \<times> AcceptMachine" where
  "Accept_step AO_Start m = done_result (Accept_Start m)"
| "Accept_step AO_TryArm m = bool_result (Accept_TryArm m)"
| "Accept_step AO_Pause m = done_result (Accept_RequestPause m)"
| "Accept_step AO_Resume m = bool_result (Accept_TryResume m)"
| "Accept_step (AO_Complete produced) m = done_result (Accept_CompleteRequest produced m)"
| "Accept_step (AO_Multishot e r) m = done_result (Accept_CompleteMultishotEvent e r m)"
| "Accept_step AO_Consume m = bool_result (Accept_ConsumeEvent m)"
| "Accept_step AO_Stop m = (Ok True, Accept_RequestStop m)"

datatype RecvOp =
    RO_Start | RO_TryArm | RO_Pause | RO_Resume
  | RO_Multishot EventDisposition MultishotRequestDisposition
  | RO_Acquire | RO_Discard | RO_Release | RO_Stop

fun Recv_step :: "RecvOp \<Rightarrow> RecvMachine \<Rightarrow> bool result \<times> RecvMachine" where
  "Recv_step RO_Start m = done_result (Recv_Start m)"
| "Recv_step RO_TryArm m = bool_result (Recv_TryArm m)"
| "Recv_step RO_Pause m = done_result (Recv_RequestPause m)"
| "Recv_step RO_Resume m = bool_result (Recv_TryResume m)"
| "Recv_step (RO_Multishot e r) m = done_result (Recv_CompleteMultishotEvent e r m)"
| "Recv_step RO_Acquire m = bool_result (Recv_AcquireEvent m)"
| "Recv_step RO_Discard m = bool_result (Recv_DiscardQueuedEvent m)"
| "Recv_step RO_Release m = bool_result (Recv_ReleaseLease m)"
| "Recv_step RO_Stop m = done_result (Recv_RequestStop m)"

lemma done_result_simps [simp]:
  "fst (done_result (Inl e, m)) = Inl e"
  "fst (done_result (Inr u, m)) = Inr True"
  "snd (done_result p) = snd p"
  by (simp_all add: done_result_def)

lemma bool_result_simps [simp]:
  "fst (bool_result p) = Inr (fst p)"
  "snd (bool_result p) = snd p"
  by (simp_all add: bool_result_def)

section \<open>Invariants\<close>

definition Accept_inv :: "AcceptMachine \<Rightarrow> bool" where
  "Accept_inv m \<longleftrightarrow>
     AcceptOptions_Valid (am_options m) \<and>
     am_armed m \<le> ao_pending_depth (am_options m) \<and>
     am_queued m \<le> ao_event_capacity (am_options m) \<and>
     (case am_state m of
        S_Idle \<Rightarrow> am_armed m = 0 \<and> am_queued m = 0
      | S_Active \<Rightarrow> True
      | S_Pausing \<Rightarrow> am_armed m > 0
      | S_Paused \<Rightarrow> am_armed m = 0
      | S_Stopping \<Rightarrow> am_armed m > 0
      | S_Draining \<Rightarrow> am_armed m = 0 \<and> am_queued m > 0
      | S_Terminal \<Rightarrow> am_armed m = 0 \<and> am_queued m = 0)"

definition Recv_inv :: "RecvMachine \<Rightarrow> bool" where
  "Recv_inv m \<longleftrightarrow>
     RecvOptions_Valid (rm_options m) \<and>
     rm_armed m \<le> ro_pending_depth (rm_options m) \<and>
     rm_armed m \<le> ro_buffer_capacity (rm_options m) \<and>
     rm_queued m \<le> ro_event_capacity (rm_options m) \<and>
     rm_leases m \<le> ro_buffer_capacity (rm_options m) \<and>
     (case rm_state m of
        S_Idle \<Rightarrow> rm_armed m = 0 \<and> rm_queued m = 0 \<and> rm_leases m = 0
      | S_Active \<Rightarrow> True
      | S_Pausing \<Rightarrow> rm_armed m > 0
      | S_Paused \<Rightarrow> rm_armed m = 0
      | S_Stopping \<Rightarrow> rm_armed m > 0
      | S_Draining \<Rightarrow> rm_armed m = 0 \<and> (rm_queued m > 0 \<or> rm_leases m > 0)
      | S_Terminal \<Rightarrow> rm_armed m = 0 \<and> rm_queued m = 0 \<and> rm_leases m = 0)"

lemma Accept_inv_create: "Accept_Create opt = Inr m \<Longrightarrow> Accept_inv m \<and> am_state m = S_Idle"
  by (auto simp: Accept_Create_def Accept_inv_def split: if_splits)

lemma Recv_inv_create: "Recv_Create opt = Inr m \<Longrightarrow> Recv_inv m \<and> rm_state m = S_Idle"
  by (auto simp: Recv_Create_def Recv_inv_def split: if_splits)

lemma Accept_inv_step: "Accept_inv m \<Longrightarrow> Accept_inv (snd (Accept_step a m))"
  by (cases a; cases "am_state m") (auto simp: Accept_inv_def Accept_defs Let_def)

lemma Recv_inv_step: "Recv_inv m \<Longrightarrow> Recv_inv (snd (Recv_step a m))"
  by (cases a; cases "rm_state m") (auto simp: Recv_inv_def Recv_defs Let_def)

section \<open>The common contract\<close>

text \<open>\<open>shutting\<close> holds from the stop request on.\<close>

definition shutting :: "SourceState \<Rightarrow> bool" where
  "shutting st \<longleftrightarrow> st = S_Stopping \<or> st = S_Draining \<or> st = S_Terminal"

locale admission_source =
  fixes step :: "'op \<Rightarrow> 'm \<Rightarrow> 'r \<times> 'm"
    and st :: "'m \<Rightarrow> SourceState"
    and armed :: "'m \<Rightarrow> nat"
    and owed :: "'m \<Rightarrow> nat"
    and good :: "'m \<Rightarrow> bool"
  assumes keeps: "good m \<Longrightarrow> good (snd (step a m))"
    and terminal_final: "good m \<Longrightarrow> st m = S_Terminal \<Longrightarrow> snd (step a m) = m"
    and shutting_final: "good m \<Longrightarrow> shutting (st m) \<Longrightarrow> shutting (st (snd (step a m)))"
    and shutting_arms_nothing:
      "good m \<Longrightarrow> shutting (st m) \<Longrightarrow> armed (snd (step a m)) \<le> armed m"
    and terminal_iff: "good m \<Longrightarrow> shutting (st m) \<Longrightarrow> st m = S_Terminal \<longleftrightarrow> owed m = 0"
begin

lemma run_keeps: "good m \<Longrightarrow> good (exec step as m)"
  by (rule exec_invariant) (auto intro: keeps)

lemma terminal_absorbs: "good m \<Longrightarrow> st m = S_Terminal \<Longrightarrow> exec step as m = m"
  by (induction as) (auto simp: terminal_final)

lemma after_stop:
  assumes "good m" and "shutting (st m)"
  shows "shutting (st (exec step as m)) \<and> armed (exec step as m) \<le> armed m"
  using assms
proof (induction as arbitrary: m)
  case (Cons a as)
  then have "good (snd (step a m))" "shutting (st (snd (step a m)))"
    by (auto intro: keeps shutting_final)
  from Cons.IH [OF this] shutting_arms_nothing [OF Cons.prems, of a] show ?case
    by auto
qed simp

lemma after_stop_terminal:
  assumes "good m" and "shutting (st m)"
  shows "st (exec step as m) = S_Terminal \<longleftrightarrow> owed (exec step as m) = 0"
  using assms after_stop run_keeps terminal_iff by blast

end

interpretation accept_source: admission_source Accept_step am_state am_armed
  "\<lambda>m. am_armed m + am_queued m" Accept_inv
proof unfold_locales
  fix m :: AcceptMachine and a
  assume inv: "Accept_inv m"
  show "Accept_inv (snd (Accept_step a m))"
    by (rule Accept_inv_step [OF inv])
  show "snd (Accept_step a m) = m" if "am_state m = S_Terminal"
    using inv that by (cases a) (auto simp: Accept_inv_def Accept_defs)
  assume sh: "shutting (am_state m)"
  show "shutting (am_state (snd (Accept_step a m)))"
    using inv sh by (cases a) (auto simp: shutting_def Accept_inv_def Accept_defs Let_def)
  show "am_armed (snd (Accept_step a m)) \<le> am_armed m"
    using inv sh by (cases a) (auto simp: shutting_def Accept_inv_def Accept_defs Let_def)
  show "am_state m = S_Terminal \<longleftrightarrow> am_armed m + am_queued m = 0"
    using inv sh by (auto simp: shutting_def Accept_inv_def)
qed

interpretation recv_source: admission_source Recv_step rm_state rm_armed
  "\<lambda>m. rm_armed m + rm_queued m + rm_leases m" Recv_inv
proof unfold_locales
  fix m :: RecvMachine and a
  assume inv: "Recv_inv m"
  show "Recv_inv (snd (Recv_step a m))"
    by (rule Recv_inv_step [OF inv])
  show "snd (Recv_step a m) = m" if "rm_state m = S_Terminal"
    using inv that by (cases a) (auto simp: Recv_inv_def Recv_defs)
  assume sh: "shutting (rm_state m)"
  show "shutting (rm_state (snd (Recv_step a m)))"
    using inv sh by (cases a) (auto simp: shutting_def Recv_inv_def Recv_defs Let_def)
  show "rm_armed (snd (Recv_step a m)) \<le> rm_armed m"
    using inv sh by (cases a) (auto simp: shutting_def Recv_inv_def Recv_defs Let_def)
  show "rm_state m = S_Terminal \<longleftrightarrow> rm_armed m + rm_queued m + rm_leases m = 0"
    using inv sh by (auto simp: shutting_def Recv_inv_def)
qed

lemma Accept_stop_shutting: "shutting (am_state (Accept_RequestStop m))"
  by (auto simp: shutting_def Accept_defs Let_def)

lemma Accept_stop_frame:
  "am_armed (Accept_RequestStop m) = am_armed m" "am_queued (Accept_RequestStop m) = am_queued m"
  by (auto simp: Accept_defs Let_def)

lemma Recv_stop_shutting: "shutting (rm_state (snd (Recv_RequestStop m)))"
  by (auto simp: shutting_def Recv_defs Let_def)

lemma Recv_stop_frame:
  "rm_armed (snd (Recv_RequestStop m)) = rm_armed m"
  "rm_queued (snd (Recv_RequestStop m)) = rm_queued m"
  "rm_leases (snd (Recv_RequestStop m)) = rm_leases m"
  by (auto simp: Recv_defs Let_def)

text \<open>Draining a stopped accept source: completions without events, then consumption.\<close>

lemma Accept_drain_armed:
  "am_armed m = n \<Longrightarrow>
   am_armed (exec Accept_step (replicate n (AO_Complete False)) m) = 0 \<and>
   am_queued (exec Accept_step (replicate n (AO_Complete False)) m) = am_queued m"
proof (induction n arbitrary: m)
  case (Suc n)
  let ?m = "snd (Accept_step (AO_Complete False) m)"
  have "am_armed ?m = n" "am_queued ?m = am_queued m"
    using Suc.prems by (auto simp: Accept_defs Let_def)
  then show ?case using Suc.IH [of ?m] by simp
qed simp

lemma Accept_drain_queued:
  "am_queued m = n \<Longrightarrow>
   am_queued (exec Accept_step (replicate n AO_Consume) m) = 0 \<and>
   am_armed (exec Accept_step (replicate n AO_Consume) m) = am_armed m"
proof (induction n arbitrary: m)
  case (Suc n)
  let ?m = "snd (Accept_step AO_Consume m)"
  have "am_queued ?m = n" "am_armed ?m = am_armed m"
    using Suc.prems by (auto simp: Accept_defs Let_def)
  then show ?case using Suc.IH [of ?m] by simp
qed simp

text \<open>Runs that only use one-shot completions keep a queue slot for every armed request.\<close>

fun one_shot_op :: "AcceptOp \<Rightarrow> bool" where
  "one_shot_op (AO_Multishot e r) = False"
| "one_shot_op _ = True"

lemma Accept_reserved_step:
  assumes "one_shot_op a" and "am_queued m + am_armed m \<le> ao_event_capacity (am_options m)"
  shows "am_queued (snd (Accept_step a m)) + am_armed (snd (Accept_step a m)) \<le>
         ao_event_capacity (am_options (snd (Accept_step a m)))"
  using assms by (cases a) (auto simp: Accept_defs Let_def)

lemma Accept_reserved_run:
  assumes "list_all one_shot_op as"
    and "am_queued m + am_armed m \<le> ao_event_capacity (am_options m)"
  shows "am_queued (exec Accept_step as m) + am_armed (exec Accept_step as m) \<le>
         ao_event_capacity (am_options (exec Accept_step as m))"
  using assms
proof (induction as arbitrary: m)
  case (Cons a as)
  then show ?case using Accept_reserved_step [of a m] by simp
qed simp

section \<open>Properties\<close>

text \<open>
  C23. A stop request on an accept source converges: after it, whatever calls follow, no request
  is armed again, the source is terminal exactly when no request is armed and no event is
  queued, and a terminal source ignores every further call.
\<close>

theorem accept_stop_converges:
  assumes "Accept_Create opt = Inr m0"
    and "m = exec Accept_step (before @ AO_Stop # after) m0"
  shows "am_armed m \<le> am_armed (exec Accept_step before m0) \<and>
         (am_state m = S_Terminal \<longleftrightarrow> am_armed m = 0 \<and> am_queued m = 0) \<and>
         (am_state m = S_Terminal \<longrightarrow> exec Accept_step later m = m)"
proof -
  let ?b = "exec Accept_step before m0" and ?s = "Accept_RequestStop (exec Accept_step before m0)"
  have inv: "Accept_inv ?b"
    using assms(1) Accept_inv_create accept_source.run_keeps by blast
  then have inv_s: "Accept_inv ?s"
    using accept_source.keeps [of ?b AO_Stop] by simp
  have m: "m = exec Accept_step after ?s"
    using assms(2) by simp
  have "am_armed m \<le> am_armed ?b"
    using accept_source.after_stop [OF inv_s Accept_stop_shutting, of after] m
    by (simp add: Accept_stop_frame)
  moreover have "am_state m = S_Terminal \<longleftrightarrow> am_armed m = 0 \<and> am_queued m = 0"
    using accept_source.after_stop_terminal [OF inv_s Accept_stop_shutting, of after] m by simp
  moreover have "Accept_inv m"
    unfolding m using inv_s by (rule accept_source.run_keeps)
  ultimately show ?thesis
    using accept_source.terminal_absorbs by blast
qed

theorem accept_stop_converges_witness:
  "am_state (exec Accept_step
     ([AO_Start, AO_TryArm, AO_TryArm, AO_Complete True] @ AO_Stop #
      [AO_Consume, AO_TryArm, AO_Complete False])
     \<lparr>am_options = \<lparr>ao_pending_depth = 2, ao_event_capacity = 4, ao_resume_threshold = 0\<rparr>,
      am_state = S_Idle, am_queued = 0, am_armed = 0\<rparr>) = S_Terminal"
proof -
  let ?opt = "\<lparr>ao_pending_depth = 2, ao_event_capacity = 4, ao_resume_threshold = 0\<rparr>"
  let ?start = "\<lparr>am_options = ?opt, am_state = S_Idle, am_queued = 0, am_armed = 0\<rparr>"
  let ?ops = "[AO_Start, AO_TryArm, AO_TryArm, AO_Complete True] @ AO_Stop #
      [AO_Consume, AO_TryArm, AO_Complete False]"
  have "Accept_Create ?opt = Inr ?start"
    by (simp add: Accept_Create_def Accept_defs)
  moreover have "am_armed (exec Accept_step ?ops ?start) = 0 \<and>
      am_queued (exec Accept_step ?ops ?start) = 0"
    by (simp add: Accept_defs Let_def)
  ultimately show ?thesis
    using accept_stop_converges [OF _ refl, of ?opt ?start "[AO_Start, AO_TryArm, AO_TryArm, AO_Complete True]"
      "[AO_Consume, AO_TryArm, AO_Complete False]"] by auto
qed

text \<open>
  C24. Terminal is reachable from every stopped accept source: completing the armed requests and
  consuming the queued events reaches it.
\<close>

theorem accept_stop_drains:
  assumes "Accept_Create opt = Inr m0" and "m = Accept_RequestStop (exec Accept_step before m0)"
  shows "am_state (exec Accept_step
           (replicate (am_armed m) (AO_Complete False) @ replicate (am_queued m) AO_Consume) m)
         = S_Terminal"
proof -
  let ?a = "exec Accept_step (replicate (am_armed m) (AO_Complete False)) m"
  have inv: "Accept_inv m"
    unfolding assms(2)
    using assms(1) Accept_inv_create accept_source.run_keeps
      accept_source.keeps [of "exec Accept_step before m0" AO_Stop] by auto
  have a: "am_armed ?a = 0" "am_queued ?a = am_queued m"
    using Accept_drain_armed [of m] by simp_all
  then have "am_armed (exec Accept_step (replicate (am_queued m) AO_Consume) ?a) = 0"
    and "am_queued (exec Accept_step (replicate (am_queued m) AO_Consume) ?a) = 0"
    using Accept_drain_queued [of ?a] by simp_all
  then show ?thesis
    using accept_source.after_stop_terminal [OF inv, of
        "replicate (am_armed m) (AO_Complete False) @ replicate (am_queued m) AO_Consume"]
      assms(2) Accept_stop_shutting by simp
qed

theorem accept_stop_drains_witness:
  "am_state (exec Accept_step (replicate 1 (AO_Complete False) @ replicate 1 AO_Consume)
     \<lparr>am_options = \<lparr>ao_pending_depth = 2, ao_event_capacity = 4, ao_resume_threshold = 0\<rparr>,
      am_state = S_Stopping, am_queued = 1, am_armed = 1\<rparr>) = S_Terminal"
proof -
  let ?opt = "\<lparr>ao_pending_depth = 2, ao_event_capacity = 4, ao_resume_threshold = 0\<rparr>"
  let ?start = "\<lparr>am_options = ?opt, am_state = S_Idle, am_queued = 0, am_armed = 0\<rparr>"
  let ?m = "\<lparr>am_options = ?opt, am_state = S_Stopping, am_queued = 1, am_armed = 1\<rparr>"
  have create: "Accept_Create ?opt = Inr ?start"
    by (simp add: Accept_Create_def Accept_defs)
  have "?m = Accept_RequestStop
      (exec Accept_step [AO_Start, AO_TryArm, AO_TryArm, AO_Complete True] ?start)"
    by (simp add: Accept_defs Let_def)
  from accept_stop_drains [OF create this] show ?thesis
    by (simp del: exec.simps)
qed

text \<open>
  With one-shot completions the queue reserves a slot for every armed request, so a
  completion of an armed request that accepted a connection is never refused with ENOBUFS.
\<close>

theorem accept_one_shot_never_full:
  assumes "Accept_Create opt = Inr m0" and "list_all one_shot_op ops"
    and "m = exec Accept_step ops m0" and "am_armed m > 0"
  shows "fst (Accept_CompleteRequest True m) = Inr () \<and>
         am_queued (snd (Accept_CompleteRequest True m)) = am_queued m + 1 \<and>
         am_queued m + am_armed m \<le> ao_event_capacity (am_options m)"
proof -
  have "am_queued m0 + am_armed m0 \<le> ao_event_capacity (am_options m0)"
    using assms(1) by (auto simp: Accept_Create_def split: if_splits)
  then have "am_queued m + am_armed m \<le> ao_event_capacity (am_options m)"
    unfolding assms(3) by (rule Accept_reserved_run [OF assms(2)])
  then show ?thesis
    using assms(4) by (auto simp: Accept_defs Let_def)
qed

theorem accept_one_shot_never_full_witness:
  "fst (Accept_CompleteRequest True
     \<lparr>am_options = \<lparr>ao_pending_depth = 1, ao_event_capacity = 1, ao_resume_threshold = 0\<rparr>,
      am_state = S_Pausing, am_queued = 0, am_armed = 1\<rparr>) = Inr ()"
proof -
  let ?opt = "\<lparr>ao_pending_depth = 1, ao_event_capacity = 1, ao_resume_threshold = 0\<rparr>"
  let ?start = "\<lparr>am_options = ?opt, am_state = S_Idle, am_queued = 0, am_armed = 0\<rparr>"
  let ?m = "\<lparr>am_options = ?opt, am_state = S_Pausing, am_queued = 0, am_armed = 1\<rparr>"
  have create: "Accept_Create ?opt = Inr ?start"
    by (simp add: Accept_Create_def Accept_defs)
  have "?m = exec Accept_step [AO_Start, AO_TryArm, AO_Pause] ?start"
    by (simp add: Accept_defs Let_def)
  from accept_one_shot_never_full [OF create _ this] show ?thesis
    by simp
qed

text \<open>
  C25. A stop request on a receive source converges, and terminal additionally waits for every
  buffer lease the application still holds.
\<close>

theorem recv_stop_converges:
  assumes "Recv_Create opt = Inr m0"
    and "m = exec Recv_step (before @ RO_Stop # after) m0"
  shows "rm_armed m \<le> rm_armed (exec Recv_step before m0) \<and>
         (rm_state m = S_Terminal \<longleftrightarrow> rm_armed m = 0 \<and> rm_queued m = 0 \<and> rm_leases m = 0) \<and>
         (rm_state m = S_Terminal \<longrightarrow> exec Recv_step later m = m)"
proof -
  let ?b = "exec Recv_step before m0" and ?s = "snd (Recv_RequestStop (exec Recv_step before m0))"
  have inv: "Recv_inv ?b"
    using assms(1) Recv_inv_create recv_source.run_keeps by blast
  then have inv_s: "Recv_inv ?s"
    using recv_source.keeps [of ?b RO_Stop] by simp
  have m: "m = exec Recv_step after ?s"
    using assms(2) by simp
  have "rm_armed m \<le> rm_armed ?b"
    using recv_source.after_stop [OF inv_s Recv_stop_shutting, of after] m
    by (simp add: Recv_stop_frame)
  moreover have "rm_state m = S_Terminal \<longleftrightarrow> rm_armed m = 0 \<and> rm_queued m = 0 \<and> rm_leases m = 0"
    using recv_source.after_stop_terminal [OF inv_s Recv_stop_shutting, of after] m by simp
  moreover have "Recv_inv m"
    unfolding m using inv_s by (rule recv_source.run_keeps)
  ultimately show ?thesis
    using recv_source.terminal_absorbs by blast
qed

theorem recv_stop_converges_witness:
  "rm_state (exec Recv_step
     ([RO_Start, RO_TryArm, RO_Multishot ED_Produced MR_More, RO_Acquire] @ RO_Stop #
      [RO_Multishot ED_None MR_Terminal])
     \<lparr>rm_options = \<lparr>ro_pending_depth = 1, ro_event_capacity = 2, ro_buffer_capacity = 4,
                    ro_resume_threshold = 0\<rparr>,
      rm_state = S_Idle, rm_queued = 0, rm_armed = 0, rm_leases = 0\<rparr>) \<noteq> S_Terminal"
proof -
  let ?opt = "\<lparr>ro_pending_depth = 1, ro_event_capacity = 2, ro_buffer_capacity = 4,
                ro_resume_threshold = 0\<rparr>"
  let ?start = "\<lparr>rm_options = ?opt, rm_state = S_Idle, rm_queued = 0, rm_armed = 0, rm_leases = 0\<rparr>"
  let ?before = "[RO_Start, RO_TryArm, RO_Multishot ED_Produced MR_More, RO_Acquire]"
  have "Recv_Create ?opt = Inr ?start"
    by (simp add: Recv_Create_def Recv_defs)
  moreover have "rm_leases (exec Recv_step (?before @ RO_Stop # [RO_Multishot ED_None MR_Terminal]) ?start) = 1"
    by (simp add: Recv_defs Let_def)
  ultimately show ?thesis
    using recv_stop_converges [OF _ refl, of ?opt ?start ?before "[RO_Multishot ED_None MR_Terminal]"]
    by auto
qed

text \<open>
  C26. Receive admission never overcommits buffers and never wedges: arming leaves the leases
  and the armed requests within the buffer capacity, and an active source with no armed request,
  no lease and no queued event can always arm.
\<close>

theorem recv_admission:
  assumes "Recv_Create opt = Inr m0" and "m = exec Recv_step ops m0"
  shows "rm_leases m \<le> ro_buffer_capacity (rm_options m) \<and>
         rm_queued m \<le> ro_event_capacity (rm_options m) \<and>
         (fst (Recv_TryArm m) \<longrightarrow>
            rm_leases m + rm_armed (snd (Recv_TryArm m)) \<le> ro_buffer_capacity (rm_options m)) \<and>
         (rm_state m = S_Active \<and> rm_armed m = 0 \<and> rm_leases m = 0 \<and> rm_queued m = 0 \<longrightarrow>
            fst (Recv_TryArm m))"
proof -
  have "Recv_inv m"
    unfolding assms(2) using assms(1) Recv_inv_create recv_source.run_keeps by blast
  then show ?thesis
    by (auto simp: Recv_inv_def Recv_defs Let_def split: if_splits)
qed

theorem recv_admission_witness:
  "fst (Recv_TryArm
     \<lparr>rm_options = \<lparr>ro_pending_depth = 1, ro_event_capacity = 2, ro_buffer_capacity = 4,
                    ro_resume_threshold = 0\<rparr>,
      rm_state = S_Active, rm_queued = 0, rm_armed = 0, rm_leases = 0\<rparr>)"
proof -
  let ?opt = "\<lparr>ro_pending_depth = 1, ro_event_capacity = 2, ro_buffer_capacity = 4,
                ro_resume_threshold = 0\<rparr>"
  let ?start = "\<lparr>rm_options = ?opt, rm_state = S_Idle, rm_queued = 0, rm_armed = 0, rm_leases = 0\<rparr>"
  have "Recv_Create ?opt = Inr ?start"
    by (simp add: Recv_Create_def Recv_defs)
  moreover have "exec Recv_step [RO_Start] ?start = ?start\<lparr>rm_state := S_Active\<rparr>"
    by (simp add: Recv_defs)
  ultimately show ?thesis
    using recv_admission [of ?opt ?start "?start\<lparr>rm_state := S_Active\<rparr>" "[RO_Start]"] by simp
qed

end
