(* ===== verification/Stream_Lifecycle.thy ===== *)
theory Stream_Lifecycle
  imports Alyrn_Prelude
begin

text \<open>
  \<^verbatim>\<open>net/detail/stream_lifecycle.h\<close>: the backend-neutral state of a connected stream. Half-close
  and close are two-phase transactions (prepare, then commit or abort); an operation whose
  \<^verbatim>\<open>ALYRN_CHECK\<close> fails returns \<open>None\<close>.
\<close>

section \<open>State\<close>

datatype ResourceState = R_Open | R_Closing | R_Closed
datatype WriteState = W_Writable | W_ShutdownPreparing | W_Shutdown
datatype ReadState = RD_Readable | RD_ShutdownPreparing | RD_Shutdown

record StreamLifecycle =
  sl_resource :: ResourceState
  sl_read :: ReadState
  sl_write :: WriteState

definition Stream_init :: StreamLifecycle where
  "Stream_init = \<lparr>sl_resource = R_Open, sl_read = RD_Readable, sl_write = W_Writable\<rparr>"

section \<open>Operations\<close>

definition Stream_MarkClosed :: "StreamLifecycle \<Rightarrow> StreamLifecycle" where
  "Stream_MarkClosed s = s\<lparr>sl_resource := R_Closed\<rparr>"

text \<open>The move constructor and move assignment return the new object and the emptied source.\<close>

definition Stream_MoveConstruct :: "StreamLifecycle \<Rightarrow> StreamLifecycle \<times> StreamLifecycle" where
  "Stream_MoveConstruct other =
     (\<lparr>sl_resource = sl_resource other, sl_read = sl_read other, sl_write = sl_write other\<rparr>,
      Stream_MarkClosed other)"

definition Stream_MoveAssign ::
    "bool \<Rightarrow> StreamLifecycle \<Rightarrow> StreamLifecycle \<Rightarrow> StreamLifecycle \<times> StreamLifecycle" where
  "Stream_MoveAssign same self other =
     (if \<not> same
      then (self\<lparr>sl_resource := sl_resource other, sl_read := sl_read other,
                 sl_write := sl_write other\<rparr>, Stream_MarkClosed other)
      else (self, other))"

definition Stream_ValidateResource :: "StreamLifecycle \<Rightarrow> unit result" where
  "Stream_ValidateResource s =
     (if sl_resource s = R_Closing then Err ECANCELED
      else if sl_resource s = R_Closed then Err EBADF
      else Ok ())"

definition Stream_ValidateRead :: "StreamLifecycle \<Rightarrow> unit result" where
  "Stream_ValidateRead s =
     (case Stream_ValidateResource s of
        Inl e \<Rightarrow> Err e
      | Inr _ \<Rightarrow> if sl_read s = RD_ShutdownPreparing then Err EBUSY else Ok ())"

definition Stream_ValidateWrite :: "StreamLifecycle \<Rightarrow> unit result" where
  "Stream_ValidateWrite s =
     (case Stream_ValidateResource s of
        Inl e \<Rightarrow> Err e
      | Inr _ \<Rightarrow> if sl_write s = W_Shutdown then Err EPIPE
                 else if sl_write s = W_ShutdownPreparing then Err EBUSY
                 else Ok ())"

definition Stream_IsReadShutdown :: "StreamLifecycle \<Rightarrow> bool" where
  "Stream_IsReadShutdown s \<longleftrightarrow> sl_read s = RD_Shutdown"

definition Stream_PrepareCloseRead :: "bool \<Rightarrow> StreamLifecycle \<Rightarrow> bool result \<times> StreamLifecycle" where
  "Stream_PrepareCloseRead read_pending s =
     (case Stream_ValidateRead s of
        Inl e \<Rightarrow> (Err e, s)
      | Inr _ \<Rightarrow>
          if sl_read s = RD_Shutdown then (Ok False, s)
          else if sl_read s = RD_ShutdownPreparing \<or> read_pending then (Err EBUSY, s)
          else (Ok True, s\<lparr>sl_read := RD_ShutdownPreparing\<rparr>))"

definition Stream_CommitCloseRead :: "StreamLifecycle \<Rightarrow> StreamLifecycle option" where
  "Stream_CommitCloseRead s = do {
     check (sl_resource s = R_Open);
     check (sl_read s = RD_ShutdownPreparing);
     Some (s\<lparr>sl_read := RD_Shutdown\<rparr>)
   }"

definition Stream_AbortCloseReadPreparation :: "StreamLifecycle \<Rightarrow> StreamLifecycle option" where
  "Stream_AbortCloseReadPreparation s = do {
     check (sl_resource s = R_Open);
     check (sl_read s = RD_ShutdownPreparing);
     Some (s\<lparr>sl_read := RD_Readable\<rparr>)
   }"

definition Stream_PrepareShutdown :: "bool \<Rightarrow> StreamLifecycle \<Rightarrow> bool result \<times> StreamLifecycle" where
  "Stream_PrepareShutdown write_pending s =
     (case Stream_ValidateResource s of
        Inl e \<Rightarrow> (Err e, s)
      | Inr _ \<Rightarrow>
          if sl_write s = W_Shutdown then (Ok False, s)
          else if sl_write s = W_ShutdownPreparing then (Err EBUSY, s)
          else if write_pending then (Err EBUSY, s)
          else (Ok True, s\<lparr>sl_write := W_ShutdownPreparing\<rparr>))"

definition Stream_CommitShutdown :: "StreamLifecycle \<Rightarrow> StreamLifecycle option" where
  "Stream_CommitShutdown s = do {
     check (sl_resource s = R_Open);
     check (sl_write s = W_ShutdownPreparing);
     Some (s\<lparr>sl_write := W_Shutdown\<rparr>)
   }"

definition Stream_AbortShutdownPreparation :: "StreamLifecycle \<Rightarrow> StreamLifecycle option" where
  "Stream_AbortShutdownPreparation s = do {
     check (sl_resource s = R_Open);
     check (sl_write s = W_ShutdownPreparing);
     Some (s\<lparr>sl_write := W_Writable\<rparr>)
   }"

definition Stream_PrepareClose :: "StreamLifecycle \<Rightarrow> bool result \<times> StreamLifecycle" where
  "Stream_PrepareClose s =
     (if sl_resource s = R_Closed then (Ok False, s)
      else if sl_resource s = R_Closing then (Err EBUSY, s)
      else if sl_read s = RD_ShutdownPreparing \<or> sl_write s = W_ShutdownPreparing
      then (Err EBUSY, s)
      else (Ok True, s\<lparr>sl_resource := R_Closing\<rparr>))"

definition Stream_AbortClosePreparation :: "StreamLifecycle \<Rightarrow> StreamLifecycle option" where
  "Stream_AbortClosePreparation s = do {
     check (sl_resource s = R_Closing);
     Some (s\<lparr>sl_resource := R_Open\<rparr>)
   }"

lemmas Stream_queries =
  Stream_ValidateResource_def Stream_ValidateRead_def Stream_ValidateWrite_def
  Stream_IsReadShutdown_def

lemmas Stream_updates =
  Stream_init_def Stream_MarkClosed_def Stream_PrepareCloseRead_def
  Stream_CommitCloseRead_def Stream_AbortCloseReadPreparation_def Stream_PrepareShutdown_def
  Stream_CommitShutdown_def Stream_AbortShutdownPreparation_def Stream_PrepareClose_def
  Stream_AbortClosePreparation_def

section \<open>Reachable states\<close>

text \<open>One call of an adapter that does not abort the process.\<close>

inductive Stream_call :: "StreamLifecycle \<Rightarrow> StreamLifecycle \<Rightarrow> bool" where
  prepare_close_read: "Stream_call s (snd (Stream_PrepareCloseRead pending s))"
| commit_close_read: "Stream_CommitCloseRead s = Some s' \<Longrightarrow> Stream_call s s'"
| abort_close_read: "Stream_AbortCloseReadPreparation s = Some s' \<Longrightarrow> Stream_call s s'"
| prepare_shutdown: "Stream_call s (snd (Stream_PrepareShutdown pending s))"
| commit_shutdown: "Stream_CommitShutdown s = Some s' \<Longrightarrow> Stream_call s s'"
| abort_shutdown: "Stream_AbortShutdownPreparation s = Some s' \<Longrightarrow> Stream_call s s'"
| prepare_close: "Stream_call s (snd (Stream_PrepareClose s))"
| abort_close: "Stream_AbortClosePreparation s = Some s' \<Longrightarrow> Stream_call s s'"
| mark_closed: "Stream_call s (Stream_MarkClosed s)"

definition Stream_inv :: "StreamLifecycle \<Rightarrow> bool" where
  "Stream_inv s \<longleftrightarrow>
     (sl_resource s = R_Closing \<longrightarrow>
        sl_read s \<noteq> RD_ShutdownPreparing \<and> sl_write s \<noteq> W_ShutdownPreparing)"

lemma Stream_inv_init: "Stream_inv Stream_init"
  by (simp add: Stream_inv_def Stream_init_def)

lemma Stream_inv_call: "Stream_call s s' \<Longrightarrow> Stream_inv s \<Longrightarrow> Stream_inv s'"
  by (induction rule: Stream_call.induct)
     (auto simp: Stream_inv_def Stream_updates Stream_queries split: sum.splits if_splits)

lemma Stream_inv_reachable: "Stream_call\<^sup>*\<^sup>* s s' \<Longrightarrow> Stream_inv s \<Longrightarrow> Stream_inv s'"
  by (induction rule: rtranclp_induct) (auto intro: Stream_inv_call)

lemma write_shutdown_call:
  "Stream_call s s' \<Longrightarrow> sl_write s = W_Shutdown \<Longrightarrow> sl_write s' = W_Shutdown"
  by (induction rule: Stream_call.induct)
     (auto simp: Stream_updates Stream_queries split: sum.splits if_splits)

lemma read_shutdown_call:
  "Stream_call s s' \<Longrightarrow> sl_read s = RD_Shutdown \<Longrightarrow> sl_read s' = RD_Shutdown"
  by (induction rule: Stream_call.induct)
     (auto simp: Stream_updates Stream_queries split: sum.splits if_splits)

lemma closed_call:
  "Stream_call s s' \<Longrightarrow> sl_resource s = R_Closed \<Longrightarrow> s' = s"
  by (induction rule: Stream_call.induct)
     (auto simp: Stream_updates Stream_queries split: sum.splits if_splits)

lemma write_shutdown_reachable:
  "Stream_call\<^sup>*\<^sup>* s s' \<Longrightarrow> sl_write s = W_Shutdown \<Longrightarrow> sl_write s' = W_Shutdown"
  by (induction rule: rtranclp_induct) (auto intro: write_shutdown_call)

lemma read_shutdown_reachable:
  "Stream_call\<^sup>*\<^sup>* s s' \<Longrightarrow> sl_read s = RD_Shutdown \<Longrightarrow> sl_read s' = RD_Shutdown"
  by (induction rule: rtranclp_induct) (auto intro: read_shutdown_call)

lemma closed_reachable:
  "Stream_call\<^sup>*\<^sup>* s s' \<Longrightarrow> sl_resource s = R_Closed \<Longrightarrow> s' = s"
  by (induction rule: rtranclp_induct) (auto dest: closed_call)

lemma PrepareShutdown_True:
  "Stream_PrepareShutdown p s = (Inr True, s') \<longleftrightarrow>
     sl_resource s = R_Open \<and> sl_write s = W_Writable \<and> \<not> p \<and>
     s' = s\<lparr>sl_write := W_ShutdownPreparing\<rparr>"
  by (cases "sl_resource s"; cases "sl_write s")
     (auto simp: Stream_PrepareShutdown_def Stream_queries)

lemma PrepareCloseRead_True:
  "Stream_PrepareCloseRead p s = (Inr True, s') \<longleftrightarrow>
     sl_resource s = R_Open \<and> sl_read s = RD_Readable \<and> \<not> p \<and>
     s' = s\<lparr>sl_read := RD_ShutdownPreparing\<rparr>"
  by (cases "sl_resource s"; cases "sl_read s")
     (auto simp: Stream_PrepareCloseRead_def Stream_queries)

section \<open>Properties\<close>

text \<open>
  C27. The write-side shutdown is a transaction. After a successful preparation, writes and close
  are refused with EBUSY while reads are unaffected; abort restores exactly the previous state;
  commit always succeeds and from then on every reachable state refuses writes, with EPIPE while
  the resource is open.
\<close>

theorem stream_shutdown_transaction:
  assumes "Stream_PrepareShutdown p s = (Inr True, s')"
  shows "Stream_ValidateWrite s' = Inl EBUSY \<and> Stream_ValidateRead s' = Stream_ValidateRead s \<and>
         Stream_PrepareClose s' = (Inl EBUSY, s') \<and>
         Stream_AbortShutdownPreparation s' = Some s \<and>
         (\<exists>c. Stream_CommitShutdown s' = Some c \<and> Stream_ValidateWrite c = Inl EPIPE \<and>
              (\<forall>d. Stream_call\<^sup>*\<^sup>* c d \<longrightarrow>
                 Stream_ValidateWrite d \<noteq> Inr () \<and>
                 (sl_resource d = R_Open \<longrightarrow>
                    Stream_ValidateWrite d = Inl EPIPE \<and>
                    Stream_PrepareShutdown q d = (Inr False, d))))"
proof -
  have s: "sl_resource s = R_Open" "sl_write s = W_Writable"
    and s': "s' = s\<lparr>sl_write := W_ShutdownPreparing\<rparr>"
    using assms by (simp_all add: PrepareShutdown_True)
  let ?c = "s\<lparr>sl_write := W_Shutdown\<rparr>"
  have commit: "Stream_CommitShutdown s' = Some ?c" "Stream_ValidateWrite ?c = Inl EPIPE"
    by (simp_all add: s s' Stream_CommitShutdown_def Stream_queries)
  have later: "Stream_ValidateWrite d \<noteq> Inr () \<and> (sl_resource d = R_Open \<longrightarrow>
      Stream_ValidateWrite d = Inl EPIPE \<and> Stream_PrepareShutdown q d = (Inr False, d))"
    if "Stream_call\<^sup>*\<^sup>* ?c d" for d
  proof -
    have "sl_write d = W_Shutdown"
      using write_shutdown_reachable [OF that] by simp
    then show ?thesis
      by (auto simp: Stream_queries Stream_PrepareShutdown_def split: sum.splits if_splits)
  qed
  have "Stream_AbortShutdownPreparation s' = Some s"
    using s by (simp add: s' Stream_AbortShutdownPreparation_def)
  moreover have "Stream_ValidateWrite s' = Inl EBUSY" "Stream_ValidateRead s' = Stream_ValidateRead s"
    "Stream_PrepareClose s' = (Inl EBUSY, s')"
    by (simp_all add: s s' Stream_queries Stream_PrepareClose_def)
  ultimately show ?thesis
    using commit later by blast
qed

theorem stream_shutdown_transaction_witness:
  "Stream_AbortShutdownPreparation (Stream_init\<lparr>sl_write := W_ShutdownPreparing\<rparr>) = Some Stream_init"
  using stream_shutdown_transaction
    [of False Stream_init "Stream_init\<lparr>sl_write := W_ShutdownPreparing\<rparr>"]
  by (simp add: PrepareShutdown_True Stream_init_def)

text \<open>
  C28. Close excludes half-close: a close preparation succeeds only on an open stream with no
  half-close in progress, refuses all reads, writes and half-closes with ECANCELED, aborts back
  to exactly the previous state, and once closed no call of the lifecycle changes the stream
  again.
\<close>

theorem stream_close_transaction:
  assumes "Stream_call\<^sup>*\<^sup>* Stream_init s"
    and "Stream_PrepareClose s = (Inr True, s')"
  shows "sl_read s' \<noteq> RD_ShutdownPreparing \<and> sl_write s' \<noteq> W_ShutdownPreparing \<and>
         Stream_ValidateRead s' = Inl ECANCELED \<and> Stream_ValidateWrite s' = Inl ECANCELED \<and>
         Stream_PrepareShutdown p s' = (Inl ECANCELED, s') \<and>
         Stream_PrepareCloseRead p s' = (Inl ECANCELED, s') \<and>
         Stream_AbortClosePreparation s' = Some s \<and>
         (\<forall>d. Stream_call\<^sup>*\<^sup>* (Stream_MarkClosed s') d \<longrightarrow>
            d = Stream_MarkClosed s' \<and> Stream_ValidateRead d = Inl EBADF \<and>
            Stream_ValidateWrite d = Inl EBADF \<and> Stream_PrepareClose d = (Inr False, d))"
proof -
  have s: "sl_resource s = R_Open" "sl_read s \<noteq> RD_ShutdownPreparing"
    "sl_write s \<noteq> W_ShutdownPreparing" and s': "s' = s\<lparr>sl_resource := R_Closing\<rparr>"
    using assms(2) by (cases "sl_resource s"; auto simp: Stream_PrepareClose_def split: if_splits)+
  have "d = Stream_MarkClosed s' \<and> Stream_ValidateRead d = Inl EBADF \<and>
      Stream_ValidateWrite d = Inl EBADF \<and> Stream_PrepareClose d = (Inr False, d)"
    if "Stream_call\<^sup>*\<^sup>* (Stream_MarkClosed s') d" for d
    using closed_reachable [OF that]
    by (simp add: Stream_MarkClosed_def Stream_queries Stream_PrepareClose_def)
  moreover have "Stream_AbortClosePreparation s' = Some s"
    using s by (simp add: s' Stream_AbortClosePreparation_def)
  ultimately show ?thesis
    using s by (simp add: s' Stream_queries Stream_PrepareShutdown_def Stream_PrepareCloseRead_def)
qed

theorem stream_close_transaction_witness:
  "Stream_ValidateWrite (Stream_init\<lparr>sl_resource := R_Closing\<rparr>) = Inl ECANCELED"
  using stream_close_transaction [of Stream_init "Stream_init\<lparr>sl_resource := R_Closing\<rparr>" False]
  by (simp add: Stream_PrepareClose_def Stream_init_def)

text \<open>
  The checks of the half-close operations can only fail after a close: in every reachable
  state with a half-close in progress on a resource that was not marked closed, both its commit
  and its abort succeed.
\<close>

theorem stream_half_close_checks:
  assumes "Stream_call\<^sup>*\<^sup>* Stream_init s" and "sl_resource s \<noteq> R_Closed"
  shows "(sl_read s = RD_ShutdownPreparing \<longrightarrow>
            Stream_CommitCloseRead s = Some (s\<lparr>sl_read := RD_Shutdown\<rparr>) \<and>
            Stream_AbortCloseReadPreparation s = Some (s\<lparr>sl_read := RD_Readable\<rparr>)) \<and>
         (sl_write s = W_ShutdownPreparing \<longrightarrow>
            Stream_CommitShutdown s = Some (s\<lparr>sl_write := W_Shutdown\<rparr>) \<and>
            Stream_AbortShutdownPreparation s = Some (s\<lparr>sl_write := W_Writable\<rparr>))"
proof -
  have "Stream_inv s"
    using Stream_inv_reachable [OF assms(1) Stream_inv_init] .
  then show ?thesis
    using assms(2) by (cases "sl_resource s") (auto simp: Stream_inv_def Stream_updates)
qed

theorem stream_half_close_checks_witness:
  "Stream_CommitCloseRead (Stream_init\<lparr>sl_read := RD_ShutdownPreparing\<rparr>) =
     Some (Stream_init\<lparr>sl_read := RD_Shutdown\<rparr>)"
proof -
  let ?s = "Stream_init\<lparr>sl_read := RD_ShutdownPreparing\<rparr>"
  have "snd (Stream_PrepareCloseRead False Stream_init) = ?s"
    by (simp add: Stream_updates Stream_queries)
  then have "Stream_call\<^sup>*\<^sup>* Stream_init ?s"
    using Stream_call.prepare_close_read [of Stream_init False] by auto
  then show ?thesis
    using stream_half_close_checks [of ?s] by (simp add: Stream_init_def)
qed

end
