(* ===== verification/Net_Buffer.thy ===== *)
theory Net_Buffer
  imports Alyrn_Prelude
begin

text \<open>
  \<^verbatim>\<open>net/buffer.h\<close>: the byte chain. A block is its memory, with \<open>None\<close> for a byte that was never
  written, and its positions; the intrusive block list is a list of blocks. An \<^verbatim>\<open>iovec\<close> names a
  range of a block by the block's position in the chain and an offset. \<open>Buffer_contents\<close> is the
  abstraction: the readable bytes in order.
\<close>

section \<open>Blocks\<close>

record Block =
  blk_data :: "byte option list"
  blk_capacity :: nat
  blk_read_pos :: nat
  blk_write_pos :: nat
  blk_reserved_for_write :: bool

definition NewBlock :: "nat \<Rightarrow> Block" where
  "NewBlock cap =
     \<lparr>blk_data = replicate cap None, blk_capacity = cap, blk_read_pos = 0, blk_write_pos = 0,
      blk_reserved_for_write = False\<rparr>"

definition Block_ReadableBytes :: "Block \<Rightarrow> nat" where
  "Block_ReadableBytes b = blk_write_pos b - blk_read_pos b"

definition Block_WritableBytes :: "Block \<Rightarrow> nat" where
  "Block_WritableBytes b = blk_capacity b - blk_write_pos b"

text \<open>\<^verbatim>\<open>data[i]\<close> of \<^verbatim>\<open>ReadData()\<close>, and the copy of bytes to \<^verbatim>\<open>WriteData()\<close>.\<close>

definition Block_ReadData :: "Block \<Rightarrow> nat \<Rightarrow> byte option" where
  "Block_ReadData b i = blk_data b ! (blk_read_pos b + i)"

definition Block_store :: "nat \<Rightarrow> byte option list \<Rightarrow> Block \<Rightarrow> Block" where
  "Block_store off bytes b =
     b\<lparr>blk_data := take off (blk_data b) @ bytes @ drop (off + length bytes) (blk_data b)\<rparr>"

definition Block_contents :: "Block \<Rightarrow> byte option list" where
  "Block_contents b = take (Block_ReadableBytes b) (drop (blk_read_pos b) (blk_data b))"

section \<open>The buffer\<close>

record Buffer =
  buf_blocks :: "Block list"
  buf_readable_bytes :: nat
  buf_block_size :: nat
  buf_write_reserved :: bool
  buf_reserved_bytes :: nat

record iovec =
  iov_block :: nat
  iov_off :: nat
  iov_len :: nat

definition kDefaultBlockSize :: nat where
  "kDefaultBlockSize = 16 * 1024"

definition Buffer_new :: "nat \<Rightarrow> Buffer" where
  "Buffer_new block_size =
     \<lparr>buf_blocks = [], buf_readable_bytes = 0, buf_block_size = max block_size 1,
      buf_write_reserved = False, buf_reserved_bytes = 0\<rparr>"

definition Buffer_contents :: "Buffer \<Rightarrow> byte option list" where
  "Buffer_contents s = concat (map Block_contents (buf_blocks s))"

definition Buffer_ReadableBytes :: "Buffer \<Rightarrow> nat" where
  "Buffer_ReadableBytes s = buf_readable_bytes s"

definition Buffer_Empty :: "Buffer \<Rightarrow> bool" where
  "Buffer_Empty s \<longleftrightarrow> buf_readable_bytes s = 0"

fun FirstReadableBlock :: "Block list \<Rightarrow> Block option" where
  "FirstReadableBlock [] = None"
| "FirstReadableBlock (b # bs) =
     (if Block_ReadableBytes b > 0 then Some b else FirstReadableBlock bs)"

definition Buffer_ContiguousView :: "Buffer \<Rightarrow> byte option list" where
  "Buffer_ContiguousView s =
     (case FirstReadableBlock (buf_blocks s) of None \<Rightarrow> [] | Some b \<Rightarrow> Block_contents b)"

subsection \<open>Search\<close>

text \<open>The inner loop of \<^verbatim>\<open>MatchesFrom\<close>: \<open>None\<close> is its \<^verbatim>\<open>return false\<close>.\<close>

function MatchesFrom_block :: "Block \<Rightarrow> nat \<Rightarrow> byte list \<Rightarrow> nat \<Rightarrow> nat option" where
  "MatchesFrom_block b index needle matched =
     (if index < Block_ReadableBytes b \<and> matched < length needle then
        (if Block_ReadData b index \<noteq> Some (needle ! matched) then None
         else MatchesFrom_block b (index + 1) needle (matched + 1))
      else Some matched)"
  by pat_completeness auto
termination
  by (relation "measure (\<lambda>(b, index, needle, matched). length needle - matched)") auto

fun MatchesFrom_loop :: "Block list \<Rightarrow> nat \<Rightarrow> byte list \<Rightarrow> nat \<Rightarrow> bool" where
  "MatchesFrom_loop [] index needle matched = False"
| "MatchesFrom_loop (b # bs) index needle matched =
     (case MatchesFrom_block b index needle matched of
        None \<Rightarrow> False
      | Some matched' \<Rightarrow>
          if matched' = length needle then True else MatchesFrom_loop bs 0 needle matched')"

definition MatchesFrom :: "Block list \<Rightarrow> nat \<Rightarrow> byte list \<Rightarrow> bool" where
  "MatchesFrom bs index needle = MatchesFrom_loop bs index needle 0"

text \<open>
  The inner loop of \<^verbatim>\<open>Find\<close> over one block, given with the blocks after it: \<open>Some r\<close> is a
  \<^verbatim>\<open>return r\<close> from the loop, \<open>None\<close> is its end.
\<close>

function Find_block ::
    "Block \<Rightarrow> Block list \<Rightarrow> byte list \<Rightarrow> nat \<Rightarrow> nat \<Rightarrow> nat \<Rightarrow> nat option option" where
  "Find_block b bs needle last_start offset i =
     (if i < Block_ReadableBytes b then
        (if offset + i > last_start then Some None
         else if Block_ReadData b i = Some (needle ! 0) \<and> MatchesFrom (b # bs) i needle
         then Some (Some (offset + i))
         else Find_block b bs needle last_start offset (i + 1))
      else None)"
  by pat_completeness auto
termination
  by (relation "measure (\<lambda>(b, bs, needle, last_start, offset, i). Block_ReadableBytes b - i)") auto

fun Find_loop :: "Block list \<Rightarrow> byte list \<Rightarrow> nat \<Rightarrow> nat \<Rightarrow> nat \<Rightarrow> nat option" where
  "Find_loop [] needle from last_start offset = None"
| "Find_loop (b # bs) needle from last_start offset =
     (case Find_block b bs needle last_start offset (if from > offset then from - offset else 0) of
        Some r \<Rightarrow> r
      | None \<Rightarrow> Find_loop bs needle from last_start (offset + Block_ReadableBytes b))"

definition Buffer_Find :: "byte list \<Rightarrow> nat \<Rightarrow> Buffer \<Rightarrow> nat option" where
  "Buffer_Find needle from s =
     (if from > buf_readable_bytes s \<or> length needle > buf_readable_bytes s - from then None
      else if needle = [] then Some from
      else Find_loop (buf_blocks s) needle from (buf_readable_bytes s - length needle) 0)"

subsection \<open>Write reservation\<close>

definition Buffer_ClearWriteReservation :: "Buffer \<Rightarrow> Buffer" where
  "Buffer_ClearWriteReservation s =
     (if \<not> buf_write_reserved s then s
      else s\<lparr>buf_blocks := map (\<lambda>b. b\<lparr>blk_reserved_for_write := False\<rparr>) (buf_blocks s),
             buf_write_reserved := False, buf_reserved_bytes := 0\<rparr>)"

function EnsureTailWritable_loop ::
    "nat \<Rightarrow> nat \<Rightarrow> nat \<Rightarrow> nat \<Rightarrow> nat \<Rightarrow> Block list \<Rightarrow> Block list" where
  "EnsureTailWritable_loop bsize hint max_iov writable reserved blocks =
     (if writable < hint \<and> reserved < max_iov then
        let block = NewBlock (max bsize (hint - writable)) in
        EnsureTailWritable_loop bsize hint max_iov
          (writable + Block_WritableBytes block) (reserved + 1)
          (blocks @ [block\<lparr>blk_reserved_for_write := True\<rparr>])
      else blocks)"
  by pat_completeness auto
termination
  by (relation "measure (\<lambda>(bsize, hint, max_iov, writable, reserved, blocks). max_iov - reserved)") auto

definition EnsureTailWritable :: "nat \<Rightarrow> nat \<Rightarrow> nat \<Rightarrow> Block list \<Rightarrow> Block list" where
  "EnsureTailWritable bsize hint max_iov blocks =
     (if blocks \<noteq> [] \<and> Block_WritableBytes (last blocks) > 0
      then EnsureTailWritable_loop bsize hint max_iov (Block_WritableBytes (last blocks)) 1
             (butlast blocks @ [(last blocks)\<lparr>blk_reserved_for_write := True\<rparr>])
      else EnsureTailWritable_loop bsize hint max_iov 0 0 blocks)"

text \<open>\<open>k\<close> is the position of the block in the chain and \<open>count\<close> the entries filled so far.\<close>

fun FillReservedWriteIov_loop :: "nat \<Rightarrow> nat \<Rightarrow> nat \<Rightarrow> Block list \<Rightarrow> iovec list" where
  "FillReservedWriteIov_loop slots count k [] = []"
| "FillReservedWriteIov_loop slots count k (b # bs) =
     (if \<not> blk_reserved_for_write b then FillReservedWriteIov_loop slots count (k + 1) bs
      else if count = slots then []
      else if Block_WritableBytes b = 0 then FillReservedWriteIov_loop slots count (k + 1) bs
      else \<lparr>iov_block = k, iov_off = blk_write_pos b, iov_len = Block_WritableBytes b\<rparr>
           # FillReservedWriteIov_loop slots (count + 1) (k + 1) bs)"

definition FillReservedWriteIov :: "nat \<Rightarrow> Buffer \<Rightarrow> iovec list" where
  "FillReservedWriteIov slots s = FillReservedWriteIov_loop slots 0 0 (buf_blocks s)"

definition Buffer_PrepareWrite :: "nat \<Rightarrow> nat \<Rightarrow> Buffer \<Rightarrow> (iovec list \<times> Buffer) option" where
  "Buffer_PrepareWrite hint0 out_size s = do {
     check (\<not> buf_write_reserved s);
     if out_size = 0 then Some ([], s)
     else
       let hint = (if hint0 = 0 then buf_block_size s else hint0);
           s1 = s\<lparr>buf_reserved_bytes := 0, buf_write_reserved := True,
                  buf_blocks := EnsureTailWritable (buf_block_size s) hint out_size (buf_blocks s)\<rparr>;
           iovs = FillReservedWriteIov out_size s1;
           s2 = s1\<lparr>buf_reserved_bytes := sum_list (map iov_len iovs)\<rparr>
       in Some (iovs, if iovs = [] then Buffer_ClearWriteReservation s2 else s2)
   }"

text \<open>The overload that allocates its own vector collects the ranges and counts in one loop.\<close>

fun PrepareWriteVector_loop ::
    "nat \<Rightarrow> nat \<Rightarrow> Block list \<Rightarrow> iovec list \<Rightarrow> nat \<Rightarrow> iovec list \<times> nat" where
  "PrepareWriteVector_loop max_iov k [] out reserved = (out, reserved)"
| "PrepareWriteVector_loop max_iov k (b # bs) out reserved =
     (if \<not> blk_reserved_for_write b then PrepareWriteVector_loop max_iov (k + 1) bs out reserved
      else if length out = max_iov then (out, reserved)
      else if Block_WritableBytes b = 0
      then PrepareWriteVector_loop max_iov (k + 1) bs out reserved
      else PrepareWriteVector_loop max_iov (k + 1) bs
             (out @ [\<lparr>iov_block = k, iov_off = blk_write_pos b, iov_len = Block_WritableBytes b\<rparr>])
             (reserved + Block_WritableBytes b))"

definition Buffer_PrepareWriteVector ::
    "nat \<Rightarrow> nat \<Rightarrow> Buffer \<Rightarrow> (iovec list \<times> Buffer) option" where
  "Buffer_PrepareWriteVector hint0 max_iov s = do {
     check (\<not> buf_write_reserved s);
     if max_iov = 0 then Some ([], s)
     else
       let hint = (if hint0 = 0 then buf_block_size s else hint0);
           s1 = s\<lparr>buf_reserved_bytes := 0, buf_write_reserved := True,
                  buf_blocks := EnsureTailWritable (buf_block_size s) hint max_iov (buf_blocks s)\<rparr>;
           (out, reserved) = PrepareWriteVector_loop max_iov 0 (buf_blocks s1) [] 0;
           s2 = s1\<lparr>buf_reserved_bytes := reserved\<rparr>
       in Some (out, if out = [] then Buffer_ClearWriteReservation s2 else s2)
   }"

definition Buffer_ReservedWriteIov :: "nat \<Rightarrow> Buffer \<Rightarrow> iovec list option" where
  "Buffer_ReservedWriteIov out_size s = do {
     check (buf_write_reserved s);
     Some (FillReservedWriteIov out_size s)
   }"

definition Buffer_TryPrepareWriteOne :: "nat \<Rightarrow> Buffer \<Rightarrow> (iovec option \<times> Buffer) option" where
  "Buffer_TryPrepareWriteOne hint0 s = do {
     check (\<not> buf_write_reserved s);
     let hint = (if hint0 = 0 then buf_block_size s else hint0);
     if buf_blocks s \<noteq> [] \<and> Block_WritableBytes (last (buf_blocks s)) < hint
     then Some (None, s)
     else
       let blocks = (if buf_blocks s = [] then [NewBlock (max (buf_block_size s) hint)]
                     else buf_blocks s);
           tail = (last blocks)\<lparr>blk_reserved_for_write := True\<rparr>;
           bytes = Block_WritableBytes tail
       in do {
         check (bytes \<ge> hint);
         Some (Some \<lparr>iov_block = length blocks - 1, iov_off = blk_write_pos tail, iov_len = bytes\<rparr>,
               s\<lparr>buf_reserved_bytes := bytes, buf_write_reserved := True,
                 buf_blocks := butlast blocks @ [tail]\<rparr>)
       }
   }"

text \<open>The loop of \<^verbatim>\<open>CommitWrite\<close> returns the blocks and the bytes left over.\<close>

fun CommitWrite_loop :: "nat \<Rightarrow> Block list \<Rightarrow> Block list \<times> nat" where
  "CommitWrite_loop remaining [] = ([], remaining)"
| "CommitWrite_loop remaining (b # bs) =
     (if \<not> blk_reserved_for_write b then
        let (bs', r) = CommitWrite_loop remaining bs in (b # bs', r)
      else if remaining = 0 then (b # bs, 0)
      else
        let m = min remaining (Block_WritableBytes b);
            (bs', r) = CommitWrite_loop (remaining - m) bs
        in (b\<lparr>blk_write_pos := blk_write_pos b + m\<rparr> # bs', r))"

definition Buffer_CommitWrite :: "nat \<Rightarrow> Buffer \<Rightarrow> Buffer option" where
  "Buffer_CommitWrite n s = do {
     check (buf_write_reserved s);
     check (n \<le> buf_reserved_bytes s);
     let (bs, remaining) = CommitWrite_loop n (buf_blocks s);
     check (remaining = 0);
     Some (Buffer_ClearWriteReservation
             (s\<lparr>buf_blocks := bs, buf_readable_bytes := buf_readable_bytes s + (n - remaining)\<rparr>))
   }"

definition Buffer_AbortWrite :: "Buffer \<Rightarrow> Buffer" where
  "Buffer_AbortWrite s = Buffer_ClearWriteReservation s"

subsection \<open>Append, drain, linearize, move\<close>

definition EnsureOneTailBlock :: "nat \<Rightarrow> nat \<Rightarrow> Block list \<Rightarrow> Block list" where
  "EnsureOneTailBlock bsize hint blocks =
     (if blocks \<noteq> [] \<and> Block_WritableBytes (last blocks) > 0 then blocks
      else blocks @ [NewBlock (max bsize hint)])"

lemma EnsureOneTailBlock_writable:
  "hint > 0 \<Longrightarrow> Block_WritableBytes (last (EnsureOneTailBlock bsize hint blocks)) > 0"
  by (auto simp: EnsureOneTailBlock_def NewBlock_def Block_WritableBytes_def)

function Append_loop :: "byte list \<Rightarrow> Buffer \<Rightarrow> Buffer" where
  "Append_loop bytes s =
     (if bytes = [] then s
      else
        let blocks = EnsureOneTailBlock (buf_block_size s) (length bytes) (buf_blocks s);
            tail = last blocks;
            n = min (length bytes) (Block_WritableBytes tail);
            tail' = (Block_store (blk_write_pos tail) (map Some (take n bytes)) tail)
                      \<lparr>blk_write_pos := blk_write_pos tail + n\<rparr>
        in Append_loop (drop n bytes)
             (s\<lparr>buf_blocks := butlast blocks @ [tail'],
                buf_readable_bytes := buf_readable_bytes s + n\<rparr>))"
  by pat_completeness auto
termination
proof (relation "measure (\<lambda>(bytes, s). length bytes)", goal_cases)
  case (2 bytes s blocks tail n tail')
  then have "n > 0"
    using EnsureOneTailBlock_writable [of "length bytes" "buf_block_size s" "buf_blocks s"] by simp
  with 2 show ?case by simp
qed simp

definition Buffer_Append :: "byte list \<Rightarrow> Buffer \<Rightarrow> Buffer option" where
  "Buffer_Append bytes s = do {
     check (\<not> buf_write_reserved s);
     Some (Append_loop bytes s)
   }"

function DrainCommitted_loop :: "nat \<Rightarrow> Block list \<Rightarrow> nat \<Rightarrow> Block list \<times> nat" where
  "DrainCommitted_loop n [] readable = ([], readable)"
| "DrainCommitted_loop n (front # bs) readable =
     (if n > 0 then
        let m = min n (Block_ReadableBytes front);
            front' = front\<lparr>blk_read_pos := blk_read_pos front + m\<rparr>
        in DrainCommitted_loop (n - m)
             (if Block_ReadableBytes front' = 0 then bs else front' # bs) (readable - m)
      else (front # bs, readable))"
  by pat_completeness auto
termination
  by (relation "measure (\<lambda>(n, bs, readable). n + length bs)")
     (auto simp: Block_ReadableBytes_def min_def split: if_splits)

definition Buffer_DrainCommitted :: "nat \<Rightarrow> Buffer \<Rightarrow> Buffer" where
  "Buffer_DrainCommitted n s =
     (let (bs, readable) = DrainCommitted_loop n (buf_blocks s) (buf_readable_bytes s)
      in s\<lparr>buf_blocks := bs, buf_readable_bytes := readable\<rparr>)"

definition Buffer_Drain :: "nat \<Rightarrow> Buffer \<Rightarrow> Buffer option" where
  "Buffer_Drain n s = do {
     check (\<not> buf_write_reserved s);
     Some (Buffer_DrainCommitted (min n (buf_readable_bytes s)) s)
   }"

definition Buffer_Clear :: "Buffer \<Rightarrow> Buffer" where
  "Buffer_Clear s =
     (Buffer_ClearWriteReservation s)\<lparr>buf_blocks := [], buf_readable_bytes := 0\<rparr>"

definition Buffer_DrainAll :: "Buffer \<Rightarrow> Buffer option" where
  "Buffer_DrainAll s = do {
     check (\<not> buf_write_reserved s);
     Some (Buffer_Clear s)
   }"

text \<open>The copy loop of \<^verbatim>\<open>Linearize\<close>; a null front block is \<open>None\<close>.\<close>

function Linearize_loop :: "nat \<Rightarrow> nat \<Rightarrow> Block \<Rightarrow> Block list \<Rightarrow> (Block \<times> Block list) option" where
  "Linearize_loop n copied merged [] = (if copied < n then None else Some (merged, []))"
| "Linearize_loop n copied merged (front # bs) =
     (if copied < n then
        let m = min (Block_ReadableBytes front) (n - copied);
            merged' = (Block_store (blk_write_pos merged) (take m (Block_contents front)) merged)
                        \<lparr>blk_write_pos := blk_write_pos merged + m\<rparr>;
            front' = front\<lparr>blk_read_pos := blk_read_pos front + m\<rparr>
        in Linearize_loop n (copied + m) merged'
             (if Block_ReadableBytes front' = 0 then bs else front' # bs)
      else Some (merged, front # bs))"
  by pat_completeness auto
termination
  by (relation "measure (\<lambda>(n, copied, merged, bs). (n - copied) + length bs)")
     (auto simp: Block_ReadableBytes_def min_def split: if_splits)

definition Buffer_Linearize :: "nat \<Rightarrow> Buffer \<Rightarrow> (byte option list \<times> Buffer) option" where
  "Buffer_Linearize n s = do {
     check (\<not> buf_write_reserved s);
     check (n \<le> buf_readable_bytes s);
     if n = 0 then Some ([], s)
     else
       (case dropWhile (\<lambda>b. \<not> Block_ReadableBytes b > 0) (buf_blocks s) of
          [] \<Rightarrow> None
        | first # rest \<Rightarrow>
            if Block_ReadableBytes first \<ge> n
            then Some (take n (Block_contents first), s\<lparr>buf_blocks := first # rest\<rparr>)
            else do {
              (merged, bs) \<leftarrow> Linearize_loop n 0 (NewBlock (max (buf_block_size s) n)) (first # rest);
              Some (take n (Block_contents merged), s\<lparr>buf_blocks := merged # bs\<rparr>)
            })
   }"

fun ReadableIov_loop :: "nat \<Rightarrow> nat \<Rightarrow> Block list \<Rightarrow> iovec list \<Rightarrow> iovec list" where
  "ReadableIov_loop max_iov k [] out = out"
| "ReadableIov_loop max_iov k (b # bs) out =
     (if length out \<ge> max_iov then out
      else if Block_ReadableBytes b = 0 then ReadableIov_loop max_iov (k + 1) bs out
      else ReadableIov_loop max_iov (k + 1) bs
             (out @ [\<lparr>iov_block = k, iov_off = blk_read_pos b, iov_len = Block_ReadableBytes b\<rparr>]))"

definition Buffer_ReadableIov :: "nat \<Rightarrow> Buffer \<Rightarrow> iovec list" where
  "Buffer_ReadableIov max_iov s = ReadableIov_loop max_iov 0 (buf_blocks s) []"

text \<open>Move construction and assignment return the new object and the emptied source.\<close>

definition Buffer_MoveFromObject :: "Buffer \<Rightarrow> Buffer \<Rightarrow> (Buffer \<times> Buffer) option" where
  "Buffer_MoveFromObject self other = do {
     check (\<not> buf_write_reserved other);
     Some (self\<lparr>buf_block_size := buf_block_size other,
                buf_readable_bytes := buf_readable_bytes other,
                buf_write_reserved := False, buf_reserved_bytes := 0,
                buf_blocks := buf_blocks self @ buf_blocks other\<rparr>,
           other\<lparr>buf_readable_bytes := 0, buf_write_reserved := False,
                 buf_reserved_bytes := 0, buf_blocks := []\<rparr>)
   }"

definition Buffer_MoveAssign :: "Buffer \<Rightarrow> Buffer \<Rightarrow> (Buffer \<times> Buffer) option" where
  "Buffer_MoveAssign self other = do {
     check (\<not> buf_write_reserved self);
     Buffer_MoveFromObject (Buffer_Clear self) other
   }"

declare MatchesFrom_block.simps [simp del] Find_block.simps [simp del]
declare EnsureTailWritable_loop.simps [simp del] Append_loop.simps [simp del]
declare DrainCommitted_loop.simps(2) [simp del] Linearize_loop.simps(2) [simp del]

section \<open>Block lemmas\<close>

definition Block_wf :: "Block \<Rightarrow> bool" where
  "Block_wf b \<longleftrightarrow>
     blk_read_pos b \<le> blk_write_pos b \<and> blk_write_pos b \<le> blk_capacity b \<and>
     length (blk_data b) = blk_capacity b"

lemma Block_wf_new [simp]: "Block_wf (NewBlock cap)"
  by (simp add: Block_wf_def NewBlock_def)

lemma Block_contents_new [simp]: "Block_contents (NewBlock cap) = []"
  by (simp add: Block_contents_def Block_ReadableBytes_def NewBlock_def)

lemma NewBlock_simps [simp]:
  "Block_WritableBytes (NewBlock cap) = cap" "blk_write_pos (NewBlock cap) = 0"
  "blk_reserved_for_write (NewBlock cap) = False" "Block_ReadableBytes (NewBlock cap) = 0"
  by (simp_all add: Block_WritableBytes_def Block_ReadableBytes_def NewBlock_def)

lemma Block_flag [simp]:
  "Block_wf (b\<lparr>blk_reserved_for_write := v\<rparr>) = Block_wf b"
  "Block_contents (b\<lparr>blk_reserved_for_write := v\<rparr>) = Block_contents b"
  "Block_WritableBytes (b\<lparr>blk_reserved_for_write := v\<rparr>) = Block_WritableBytes b"
  "Block_ReadableBytes (b\<lparr>blk_reserved_for_write := v\<rparr>) = Block_ReadableBytes b"
  by (simp_all add: Block_wf_def Block_contents_def Block_WritableBytes_def Block_ReadableBytes_def)

lemma length_Block_contents: "Block_wf b \<Longrightarrow> length (Block_contents b) = Block_ReadableBytes b"
  by (auto simp: Block_wf_def Block_contents_def Block_ReadableBytes_def)

lemma Block_ReadData_nth:
  "Block_wf b \<Longrightarrow> i < Block_ReadableBytes b \<Longrightarrow> Block_ReadData b i = Block_contents b ! i"
  by (auto simp: Block_wf_def Block_contents_def Block_ReadableBytes_def Block_ReadData_def)

lemma Block_contents_Nil_iff:
  "Block_wf b \<Longrightarrow> Block_contents b = [] \<longleftrightarrow> Block_ReadableBytes b = 0"
  using length_Block_contents [of b] by (metis length_0_conv)

text \<open>Writing at the write position and advancing it appends to the readable bytes.\<close>

definition Block_push :: "byte option list \<Rightarrow> Block \<Rightarrow> Block" where
  "Block_push xs b =
     (Block_store (blk_write_pos b) xs b)\<lparr>blk_write_pos := blk_write_pos b + length xs\<rparr>"

lemma Block_push_wf:
  "Block_wf b \<Longrightarrow> length xs \<le> Block_WritableBytes b \<Longrightarrow> Block_wf (Block_push xs b)"
  by (auto simp: Block_wf_def Block_push_def Block_store_def Block_WritableBytes_def)

lemma Block_push_contents:
  assumes "Block_wf b" and "length xs \<le> Block_WritableBytes b"
  shows "Block_contents (Block_push xs b) = Block_contents b @ xs"
  using assms
  by (auto simp: Block_wf_def Block_push_def Block_store_def Block_WritableBytes_def
      Block_contents_def Block_ReadableBytes_def drop_take)

lemma Block_push_simps [simp]:
  "blk_reserved_for_write (Block_push xs b) = blk_reserved_for_write b"
  "blk_capacity (Block_push xs b) = blk_capacity b"
  "blk_write_pos (Block_push xs b) = blk_write_pos b + length xs"
  "blk_read_pos (Block_push xs b) = blk_read_pos b"
  by (simp_all add: Block_push_def Block_store_def)

lemma Block_push_writable:
  "Block_WritableBytes (Block_push xs b) = Block_WritableBytes b - length xs"
  by (simp add: Block_WritableBytes_def)

lemma Block_store_simps [simp]:
  "blk_reserved_for_write (Block_store off xs b) = blk_reserved_for_write b"
  "Block_WritableBytes (Block_store off xs b) = Block_WritableBytes b"
  "blk_write_pos (Block_store off xs b) = blk_write_pos b"
  "Block_store off [] b = b"
  by (simp_all add: Block_store_def Block_WritableBytes_def)

text \<open>Advancing the read position drops readable bytes.\<close>

lemma Block_drain:
  assumes "Block_wf b" and "m \<le> Block_ReadableBytes b"
  shows "Block_wf (b\<lparr>blk_read_pos := blk_read_pos b + m\<rparr>)"
    and "Block_contents (b\<lparr>blk_read_pos := blk_read_pos b + m\<rparr>) = drop m (Block_contents b)"
    and "Block_ReadableBytes (b\<lparr>blk_read_pos := blk_read_pos b + m\<rparr>) = Block_ReadableBytes b - m"
  using assms
  by (auto simp: Block_wf_def Block_contents_def Block_ReadableBytes_def drop_take add.commute)

abbreviation chain :: "Block list \<Rightarrow> byte option list" where
  "chain bs \<equiv> concat (map Block_contents bs)"

section \<open>Invariant\<close>

definition reserved_suffix :: "Block list \<Rightarrow> Block list" where
  "reserved_suffix bs = dropWhile (\<lambda>b. \<not> blk_reserved_for_write b) bs"

definition Buffer_inv :: "Buffer \<Rightarrow> bool" where
  "Buffer_inv s \<longleftrightarrow>
     list_all Block_wf (buf_blocks s) \<and> buf_block_size s > 0 \<and>
     buf_readable_bytes s = length (Buffer_contents s) \<and>
     (if buf_write_reserved s
      then list_all blk_reserved_for_write (reserved_suffix (buf_blocks s)) \<and>
           list_all (\<lambda>b. Block_ReadableBytes b = 0) (tl (reserved_suffix (buf_blocks s))) \<and>
           buf_reserved_bytes s =
             sum_list (map Block_WritableBytes (reserved_suffix (buf_blocks s)))
      else list_all (\<lambda>b. \<not> blk_reserved_for_write b) (buf_blocks s) \<and> buf_reserved_bytes s = 0)"

lemma Buffer_inv_new: "Buffer_inv (Buffer_new n) \<and> Buffer_contents (Buffer_new n) = []"
  by (simp add: Buffer_inv_def Buffer_new_def Buffer_contents_def)

section \<open>Append and drain\<close>

lemma EnsureOneTailBlock_keeps:
  assumes "list_all Block_wf bs" and "list_all (\<lambda>b. \<not> blk_reserved_for_write b) bs"
  shows "list_all Block_wf (EnsureOneTailBlock bsize hint bs) \<and>
         list_all (\<lambda>b. \<not> blk_reserved_for_write b) (EnsureOneTailBlock bsize hint bs) \<and>
         EnsureOneTailBlock bsize hint bs \<noteq> [] \<and>
         chain (EnsureOneTailBlock bsize hint bs) = chain bs"
  using assms by (auto simp: EnsureOneTailBlock_def)

lemma Append_step:
  assumes "Buffer_inv s" and "\<not> buf_write_reserved s"
    and "bs = EnsureOneTailBlock (buf_block_size s) hint (buf_blocks s)"
    and "length xs \<le> Block_WritableBytes (last bs)"
    and "s' = s\<lparr>buf_blocks := butlast bs @ [Block_push xs (last bs)],
                buf_readable_bytes := buf_readable_bytes s + length xs\<rparr>"
  shows "Buffer_inv s' \<and> Buffer_contents s' = Buffer_contents s @ xs"
proof -
  have bs: "list_all Block_wf bs" "list_all (\<lambda>b. \<not> blk_reserved_for_write b) bs" "bs \<noteq> []"
    "chain bs = Buffer_contents s"
    using EnsureOneTailBlock_keeps [of "buf_blocks s"] assms(1,2,3)
    by (auto simp: Buffer_inv_def Buffer_contents_def)
  obtain pre t where t: "bs = pre @ [t]"
    using bs(3) by (metis append_butlast_last_id)
  have "Block_wf t" "length xs \<le> Block_WritableBytes t"
    using bs(1) assms(4) t by auto
  then have "Block_wf (Block_push xs t)" "chain (pre @ [Block_push xs t]) = Buffer_contents s @ xs"
    using bs(4) t by (simp_all add: Block_push_wf Block_push_contents flip: append_assoc)
  then show ?thesis
    using assms(1,2,5) bs(1,2) t by (auto simp: Buffer_inv_def Buffer_contents_def)
qed

lemma Append_loop_correct:
  assumes "Buffer_inv s" and "\<not> buf_write_reserved s"
  shows "Buffer_inv (Append_loop bytes s) \<and> \<not> buf_write_reserved (Append_loop bytes s) \<and>
         Buffer_contents (Append_loop bytes s) = Buffer_contents s @ map Some bytes"
  using assms
proof (induction bytes s rule: Append_loop.induct)
  case (1 bytes s)
  show ?case
  proof (cases "bytes = []")
    case True
    then show ?thesis using "1.prems" by (simp add: Append_loop.simps)
  next
    case False
    define bs where "bs = EnsureOneTailBlock (buf_block_size s) (length bytes) (buf_blocks s)"
    define n where "n = min (length bytes) (Block_WritableBytes (last bs))"
    define xs where "xs = map Some (take n bytes)"
    define s' where "s' = s\<lparr>buf_blocks := butlast bs @ [Block_push xs (last bs)],
                            buf_readable_bytes := buf_readable_bytes s + n\<rparr>"
    have len: "length xs = n"
      by (simp add: xs_def n_def)
    have unfold: "Append_loop bytes s = Append_loop (drop n bytes) s'"
      using False len
      by (subst Append_loop.simps)
         (simp add: Let_def bs_def n_def xs_def s'_def Block_push_def)
    have step: "Buffer_inv s' \<and> Buffer_contents s' = Buffer_contents s @ xs"
      using Append_step [OF "1.prems" bs_def, of xs s'] len by (simp add: s'_def n_def)
    have "Buffer_inv (Append_loop (drop n bytes) s') \<and>
        \<not> buf_write_reserved (Append_loop (drop n bytes) s') \<and>
        Buffer_contents (Append_loop (drop n bytes) s') = Buffer_contents s' @ map Some (drop n bytes)"
      using "1.IH" [OF False bs_def refl n_def refl] step "1.prems"(2) len
      by (simp add: s'_def xs_def Block_push_def)
    then show ?thesis
      using unfold step by (simp add: xs_def flip: map_append)
  qed
qed

lemma DrainCommitted_loop_correct:
  assumes "list_all Block_wf bs" and "n \<le> length (chain bs)"
    and "DrainCommitted_loop n bs r = (bs', r')"
  shows "list_all Block_wf bs' \<and> chain bs' = drop n (chain bs) \<and> r' = r - n \<and>
         (list_all (\<lambda>b. \<not> blk_reserved_for_write b) bs \<longrightarrow>
          list_all (\<lambda>b. \<not> blk_reserved_for_write b) bs')"
  using assms
proof (induction n bs r arbitrary: bs' r' rule: DrainCommitted_loop.induct)
  case (2 n front bs r)
  show ?case
  proof (cases "n > 0")
    case True
    define m where "m = min n (Block_ReadableBytes front)"
    define front' where "front' = front\<lparr>blk_read_pos := blk_read_pos front + m\<rparr>"
    define rest where "rest = (if Block_ReadableBytes front' = 0 then bs else front' # bs)"
    have wf: "Block_wf front" "list_all Block_wf bs"
      using "2.prems"(1) by simp_all
    have drain: "Block_wf front'" "Block_contents front' = drop m (Block_contents front)"
      "Block_ReadableBytes front' = Block_ReadableBytes front - m"
      using Block_drain [OF wf(1), of m] by (simp_all add: m_def front'_def)
    have rest: "list_all Block_wf rest" "chain rest = Block_contents front' @ chain bs"
      using wf drain(1) Block_contents_Nil_iff [OF drain(1)] by (auto simp: rest_def)
    have len: "length (Block_contents front) = Block_ReadableBytes front"
      by (rule length_Block_contents [OF wf(1)])
    have chain: "chain rest = drop m (chain (front # bs))"
      using rest(2) drain(2) len by (simp add: m_def)
    have call: "DrainCommitted_loop (n - m) rest (r - m) = (bs', r')"
      using "2.prems"(3) True
      unfolding DrainCommitted_loop.simps(2) Let_def m_def front'_def rest_def by simp
    have "n - m \<le> length (chain rest)"
      using "2.prems"(2) chain by simp
    note IH = "2.IH" [OF True m_def front'_def, folded rest_def, OF rest(1) this call]
    have "m \<le> n" by (simp add: m_def)
    then have "drop (n - m) (chain rest) = drop n (chain (front # bs))" "r - m - (n - m) = r - n"
      unfolding chain by (simp_all only: drop_drop le_add_diff_inverse2 diff_diff_left le_add_diff_inverse)
    moreover have "list_all (\<lambda>b. \<not> blk_reserved_for_write b) rest"
      if "list_all (\<lambda>b. \<not> blk_reserved_for_write b) (front # bs)"
      using that by (simp add: rest_def front'_def)
    ultimately show ?thesis
      using IH by metis
  next
    case False
    with "2.prems" show ?thesis by (auto simp: DrainCommitted_loop.simps(2))
  qed
qed auto

lemma Drain_correct:
  assumes "Buffer_inv s" and "\<not> buf_write_reserved s"
  shows "\<exists>s'. Buffer_Drain n s = Some s' \<and> Buffer_inv s' \<and> \<not> buf_write_reserved s' \<and>
              Buffer_contents s' = drop n (Buffer_contents s)"
proof -
  let ?n = "min n (buf_readable_bytes s)"
  obtain bs r where loop: "DrainCommitted_loop ?n (buf_blocks s) (buf_readable_bytes s) = (bs, r)"
    by fastforce
  have inv: "list_all Block_wf (buf_blocks s)" "?n \<le> length (chain (buf_blocks s))"
    "buf_readable_bytes s = length (chain (buf_blocks s))"
    using assms(1) by (auto simp: Buffer_inv_def Buffer_contents_def)
  note drained = DrainCommitted_loop_correct [OF inv(1,2) loop]
  have "list_all (\<lambda>b. \<not> blk_reserved_for_write b) bs"
    using drained assms by (auto simp: Buffer_inv_def)
  moreover have "chain bs = drop n (chain (buf_blocks s))"
    using drained inv(3) by (simp add: min_def)
  ultimately show ?thesis
    using assms drained loop inv(3)
    by (auto simp: Buffer_Drain_def Buffer_DrainCommitted_def Buffer_inv_def Buffer_contents_def)
qed

section \<open>Search\<close>

text \<open>\<open>occurs xs k ys\<close>: the list \<open>xs\<close> stands in \<open>ys\<close> at position \<open>k\<close>.\<close>

definition occurs :: "'a list \<Rightarrow> nat \<Rightarrow> 'a list \<Rightarrow> bool" where
  "occurs xs k ys \<longleftrightarrow> k + length xs \<le> length ys \<and> take (length xs) (drop k ys) = xs"

abbreviation starts :: "'a list \<Rightarrow> 'a list \<Rightarrow> bool" where
  "starts xs ys \<equiv> take (length xs) ys = xs"

lemma starts_Cons: "starts (x # xs) ys \<longleftrightarrow> (\<exists>zs. ys = x # zs \<and> starts xs zs)"
  by (cases ys) auto

lemma starts_append_short:
  "length as < length xs \<Longrightarrow>
   starts xs (as @ bs) \<longleftrightarrow> as = take (length as) xs \<and> starts (drop (length as) xs) bs"
  by (simp add: append_eq_conv_conj)

lemma MatchesFrom_block_correct:
  assumes "Block_wf b" and "index \<le> Block_ReadableBytes b" and "matched \<le> length needle"
  shows "MatchesFrom_block b index needle matched =
    (let rest = drop index (Block_contents b); want = map Some (drop matched needle);
         k = min (length rest) (length want)
     in if take k rest = take k want then Some (matched + k) else None)"
  using assms
proof (induction b index needle matched rule: MatchesFrom_block.induct)
  case (1 b index needle matched)
  have len: "length (Block_contents b) = Block_ReadableBytes b"
    by (rule length_Block_contents [OF "1.prems"(1)])
  show ?case
  proof (cases "index < Block_ReadableBytes b \<and> matched < length needle")
    case True
    then have heads: "drop index (Block_contents b) =
        Block_ReadData b index # drop (index + 1) (Block_contents b)"
      "drop matched needle = needle ! matched # drop (matched + 1) needle"
      using len Block_ReadData_nth [OF "1.prems"(1), of index]
      by (simp_all add: Cons_nth_drop_Suc)
    show ?thesis
    proof (cases "Block_ReadData b index = Some (needle ! matched)")
      case match: True
      have "MatchesFrom_block b index needle matched =
          MatchesFrom_block b (index + 1) needle (matched + 1)"
        using True match by (subst MatchesFrom_block.simps) simp
      then show ?thesis
        using "1.IH" [OF True] "1.prems" True match heads by (simp add: Let_def)
    next
      case False
      then show ?thesis
        using True heads by (subst MatchesFrom_block.simps) (simp add: Let_def)
    qed
  next
    case False
    then show ?thesis
      using "1.prems" len by (subst MatchesFrom_block.simps) (auto simp: Let_def)
  qed
qed

lemma MatchesFrom_loop_correct:
  assumes "list_all Block_wf bs" and "matched < length needle"
    and "bs \<noteq> [] \<Longrightarrow> index \<le> Block_ReadableBytes (hd bs)"
    and "bs = [] \<Longrightarrow> index = 0"
  shows "MatchesFrom_loop bs index needle matched \<longleftrightarrow>
         starts (map Some (drop matched needle)) (drop index (chain bs))"
  using assms
proof (induction bs arbitrary: index matched)
  case (Cons b bs)
  define rest where "rest = drop index (Block_contents b)"
  define want where "want = map Some (drop matched needle)"
  have wf: "Block_wf b" and len: "length (Block_contents b) = Block_ReadableBytes b"
    using Cons.prems(1) by (simp_all add: length_Block_contents)
  have split: "drop index (chain (b # bs)) = rest @ chain bs"
    using Cons.prems(3) len by (simp add: rest_def)
  have want: "length want = length needle - matched"
    by (simp add: want_def)
  have block: "MatchesFrom_block b index needle matched =
      (let k = min (length rest) (length want)
       in if take k rest = take k want then Some (matched + k) else None)"
    using MatchesFrom_block_correct [OF wf, of index matched needle] Cons.prems(2,3)
    by (simp add: Let_def rest_def want_def)
  show ?case
  proof (cases "length want \<le> length rest")
    case True
    then have "MatchesFrom_block b index needle matched =
        (if take (length want) rest = want then Some (length needle) else None)"
      using block want Cons.prems(2) by (simp add: min_def Let_def)
    then show ?thesis
      using True unfolding MatchesFrom_loop.simps split want_def [symmetric] by simp
  next
    case False
    have IH: "MatchesFrom_loop bs 0 needle (matched + length rest) \<longleftrightarrow>
        starts (drop (length rest) want) (chain bs)"
      using Cons.IH [of "matched + length rest" 0] Cons.prems(1) False want
      by (simp add: want_def drop_map add.commute)
    have "starts want (rest @ chain bs) \<longleftrightarrow>
        rest = take (length rest) want \<and> starts (drop (length rest) want) (chain bs)"
      using starts_append_short [of rest want "chain bs"] False by simp
    moreover have "MatchesFrom_block b index needle matched =
        (if rest = take (length rest) want then Some (matched + length rest) else None)"
      using block False by (simp add: min_def Let_def)
    moreover have "matched + length rest \<noteq> length needle"
      using False want by simp
    ultimately show ?thesis
      using IH unfolding MatchesFrom_loop.simps split want_def [symmetric] by simp
  qed
qed simp

text \<open>
  The scan of one block. \<open>C\<close> is everything readable, \<open>offset\<close> the bytes before the block.
\<close>

lemma Find_block_correct:
  assumes "list_all Block_wf (b # bs)" and "needle \<noteq> []"
    and "C = pre @ chain (b # bs)" and "length pre = offset" and "length needle \<le> length C"
    and "last_start = length C - length needle" and "i \<le> Block_ReadableBytes b"
  shows "(case Find_block b bs needle last_start offset i of
            None \<Rightarrow> \<forall>j. offset + i \<le> j \<and> j < offset + Block_ReadableBytes b \<longrightarrow>
                        \<not> occurs (map Some needle) j C
          | Some None \<Rightarrow> \<forall>j. offset + i \<le> j \<longrightarrow> \<not> occurs (map Some needle) j C
          | Some (Some k) \<Rightarrow> offset + i \<le> k \<and> occurs (map Some needle) k C \<and>
                        (\<forall>j. offset + i \<le> j \<and> j < k \<longrightarrow> \<not> occurs (map Some needle) j C))"
  using assms
proof (induction b bs needle last_start offset i rule: Find_block.induct)
  case (1 b bs needle last_start offset i)
  have wf: "Block_wf b" and len: "length (Block_contents b) = Block_ReadableBytes b"
    using "1.prems"(1) by (simp_all add: length_Block_contents)
  let ?N = "map Some needle"
  consider (over) "i < Block_ReadableBytes b" "offset + i > last_start"
    | (found) "i < Block_ReadableBytes b" "offset + i \<le> last_start" "occurs ?N (offset + i) C"
    | (next_i) "i < Block_ReadableBytes b" "offset + i \<le> last_start" "\<not> occurs ?N (offset + i) C"
    | (exhausted) "i = Block_ReadableBytes b"
    using "1.prems"(7) by linarith
  moreover have test: "(Block_ReadData b i = Some (needle ! 0) \<and> MatchesFrom (b # bs) i needle) \<longleftrightarrow>
      occurs ?N (offset + i) C" if "i < Block_ReadableBytes b" "offset + i \<le> last_start"
  proof -
    define D where "D = drop i (chain (b # bs))"
    have "MatchesFrom (b # bs) i needle \<longleftrightarrow> starts ?N D"
      unfolding D_def using MatchesFrom_loop_correct [of "b # bs" 0 needle i] "1.prems"(1,2) that(1)
      by (simp add: MatchesFrom_def)
    moreover have "drop (offset + i) C = D"
      using "1.prems"(3,4) by (simp add: D_def)
    moreover have "offset + i + length ?N \<le> length C"
      using that(2) "1.prems"(5,6) by simp
    moreover have "\<exists>D'. D = Block_ReadData b i # D'"
      using that(1) len Block_ReadData_nth [OF wf that(1)]
      by (simp add: D_def flip: Cons_nth_drop_Suc)
    ultimately show ?thesis
      using "1.prems"(2) by (cases needle) (auto simp: occurs_def)
  qed
  ultimately show ?case
  proof cases
    case over
    have "\<not> occurs ?N j C" if "offset + i \<le> j" for j
    proof -
      have "\<not> j + length needle \<le> length C"
        using that over(2) "1.prems"(5,6) by linarith
      then show ?thesis by (simp add: occurs_def)
    qed
    then show ?thesis
      using over by (subst Find_block.simps) simp
  next
    case found
    then show ?thesis
      using test by (subst Find_block.simps) auto
  next
    case next_i
    then have unfold: "Find_block b bs needle last_start offset i =
        Find_block b bs needle last_start offset (i + 1)"
      using test by (subst Find_block.simps) auto
    have more: "(\<forall>j. offset + i \<le> j \<and> P j \<longrightarrow> \<not> occurs ?N j C) \<longleftrightarrow>
        (\<forall>j. offset + (i + 1) \<le> j \<and> P j \<longrightarrow> \<not> occurs ?N j C)" for P
    proof -
      have "offset + i \<le> j \<longleftrightarrow> j = offset + i \<or> offset + (i + 1) \<le> j" for j
        by arith
      then show ?thesis using next_i(3) by metis
    qed
    have IH: "case Find_block b bs needle last_start offset (i + 1) of
            None \<Rightarrow> \<forall>j. offset + (i + 1) \<le> j \<and> j < offset + Block_ReadableBytes b \<longrightarrow> \<not> occurs ?N j C
          | Some None \<Rightarrow> \<forall>j. offset + (i + 1) \<le> j \<longrightarrow> \<not> occurs ?N j C
          | Some (Some k) \<Rightarrow> offset + (i + 1) \<le> k \<and> occurs ?N k C \<and>
                        (\<forall>j. offset + (i + 1) \<le> j \<and> j < k \<longrightarrow> \<not> occurs ?N j C)"
      using "1.IH" [OF next_i(1)] next_i test "1.prems" by simp
    show ?thesis
    proof (cases "Find_block b bs needle last_start offset (i + 1)")
      case None
      then show ?thesis
        using IH more [of "\<lambda>j. j < offset + Block_ReadableBytes b"] unfold by simp
    next
      case (Some r)
      show ?thesis
      proof (cases r)
        case None
        then show ?thesis using IH more [of "\<lambda>j. True"] unfold Some by simp
      next
        case (Some k)
        then show ?thesis
          using IH more [of "\<lambda>j. j < k"] unfold \<open>Find_block b bs needle last_start offset (i + 1) = Some r\<close>
          by simp
      qed
    qed
  next
    case exhausted
    then show ?thesis
      by (subst Find_block.simps) auto
  qed
qed

lemma Find_loop_correct:
  assumes "list_all Block_wf bs" and "needle \<noteq> []"
    and "C = pre @ chain bs" and "length pre = offset" and "length needle \<le> length C"
    and "last_start = length C - length needle"
  shows "(case Find_loop bs needle from last_start offset of
            None \<Rightarrow> \<forall>j. max from offset \<le> j \<longrightarrow> \<not> occurs (map Some needle) j C
          | Some k \<Rightarrow> max from offset \<le> k \<and> occurs (map Some needle) k C \<and>
              (\<forall>j. max from offset \<le> j \<and> j < k \<longrightarrow> \<not> occurs (map Some needle) j C))"
  using assms
proof (induction bs arbitrary: pre offset)
  case Nil
  then have "\<not> occurs (map Some needle) j C" if "offset \<le> j" for j
    using that by (auto simp: occurs_def)
  then show ?case by simp
next
  case (Cons b bs)
  let ?N = "map Some needle"
  let ?i = "if from > offset then from - offset else 0"
  let ?next = "offset + Block_ReadableBytes b"
  have len: "length (Block_contents b) = Block_ReadableBytes b"
    using Cons.prems(1) by (simp add: length_Block_contents)
  have IH: "case Find_loop bs needle from last_start ?next of
      None \<Rightarrow> \<forall>j. max from ?next \<le> j \<longrightarrow> \<not> occurs ?N j C
    | Some k \<Rightarrow> max from ?next \<le> k \<and> occurs ?N k C \<and>
        (\<forall>j. max from ?next \<le> j \<and> j < k \<longrightarrow> \<not> occurs ?N j C)"
    using Cons.IH [of "pre @ Block_contents b" ?next] Cons.prems len by simp
  have start: "offset + ?i = max from offset" by simp
  show ?case
  proof (cases "?i \<le> Block_ReadableBytes b")
    case False
    then have none: "Find_block b bs needle last_start offset ?i = None"
      and same: "max from offset = max from ?next"
      by (auto simp: Find_block.simps split: if_splits)
    show ?thesis using IH unfolding Find_loop.simps none same by simp
  next
    case True
    note block = Find_block_correct [OF Cons.prems True, unfolded start]
    show ?thesis
    proof (cases "Find_block b bs needle last_start offset ?i")
      case None
      then have free: "\<forall>j. max from offset \<le> j \<and> j < ?next \<longrightarrow> \<not> occurs ?N j C"
        using block by simp
      have "max from offset \<le> j \<longleftrightarrow> max from offset \<le> j \<and> j < ?next \<or> max from ?next \<le> j" for j
        using True by auto
      then have "(\<forall>j. max from offset \<le> j \<and> P j \<longrightarrow> \<not> occurs ?N j C) \<longleftrightarrow>
          (\<forall>j. max from ?next \<le> j \<and> P j \<longrightarrow> \<not> occurs ?N j C)" for P
        using free by metis
      from this [of "\<lambda>_. True"] this IH None show ?thesis
        by (cases "Find_loop bs needle from last_start ?next") auto
    next
      case (Some r)
      then show ?thesis using block by (cases r) auto
    qed
  qed
qed

section \<open>Linearize\<close>

lemma Linearize_loop_correct:
  assumes "list_all Block_wf bs" and "Block_wf merged" and "copied \<le> n"
    and "n - copied \<le> length (chain bs)" and "n - copied \<le> Block_WritableBytes merged"
  shows "\<exists>merged' bs'. Linearize_loop n copied merged bs = Some (merged', bs') \<and>
           Block_wf merged' \<and> list_all Block_wf bs' \<and>
           blk_reserved_for_write merged' = blk_reserved_for_write merged \<and>
           (list_all (\<lambda>b. \<not> blk_reserved_for_write b) bs \<longrightarrow>
            list_all (\<lambda>b. \<not> blk_reserved_for_write b) bs') \<and>
           Block_contents merged' = Block_contents merged @ take (n - copied) (chain bs) \<and>
           chain bs' = drop (n - copied) (chain bs)"
  using assms
proof (induction n copied merged bs rule: Linearize_loop.induct)
  case (2 n copied merged front bs)
  show ?case
  proof (cases "copied < n")
    case True
    define m where "m = min (Block_ReadableBytes front) (n - copied)"
    define merged' where "merged' = (Block_store (blk_write_pos merged)
        (take m (Block_contents front)) merged)\<lparr>blk_write_pos := blk_write_pos merged + m\<rparr>"
    define front' where "front' = front\<lparr>blk_read_pos := blk_read_pos front + m\<rparr>"
    define rest where "rest = (if Block_ReadableBytes front' = 0 then bs else front' # bs)"
    have wf: "Block_wf front" "list_all Block_wf bs"
      using "2.prems"(1) by simp_all
    have m: "m \<le> Block_ReadableBytes front" "m \<le> n - copied"
      by (simp_all add: m_def)
    have len: "length (take m (Block_contents front)) = m"
      using m(1) length_Block_contents [OF wf(1)] by simp
    have merged: "merged' = Block_push (take m (Block_contents front)) merged"
      unfolding merged'_def Block_push_def len by simp
    have fits: "length (take m (Block_contents front)) \<le> Block_WritableBytes merged"
      using len m(2) "2.prems"(5) by simp
    have push: "Block_wf merged'" "Block_contents merged' = Block_contents merged @ take m (Block_contents front)"
      "Block_WritableBytes merged' = Block_WritableBytes merged - m"
      "blk_reserved_for_write merged' = blk_reserved_for_write merged"
      unfolding merged
      using Block_push_wf [OF "2.prems"(2) fits] Block_push_contents [OF "2.prems"(2) fits] len
      by (simp_all add: Block_push_writable)
    have drain: "Block_wf front'" "Block_contents front' = drop m (Block_contents front)"
      using Block_drain [OF wf(1) m(1)] by (simp_all add: front'_def)
    have rest: "list_all Block_wf rest" "chain rest = drop m (chain (front # bs))"
      using wf(2) drain Block_contents_Nil_iff [OF drain(1)] m(1) length_Block_contents [OF wf(1)]
      by (auto simp: rest_def)
    have "m \<le> length (Block_contents front)"
      using m(1) length_Block_contents [OF wf(1)] by simp
    then have front: "take m (Block_contents front) = take m (chain (front # bs))"
      by simp
    have unfold: "Linearize_loop n copied merged (front # bs) = Linearize_loop n (copied + m) merged' rest"
      using True unfolding Linearize_loop.simps(2) Let_def m_def merged'_def front'_def rest_def by simp
    define X where "X = chain (front # bs)"
    have "copied + m \<le> n" "n - (copied + m) \<le> length (chain rest)"
      "n - (copied + m) \<le> Block_WritableBytes merged'"
      using m(2) "2.prems"(3-5) push(3) unfolding rest(2) by simp_all
    note IH = "2.IH" [OF True m_def merged'_def front'_def, folded rest_def, OF rest(1) push(1) this]
    from IH obtain merged'' bs'' where
      "Linearize_loop n (copied + m) merged' rest = Some (merged'', bs'')"
      "Block_wf merged''" "list_all Block_wf bs''"
      "blk_reserved_for_write merged'' = blk_reserved_for_write merged'"
      "list_all (\<lambda>b. \<not> blk_reserved_for_write b) rest \<longrightarrow>
       list_all (\<lambda>b. \<not> blk_reserved_for_write b) bs''"
      "Block_contents merged'' = Block_contents merged' @ take (n - (copied + m)) (drop m X)"
      "chain bs'' = drop (n - (copied + m)) (drop m X)"
      unfolding rest(2) X_def by blast
    moreover have "take m X @ take (n - (copied + m)) (drop m X) = take (n - copied) X"
      using m(2) by (metis le_add_diff_inverse take_add diff_diff_left)
    moreover have "n - (copied + m) + m = n - copied"
      using m(2) by linarith
    then have "drop (n - (copied + m)) (drop m X) = drop (n - copied) X"
      by (simp only: drop_drop)
    moreover have "list_all (\<lambda>b. \<not> blk_reserved_for_write b) rest"
      if "list_all (\<lambda>b. \<not> blk_reserved_for_write b) (front # bs)"
      using that by (simp add: rest_def front'_def)
    ultimately show ?thesis
      using unfold push front unfolding X_def [symmetric] by auto
  next
    case False
    then show ?thesis using "2.prems" by (simp add: Linearize_loop.simps(2))
  qed
qed simp

lemma dropWhile_unreadable:
  assumes "list_all Block_wf bs"
  shows "chain (dropWhile (\<lambda>b. \<not> Block_ReadableBytes b > 0) bs) = chain bs"
  using assms by (induction bs) (auto simp: Block_contents_Nil_iff)

lemma list_all_dropWhile: "list_all P bs \<Longrightarrow> list_all P (dropWhile Q bs)"
  by (induction bs) auto

lemma Linearize_correct:
  assumes "Buffer_inv s" and "\<not> buf_write_reserved s" and "n \<le> buf_readable_bytes s"
  shows "\<exists>s'. Buffer_Linearize n s = Some (take n (Buffer_contents s), s') \<and>
              Buffer_inv s' \<and> \<not> buf_write_reserved s' \<and> Buffer_contents s' = Buffer_contents s \<and>
              (n > 0 \<longrightarrow> take n (Buffer_ContiguousView s') = take n (Buffer_contents s) \<and>
                        length (Buffer_ContiguousView s') \<ge> n)"
proof (cases "n = 0")
  case True
  then show ?thesis using assms by (simp add: Buffer_Linearize_def)
next
  case False
  define bs where "bs = dropWhile (\<lambda>b. \<not> Block_ReadableBytes b > 0) (buf_blocks s)"
  have inv: "list_all Block_wf (buf_blocks s)" "list_all (\<lambda>b. \<not> blk_reserved_for_write b) (buf_blocks s)"
    "buf_readable_bytes s = length (Buffer_contents s)" "buf_block_size s > 0" "buf_reserved_bytes s = 0"
    using assms by (simp_all add: Buffer_inv_def)
  have bs: "list_all Block_wf bs" "list_all (\<lambda>b. \<not> blk_reserved_for_write b) bs"
    "chain bs = Buffer_contents s"
    using inv(1,2) dropWhile_unreadable [OF inv(1)]
    by (simp_all add: bs_def list_all_dropWhile Buffer_contents_def)
  have "bs \<noteq> []"
    using False assms(3) inv(3) bs(3) by auto
  then obtain first rest where cons: "bs = first # rest"
    by (cases bs) auto
  have first: "Block_ReadableBytes first > 0" "Block_wf first"
    using cons bs(1) hd_dropWhile [of "\<lambda>b. \<not> Block_ReadableBytes b > 0" "buf_blocks s"]
    by (auto simp: bs_def)
  have unfold: "Buffer_Linearize n s =
      (if Block_ReadableBytes first \<ge> n
       then Some (take n (Block_contents first), s\<lparr>buf_blocks := first # rest\<rparr>)
       else do {
         (merged, bs) \<leftarrow> Linearize_loop n 0 (NewBlock (max (buf_block_size s) n)) (first # rest);
         Some (take n (Block_contents merged), s\<lparr>buf_blocks := merged # bs\<rparr>)
       })"
    using assms(2,3) False unfolding Buffer_Linearize_def bs_def [symmetric] cons by simp
  have result: "\<exists>s'. Buffer_Linearize n s = Some (take n (Buffer_contents s), s') \<and>
      Buffer_inv s' \<and> \<not> buf_write_reserved s' \<and> Buffer_contents s' = Buffer_contents s \<and>
      (n > 0 \<longrightarrow> take n (Buffer_ContiguousView s') = take n (Buffer_contents s) \<and>
                length (Buffer_ContiguousView s') \<ge> n)"
    if "Buffer_Linearize n s = Some (take n (Block_contents b), s\<lparr>buf_blocks := b # bs'\<rparr>)"
      and "Block_wf b" and "list_all Block_wf bs'" and "\<not> blk_reserved_for_write b"
      and "list_all (\<lambda>b. \<not> blk_reserved_for_write b) bs'"
      and "chain (b # bs') = Buffer_contents s" and "n \<le> Block_ReadableBytes b" for b bs'
  proof -
    have len: "length (Block_contents b) = Block_ReadableBytes b"
      using that(2) by (rule length_Block_contents)
    have view: "Buffer_ContiguousView (s\<lparr>buf_blocks := b # bs'\<rparr>) = Block_contents b"
      using that(7) False by (simp add: Buffer_ContiguousView_def)
    have "take n (Buffer_contents s) = take n (Block_contents b)"
      using that(6,7) len by (simp flip: that(6))
    then show ?thesis
      using that view len inv assms(1,2) by (auto simp: Buffer_inv_def Buffer_contents_def)
  qed
  show ?thesis
  proof (cases "n \<le> Block_ReadableBytes first")
    case True
    then show ?thesis
      using result [of first rest] unfold cons bs first(2) by simp
  next
    case split: False
    obtain merged bs' where loop:
      "Linearize_loop n 0 (NewBlock (max (buf_block_size s) n)) bs = Some (merged, bs')"
      "Block_wf merged" "list_all Block_wf bs'" "\<not> blk_reserved_for_write merged"
      "list_all (\<lambda>b. \<not> blk_reserved_for_write b) bs'"
      "Block_contents merged = take n (chain bs)" "chain bs' = drop n (chain bs)"
      using Linearize_loop_correct [of bs "NewBlock (max (buf_block_size s) n)" 0 n]
        bs assms(3) inv(3) by auto
    have "Block_ReadableBytes merged = n"
      using loop(6) bs(3) assms(3) inv(3) length_Block_contents [OF loop(2)] by simp
    moreover have "chain (merged # bs') = Buffer_contents s"
      using loop(6,7) bs(3) by simp
    ultimately show ?thesis
      using result [of merged bs'] unfold split loop(1-5) cons by simp
  qed
qed

section \<open>Write transactions\<close>

text \<open>
  \<open>scatter iovs xs bs\<close> is what \<^verbatim>\<open>readv\<close> does to the memory of the chain: it fills the ranges in
  order with the bytes \<open>xs\<close>.
\<close>

fun scatter :: "iovec list \<Rightarrow> byte list \<Rightarrow> Block list \<Rightarrow> Block list" where
  "scatter [] xs bs = bs"
| "scatter (v # vs) xs bs =
     (let n = min (iov_len v) (length xs)
      in scatter vs (drop n xs)
           (bs[iov_block v := Block_store (iov_off v) (map Some (take n xs)) (bs ! iov_block v)]))"

text \<open>The same, by recursion on the chain.\<close>

fun fill :: "byte list \<Rightarrow> Block list \<Rightarrow> Block list" where
  "fill xs [] = []"
| "fill xs (b # bs) =
     (if blk_reserved_for_write b
      then Block_store (blk_write_pos b)
             (map Some (take (min (Block_WritableBytes b) (length xs)) xs)) b
           # fill (drop (min (Block_WritableBytes b) (length xs)) xs) bs
      else b # fill xs bs)"

definition reserved_count :: "Block list \<Rightarrow> nat" where
  "reserved_count bs = length (filter blk_reserved_for_write bs)"

lemma scatter_fill:
  assumes "count + reserved_count bs \<le> slots"
  shows "scatter (FillReservedWriteIov_loop slots count (length pre) bs) xs (pre @ bs) =
         pre @ fill xs bs"
  using assms
proof (induction bs arbitrary: pre count xs)
  case (Cons b bs)
  let ?rec = "FillReservedWriteIov_loop slots"
  have IH: "scatter (?rec c (length (pre @ [b'])) bs) ys ((pre @ [b']) @ bs) = (pre @ [b']) @ fill ys bs"
    if "c + reserved_count bs \<le> slots" for c b' ys
    using Cons.IH [OF that, of "pre @ [b']" ys] by blast
  consider (free) "\<not> blk_reserved_for_write b"
    | (full) "blk_reserved_for_write b" "Block_WritableBytes b = 0"
    | (room) "blk_reserved_for_write b" "Block_WritableBytes b > 0"
    by blast
  then show ?case
  proof cases
    case free
    then show ?thesis using IH [of count b xs] Cons.prems by (simp add: reserved_count_def)
  next
    case full
    then show ?thesis using IH [of count b xs] Cons.prems by (simp add: reserved_count_def)
  next
    case room
    let ?n = "min (Block_WritableBytes b) (length xs)"
    let ?b = "Block_store (blk_write_pos b) (map Some (take ?n xs)) b"
    have "(pre @ b # bs)[length pre := ?b] = (pre @ [?b]) @ bs" "(pre @ b # bs) ! length pre = b"
      by simp_all
    then show ?thesis
      using IH [of "count + 1" ?b "drop ?n xs"] Cons.prems room
      by (simp add: reserved_count_def Let_def)
  qed
qed simp

lemma fill_Nil [simp]: "fill [] bs = bs"
  by (induction bs) auto

lemma commit_fill_reserved:
  assumes "list_all Block_wf bs" and "list_all blk_reserved_for_write bs"
    and "list_all (\<lambda>b. Block_ReadableBytes b = 0) (tl bs)"
    and "length xs \<le> sum_list (map Block_WritableBytes bs)"
  shows "\<exists>bs'. CommitWrite_loop (length xs) (fill xs bs) = (bs', 0) \<and> list_all Block_wf bs' \<and>
               chain bs' = chain bs @ map Some xs"
  using assms
proof (induction bs arbitrary: xs)
  case (Cons b bs)
  define n where "n = min (Block_WritableBytes b) (length xs)"
  have mins: "min (Block_WritableBytes b) (length xs) = n" "min (length xs) (Block_WritableBytes b) = n"
    by (simp_all add: n_def)
  let ?new = "map Some (take n xs)"
  have empty: "chain bs = []"
    using Cons.prems(1,3) by (induction bs) (auto simp: Block_contents_Nil_iff)
  have "length (drop n xs) \<le> sum_list (map Block_WritableBytes bs)"
    using Cons.prems(4) by (auto simp: n_def min_def)
  moreover have "list_all (\<lambda>b. Block_ReadableBytes b = 0) (tl bs)"
    using Cons.prems(3) by (cases bs) auto
  ultimately obtain bs' where IH: "CommitWrite_loop (length (drop n xs)) (fill (drop n xs) bs) = (bs', 0)"
    "list_all Block_wf bs'" "chain bs' = chain bs @ map Some (drop n xs)"
    using Cons.IH [of "drop n xs"] Cons.prems(1,2) by auto
  have fits: "Block_wf b" "length ?new \<le> Block_WritableBytes b"
    using Cons.prems(1) by (simp_all add: n_def)
  show ?case
  proof (cases "xs = []")
    case True
    then show ?thesis using Cons.prems by simp
  next
    case False
    have "(Block_store (blk_write_pos b) ?new b)\<lparr>blk_write_pos := blk_write_pos b + n\<rparr> =
        Block_push ?new b"
      by (simp add: Block_push_def n_def)
    then have "CommitWrite_loop (length xs) (fill xs (b # bs)) = (Block_push ?new b # bs', 0)"
      using False Cons.prems(2) IH(1) mins by (simp add: Let_def)
    moreover have "chain (Block_push ?new b # bs') = chain (b # bs) @ map Some xs"
      using IH(3) empty by (simp add: Block_push_contents [OF fits] flip: map_append)
    ultimately show ?thesis
      using IH(2) Block_push_wf [OF fits] by auto
  qed
qed simp

lemma reserved_suffix_simps [simp]:
  "reserved_suffix [] = []"
  "reserved_suffix (b # bs) = (if blk_reserved_for_write b then b # bs else reserved_suffix bs)"
  by (simp_all add: reserved_suffix_def)

lemma reserved_suffix_append:
  "list_all (\<lambda>b. \<not> blk_reserved_for_write b) pre \<Longrightarrow>
   reserved_suffix (pre @ bs) = reserved_suffix bs"
  by (induction pre) auto

lemma commit_fill:
  assumes "list_all Block_wf bs" and "list_all blk_reserved_for_write (reserved_suffix bs)"
    and "list_all (\<lambda>b. Block_ReadableBytes b = 0) (tl (reserved_suffix bs))"
    and "length xs \<le> sum_list (map Block_WritableBytes (reserved_suffix bs))"
  shows "\<exists>bs'. CommitWrite_loop (length xs) (fill xs bs) = (bs', 0) \<and> list_all Block_wf bs' \<and>
               chain bs' = chain bs @ map Some xs"
  using assms
proof (induction bs)
  case (Cons b bs)
  show ?case
  proof (cases "blk_reserved_for_write b")
    case True
    then show ?thesis using commit_fill_reserved [of "b # bs" xs] Cons.prems by simp
  next
    case False
    then show ?thesis using Cons by auto
  qed
qed simp

lemma ClearWriteReservation_correct:
  assumes "list_all Block_wf (buf_blocks s)" and "buf_block_size s > 0"
    and "buf_readable_bytes s = length (Buffer_contents s)" and "buf_write_reserved s"
  shows "Buffer_inv (Buffer_ClearWriteReservation s) \<and>
         \<not> buf_write_reserved (Buffer_ClearWriteReservation s) \<and>
         Buffer_contents (Buffer_ClearWriteReservation s) = Buffer_contents s"
proof -
  let ?clear = "map (\<lambda>b. b\<lparr>blk_reserved_for_write := False\<rparr>) (buf_blocks s)"
  have "chain ?clear = chain (buf_blocks s)"
    by (simp add: comp_def)
  moreover have "list_all Block_wf ?clear" "list_all (\<lambda>b. \<not> blk_reserved_for_write b) ?clear"
    using assms(1) by (simp_all add: list_all_iff)
  ultimately show ?thesis
    using assms by (simp add: Buffer_ClearWriteReservation_def Buffer_inv_def Buffer_contents_def)
qed

text \<open>Filling the reserved ranges and committing appends exactly the bytes written.\<close>

lemma commit_correct:
  assumes "Buffer_inv s" and "buf_write_reserved s"
    and "reserved_count (buf_blocks s) \<le> slots" and "length xs \<le> buf_reserved_bytes s"
  shows "\<exists>s'. Buffer_CommitWrite (length xs)
                (s\<lparr>buf_blocks := scatter (FillReservedWriteIov slots s) xs (buf_blocks s)\<rparr>) = Some s' \<and>
              Buffer_inv s' \<and> \<not> buf_write_reserved s' \<and>
              Buffer_contents s' = Buffer_contents s @ map Some xs"
proof -
  have scatter: "scatter (FillReservedWriteIov slots s) xs (buf_blocks s) = fill xs (buf_blocks s)"
    using scatter_fill [of 0 "buf_blocks s" slots "[]" xs] assms(3)
    by (simp add: FillReservedWriteIov_def)
  have inv: "list_all Block_wf (buf_blocks s)" "buf_block_size s > 0"
    "list_all blk_reserved_for_write (reserved_suffix (buf_blocks s))"
    "list_all (\<lambda>b. Block_ReadableBytes b = 0) (tl (reserved_suffix (buf_blocks s)))"
    "buf_reserved_bytes s = sum_list (map Block_WritableBytes (reserved_suffix (buf_blocks s)))"
    "buf_readable_bytes s = length (chain (buf_blocks s))"
    using assms(1,2) by (simp_all add: Buffer_inv_def Buffer_contents_def)
  obtain bs' where commit: "CommitWrite_loop (length xs) (fill xs (buf_blocks s)) = (bs', 0)"
    "list_all Block_wf bs'" "chain bs' = chain (buf_blocks s) @ map Some xs"
    using commit_fill [OF inv(1,3,4)] assms(4) inv(5) by auto
  let ?s = "s\<lparr>buf_blocks := bs', buf_readable_bytes := buf_readable_bytes s + length xs\<rparr>"
  have "Buffer_inv (Buffer_ClearWriteReservation ?s) \<and>
      \<not> buf_write_reserved (Buffer_ClearWriteReservation ?s) \<and>
      Buffer_contents (Buffer_ClearWriteReservation ?s) = Buffer_contents ?s"
    using ClearWriteReservation_correct [of ?s] commit inv(2,6) assms(2)
    by (simp add: Buffer_contents_def)
  then show ?thesis
    using assms(2,4) commit(1,3) scatter
    by (simp add: Buffer_CommitWrite_def Buffer_contents_def Let_def)
qed

lemma EnsureTailWritable_loop_once:
  "EnsureTailWritable_loop bsize hint max_iov w r bs =
     (if w < hint \<and> r < max_iov
      then bs @ [(NewBlock (max bsize (hint - w)))\<lparr>blk_reserved_for_write := True\<rparr>] else bs)"
proof -
  have "EnsureTailWritable_loop bsize hint max_iov (w + max bsize (hint - w)) r' bs' = bs'" for r' bs'
    by (subst EnsureTailWritable_loop.simps) auto
  then show ?thesis
    by (subst EnsureTailWritable_loop.simps) (simp add: Let_def)
qed

text \<open>What \<^verbatim>\<open>EnsureTailWritable\<close> leaves: at most \<open>max_iov\<close> reserved blocks at the end of the chain.\<close>

definition reservation_ok :: "nat \<Rightarrow> nat \<Rightarrow> Block list \<Rightarrow> bool" where
  "reservation_ok hint max_iov bs \<longleftrightarrow>
     list_all Block_wf bs \<and> list_all blk_reserved_for_write (reserved_suffix bs) \<and>
     list_all (\<lambda>b. Block_ReadableBytes b = 0) (tl (reserved_suffix bs)) \<and>
     reserved_count bs \<le> max_iov \<and>
     sum_list (map Block_WritableBytes (reserved_suffix bs)) > 0 \<and>
     (max_iov > 1 \<longrightarrow> sum_list (map Block_WritableBytes (reserved_suffix bs)) \<ge> hint)"

lemma EnsureTailWritable_correct:
  assumes "list_all Block_wf bs" and "list_all (\<lambda>b. \<not> blk_reserved_for_write b) bs"
    and "bsize > 0" and "hint > 0" and "max_iov > 0"
  shows "reservation_ok hint max_iov (EnsureTailWritable bsize hint max_iov bs) \<and>
         chain (EnsureTailWritable bsize hint max_iov bs) = chain bs"
proof (cases "bs \<noteq> [] \<and> Block_WritableBytes (last bs) > 0")
  case True
  then obtain pre t where t: "bs = pre @ [t]" "Block_WritableBytes t > 0"
    by (metis append_butlast_last_id)
  have pre: "list_all (\<lambda>b. \<not> blk_reserved_for_write b) pre"
    using assms(2) t by simp
  then have none: "filter blk_reserved_for_write pre = []"
    by (simp add: list_all_iff filter_empty_conv)
  let ?t = "t\<lparr>blk_reserved_for_write := True\<rparr>"
  have "EnsureTailWritable bsize hint max_iov bs =
      EnsureTailWritable_loop bsize hint max_iov (Block_WritableBytes t) 1 (pre @ [?t])"
    using True t by (simp add: EnsureTailWritable_def)
  then show ?thesis
    using assms t pre none
    by (auto simp: EnsureTailWritable_loop_once reservation_ok_def reserved_suffix_append
        reserved_count_def)
next
  case False
  have none: "filter blk_reserved_for_write bs = []"
    using assms(2) by (simp add: list_all_iff filter_empty_conv)
  have "EnsureTailWritable bsize hint max_iov bs = EnsureTailWritable_loop bsize hint max_iov 0 0 bs"
    using False by (auto simp: EnsureTailWritable_def)
  then show ?thesis
    using assms none
    by (auto simp: EnsureTailWritable_loop_once reservation_ok_def reserved_suffix_append
        reserved_count_def)
qed

lemma filter_reserved_suffix:
  "list_all blk_reserved_for_write (reserved_suffix bs) \<Longrightarrow>
   filter blk_reserved_for_write bs = reserved_suffix bs"
proof (induction bs)
  case (Cons b bs)
  then show ?case
    by (cases "blk_reserved_for_write b") (simp_all add: list_all_iff)
qed simp

lemma sum_FillReservedWriteIov:
  "count + reserved_count bs \<le> slots \<Longrightarrow>
   sum_list (map iov_len (FillReservedWriteIov_loop slots count k bs)) =
   sum_list (map Block_WritableBytes (filter blk_reserved_for_write bs))"
proof (induction bs arbitrary: count k)
  case (Cons b bs)
  then show ?case
    by (cases "blk_reserved_for_write b") (simp_all add: reserved_count_def)
qed simp

lemma PrepareWriteVector_loop_eq:
  "PrepareWriteVector_loop max_iov k bs out r =
     (out @ FillReservedWriteIov_loop max_iov (length out) k bs,
      r + sum_list (map iov_len (FillReservedWriteIov_loop max_iov (length out) k bs)))"
  by (induction max_iov k bs out r rule: PrepareWriteVector_loop.induct) auto

lemma PrepareWrite_correct:
  assumes "Buffer_inv s" and "\<not> buf_write_reserved s" and "max_iov > 0"
  shows "\<exists>s'. Buffer_PrepareWrite hint max_iov s = Some (FillReservedWriteIov max_iov s', s') \<and>
              Buffer_inv s' \<and> buf_write_reserved s' \<and> reserved_count (buf_blocks s') \<le> max_iov \<and>
              Buffer_contents s' = Buffer_contents s \<and> buf_reserved_bytes s' > 0 \<and>
              (max_iov > 1 \<longrightarrow> buf_reserved_bytes s' \<ge> (if hint = 0 then buf_block_size s else hint)) \<and>
              sum_list (map iov_len (FillReservedWriteIov max_iov s')) = buf_reserved_bytes s'"
proof -
  let ?hint = "if hint = 0 then buf_block_size s else hint"
  define bs where "bs = EnsureTailWritable (buf_block_size s) ?hint max_iov (buf_blocks s)"
  have inv: "list_all Block_wf (buf_blocks s)" "list_all (\<lambda>b. \<not> blk_reserved_for_write b) (buf_blocks s)"
    "buf_block_size s > 0" "buf_readable_bytes s = length (Buffer_contents s)"
    using assms(1,2) by (simp_all add: Buffer_inv_def)
  then have ok: "reservation_ok ?hint max_iov bs" "chain bs = Buffer_contents s"
    using EnsureTailWritable_correct [OF inv(1,2,3) _ assms(3), of ?hint]
    by (simp_all add: bs_def Buffer_contents_def)
  let ?iovs = "FillReservedWriteIov_loop max_iov 0 0 bs"
  have sum: "sum_list (map iov_len ?iovs) = sum_list (map Block_WritableBytes (reserved_suffix bs))"
    using ok(1) sum_FillReservedWriteIov [of 0 bs max_iov 0] filter_reserved_suffix [of bs]
    by (simp add: reservation_ok_def)
  then have "sum_list (map iov_len ?iovs) > 0"
    using ok(1) by (simp add: reservation_ok_def)
  then have "?iovs \<noteq> []"
    by (metis less_irrefl list.map_disc_iff sum_list.Nil)
  let ?s = "s\<lparr>buf_blocks := bs, buf_write_reserved := True,
              buf_reserved_bytes := sum_list (map iov_len ?iovs)\<rparr>"
  have "Buffer_PrepareWrite hint max_iov s = Some (?iovs, ?s)"
    using assms(2,3) \<open>?iovs \<noteq> []\<close>
    by (simp add: Buffer_PrepareWrite_def Let_def bs_def [symmetric] FillReservedWriteIov_def)
  moreover have "Buffer_inv ?s"
    using ok inv sum by (simp add: Buffer_inv_def reservation_ok_def Buffer_contents_def)
  ultimately show ?thesis
    using ok sum
    by (intro exI [of _ ?s]) (auto simp: FillReservedWriteIov_def reservation_ok_def Buffer_contents_def)
qed

lemma TryPrepareWriteOne_correct:
  assumes "Buffer_inv s" and "\<not> buf_write_reserved s"
  shows "\<exists>r s'. Buffer_TryPrepareWriteOne hint s = Some (r, s') \<and>
           (case r of
              None \<Rightarrow> s' = s
            | Some v \<Rightarrow> Buffer_inv s' \<and> buf_write_reserved s' \<and>
                iov_len v \<ge> (if hint = 0 then buf_block_size s else hint) \<and>
                buf_reserved_bytes s' = iov_len v \<and> reserved_count (buf_blocks s') = 1 \<and>
                Buffer_contents s' = Buffer_contents s)"
proof -
  let ?hint = "if hint = 0 then buf_block_size s else hint"
  have inv: "list_all Block_wf (buf_blocks s)" "list_all (\<lambda>b. \<not> blk_reserved_for_write b) (buf_blocks s)"
    "buf_block_size s > 0" "buf_readable_bytes s = length (chain (buf_blocks s))"
    using assms by (simp_all add: Buffer_inv_def Buffer_contents_def)
  have none: "filter blk_reserved_for_write bs = []" if "list_all (\<lambda>b. \<not> blk_reserved_for_write b) bs" for bs
    using that by (simp add: list_all_iff filter_empty_conv)
  show ?thesis
  proof (cases "buf_blocks s" rule: rev_cases)
    case Nil
    then show ?thesis
      using assms(2) inv
      by (simp add: Buffer_TryPrepareWriteOne_def Let_def Buffer_inv_def Buffer_contents_def
          reserved_count_def)
  next
    case (snoc pre t)
    show ?thesis
    proof (cases "Block_WritableBytes t < ?hint")
      case True
      then show ?thesis
        using assms(2) snoc by (simp add: Buffer_TryPrepareWriteOne_def Let_def)
    next
      case False
      then show ?thesis
        using assms(2) inv snoc none [of pre]
        by (auto simp: Buffer_TryPrepareWriteOne_def Let_def Buffer_inv_def Buffer_contents_def
            reserved_count_def reserved_suffix_append)
    qed
  qed
qed

section \<open>Runs\<close>

text \<open>
  A client of the buffer with no reservation outstanding. \<open>BO_Write hint k xs\<close> is a whole write
  transaction: prepare, let the kernel fill the ranges with as much of \<open>xs\<close> as fits, commit.
\<close>

datatype BufferOp =
    BO_Append "byte list" | BO_Drain nat | BO_DrainAll | BO_Linearize nat
  | BO_Write nat nat "byte list" | BO_Abort nat nat

fun Buffer_apply :: "BufferOp \<Rightarrow> Buffer \<Rightarrow> (byte option list \<times> byte option list \<times> Buffer) option" where
  "Buffer_apply (BO_Append xs) s = do {
     s' \<leftarrow> Buffer_Append xs s;
     Some (map Some xs, [], s')
   }"
| "Buffer_apply (BO_Drain n) s = do {
     s' \<leftarrow> Buffer_Drain n s;
     Some ([], take n (Buffer_contents s), s')
   }"
| "Buffer_apply BO_DrainAll s = do {
     s' \<leftarrow> Buffer_DrainAll s;
     Some ([], Buffer_contents s, s')
   }"
| "Buffer_apply (BO_Linearize n) s = do {
     (_, s') \<leftarrow> Buffer_Linearize (min n (Buffer_ReadableBytes s)) s;
     Some ([], [], s')
   }"
| "Buffer_apply (BO_Write hint k xs) s = do {
     (iovs, s1) \<leftarrow> Buffer_PrepareWrite hint (k + 1) s;
     let ys = take (sum_list (map iov_len iovs)) xs;
     s' \<leftarrow> Buffer_CommitWrite (length ys) (s1\<lparr>buf_blocks := scatter iovs ys (buf_blocks s1)\<rparr>);
     Some (map Some ys, [], s')
   }"
| "Buffer_apply (BO_Abort hint k) s = do {
     (iovs, s1) \<leftarrow> Buffer_PrepareWrite hint (k + 1) s;
     Some ([], [], Buffer_AbortWrite s1)
   }"

lemma Buffer_apply_correct:
  assumes "Buffer_inv s \<and> \<not> buf_write_reserved s"
  shows "\<exists>ins outs s'. Buffer_apply a s = Some (ins, outs, s') \<and>
           (Buffer_inv s' \<and> \<not> buf_write_reserved s') \<and>
           Buffer_contents s @ ins = outs @ Buffer_contents s'"
proof (cases a)
  case (BO_Append xs)
  then show ?thesis
    using Append_loop_correct [of s xs] assms by (simp add: Buffer_Append_def)
next
  case (BO_Drain n)
  then show ?thesis
    using Drain_correct [of s n] assms by auto
next
  case BO_DrainAll
  then show ?thesis
    using assms
    by (simp add: Buffer_DrainAll_def Buffer_Clear_def Buffer_ClearWriteReservation_def
        Buffer_inv_def Buffer_contents_def)
next
  case (BO_Linearize n)
  then show ?thesis
    using Linearize_correct [of s "min n (Buffer_ReadableBytes s)"] assms
    by (auto simp: Buffer_ReadableBytes_def)
next
  case (BO_Write hint k xs)
  obtain s1 where prep: "Buffer_PrepareWrite hint (k + 1) s = Some (FillReservedWriteIov (k + 1) s1, s1)"
    "Buffer_inv s1" "buf_write_reserved s1" "reserved_count (buf_blocks s1) \<le> k + 1"
    "Buffer_contents s1 = Buffer_contents s"
    "sum_list (map iov_len (FillReservedWriteIov (k + 1) s1)) = buf_reserved_bytes s1"
    using PrepareWrite_correct [of s "k + 1" hint] assms by auto
  show ?thesis
    using BO_Write prep commit_correct [OF prep(2-4), of "take (buf_reserved_bytes s1) xs"]
    by (auto simp: Let_def)
next
  case (BO_Abort hint k)
  obtain s1 where prep: "Buffer_PrepareWrite hint (k + 1) s = Some (FillReservedWriteIov (k + 1) s1, s1)"
    "Buffer_inv s1" "buf_write_reserved s1" "Buffer_contents s1 = Buffer_contents s"
    using PrepareWrite_correct [of s "k + 1" hint] assms by auto
  then show ?thesis
    using BO_Abort ClearWriteReservation_correct [of s1]
    by (auto simp: Buffer_AbortWrite_def Buffer_inv_def)
qed

interpretation net_buffer: total_fifo Buffer_apply Buffer_contents
  "\<lambda>s. Buffer_inv s \<and> \<not> buf_write_reserved s"
proof unfold_locales
  fix s a ins outs s'
  assume good: "Buffer_inv s \<and> \<not> buf_write_reserved s"
  show "\<exists>p. Buffer_apply a s = Some p"
    using Buffer_apply_correct [OF good, of a] by auto
  assume "Buffer_apply a s = Some (ins, outs, s')"
  then show "(Buffer_inv s' \<and> \<not> buf_write_reserved s') \<and>
      Buffer_contents s @ ins = outs @ Buffer_contents s'"
    using Buffer_apply_correct [OF good, of a] by simp
qed

section \<open>Properties\<close>

text \<open>
  C9. The buffer is a byte FIFO: any sequence of appends, drains, linearizations, committed and
  aborted write transactions succeeds, and the bytes taken out followed by the readable bytes
  are exactly the bytes put in, in order. No byte that was never written becomes readable.
\<close>

theorem buffer_fifo:
  "\<exists>ins outs s'. fifo_run Buffer_apply ops (Buffer_new n) = Some (ins, outs, s') \<and>
     outs @ Buffer_contents s' = ins \<and> Buffer_ReadableBytes s' = length (Buffer_contents s')"
  using net_buffer.run_total [of "Buffer_new n" ops] Buffer_inv_new [of n]
  by (auto simp: Buffer_inv_def Buffer_new_def Buffer_ReadableBytes_def Buffer_contents_def)

text \<open>
  C10. \<^verbatim>\<open>Find\<close> returns the first position at or after \<^verbatim>\<open>from\<close> at which the needle occurs in the
  readable bytes, across block boundaries, and nothing when there is none.
\<close>

theorem buffer_find:
  assumes "Buffer_inv s"
  shows "(case Buffer_Find needle from s of
            Some k \<Rightarrow> from \<le> k \<and> occurs (map Some needle) k (Buffer_contents s) \<and>
              (\<forall>j. from \<le> j \<and> j < k \<longrightarrow> \<not> occurs (map Some needle) j (Buffer_contents s))
          | None \<Rightarrow> (\<forall>j. from \<le> j \<longrightarrow> \<not> occurs (map Some needle) j (Buffer_contents s)))"
proof -
  let ?C = "Buffer_contents s"
  have len: "buf_readable_bytes s = length ?C" and wf: "list_all Block_wf (buf_blocks s)"
    using assms by (simp_all add: Buffer_inv_def)
  consider (short) "from > length ?C \<or> length needle > length ?C - from"
    | (empty) "from \<le> length ?C" "needle = []"
    | (search) "from \<le> length ?C" "length needle \<le> length ?C - from" "needle \<noteq> []"
    by force
  then show ?thesis
  proof cases
    case short
    then have "\<not> occurs (map Some needle) j ?C" if "from \<le> j" for j
      using that by (auto simp: occurs_def)
    then show ?thesis using short len by (auto simp: Buffer_Find_def)
  next
    case empty
    then show ?thesis using len by (auto simp: Buffer_Find_def occurs_def)
  next
    case search
    then have "Buffer_Find needle from s =
        Find_loop (buf_blocks s) needle from (length ?C - length needle) 0"
      using len by (auto simp: Buffer_Find_def)
    then show ?thesis
      using Find_loop_correct [OF wf search(3), of ?C "[]" 0 _ "from", unfolded max_0R] search(2)
      by (simp add: Buffer_contents_def)
  qed
qed

theorem buffer_find_witness:
  "Buffer_Find [2, 3] 0
     \<lparr>buf_blocks =
        [\<lparr>blk_data = [None, Some 1, Some 2], blk_capacity = 3, blk_read_pos = 1,
          blk_write_pos = 3, blk_reserved_for_write = False\<rparr>,
         \<lparr>blk_data = [Some 3, None], blk_capacity = 2, blk_read_pos = 0,
          blk_write_pos = 1, blk_reserved_for_write = False\<rparr>],
      buf_readable_bytes = 3, buf_block_size = 2, buf_write_reserved = False,
      buf_reserved_bytes = 0\<rparr> = Some 1"
proof -
  let ?b = "\<lparr>blk_data = [None, Some 1, Some 2], blk_capacity = 3, blk_read_pos = 1,
          blk_write_pos = 3, blk_reserved_for_write = False\<rparr> :: Block"
  let ?c = "\<lparr>blk_data = [Some 3, None], blk_capacity = 2, blk_read_pos = 0,
          blk_write_pos = 1, blk_reserved_for_write = False\<rparr> :: Block"
  let ?s = "\<lparr>buf_blocks = [?b, ?c],
      buf_readable_bytes = 3, buf_block_size = 2, buf_write_reserved = False,
      buf_reserved_bytes = 0\<rparr> :: Buffer"
  have contents: "Buffer_contents ?s = [Some 1, Some 2, Some 3]"
    by (simp add: Buffer_contents_def Block_contents_def Block_ReadableBytes_def)
  then have "Buffer_inv ?s"
    by (simp add: Buffer_inv_def Block_wf_def)
  have "occurs [Some 2, Some 3] j [Some 1, Some 2, Some (3 :: byte)] \<longleftrightarrow> j = 1" for j
    by (cases j; cases "j - 1") (auto simp: occurs_def)
  then have "occurs (map Some [2, 3]) j (Buffer_contents ?s) \<longleftrightarrow> j = 1" for j
    unfolding contents by simp
  with buffer_find [OF \<open>Buffer_inv ?s\<close>, of 0 "[2, 3]"] show ?thesis
    by (cases "Buffer_Find [2, 3] 0 ?s") auto
qed

text \<open>
  C20. \<^verbatim>\<open>Linearize(n)\<close> within the readable bytes succeeds, returns the first \<open>n\<close> readable bytes,
  leaves the readable bytes unchanged and makes them contiguous.
\<close>

theorem buffer_linearize:
  assumes "Buffer_inv s" and "\<not> buf_write_reserved s" and "0 < n" and "n \<le> Buffer_ReadableBytes s"
  shows "\<exists>s'. Buffer_Linearize n s = Some (take n (Buffer_contents s), s') \<and> Buffer_inv s' \<and>
              Buffer_contents s' = Buffer_contents s \<and>
              take n (Buffer_ContiguousView s') = take n (Buffer_contents s) \<and>
              length (Buffer_ContiguousView s') \<ge> n"
  using Linearize_correct [of s n] assms by (auto simp: Buffer_ReadableBytes_def)

theorem buffer_linearize_witness:
  "\<exists>s'. Buffer_Linearize 2
     \<lparr>buf_blocks =
        [\<lparr>blk_data = [Some 1], blk_capacity = 1, blk_read_pos = 0,
          blk_write_pos = 1, blk_reserved_for_write = False\<rparr>,
         \<lparr>blk_data = [Some 2, None], blk_capacity = 2, blk_read_pos = 0,
          blk_write_pos = 1, blk_reserved_for_write = False\<rparr>],
      buf_readable_bytes = 2, buf_block_size = 2, buf_write_reserved = False,
      buf_reserved_bytes = 0\<rparr> = Some ([Some 1, Some 2], s')"
proof -
  let ?s = "\<lparr>buf_blocks =
        [\<lparr>blk_data = [Some 1], blk_capacity = 1, blk_read_pos = 0,
          blk_write_pos = 1, blk_reserved_for_write = False\<rparr>,
         \<lparr>blk_data = [Some 2, None], blk_capacity = 2, blk_read_pos = 0,
          blk_write_pos = 1, blk_reserved_for_write = False\<rparr>],
      buf_readable_bytes = 2, buf_block_size = 2, buf_write_reserved = False,
      buf_reserved_bytes = 0\<rparr> :: Buffer"
  have contents: "Buffer_contents ?s = [Some 1, Some 2]"
    by (simp add: Buffer_contents_def Block_contents_def Block_ReadableBytes_def)
  then have "Buffer_inv ?s"
    by (simp add: Buffer_inv_def Block_wf_def)
  from buffer_linearize [OF this, of 2] contents show ?thesis
    by (auto simp: Buffer_ReadableBytes_def)
qed

text \<open>
  C19. A write transaction is exact: preparing reserves a positive number of bytes, at least the
  hint when two ranges or more are allowed (a single range can be shorter than the hint), changes nothing
  readable, and after the ranges are filled
  with \<open>xs\<close> in order, \<^verbatim>\<open>CommitWrite(length xs)\<close> succeeds and appends exactly \<open>xs\<close>; aborting
  leaves the readable bytes as they were and ends the reservation, but keeps the blocks that were added.
\<close>

theorem buffer_write_transaction:
  assumes "Buffer_inv s" and "\<not> buf_write_reserved s" and "0 < max_iov"
  shows "\<exists>iovs s1. Buffer_PrepareWrite hint max_iov s = Some (iovs, s1) \<and>
           Buffer_contents s1 = Buffer_contents s \<and>
           0 < sum_list (map iov_len iovs) \<and>
           (1 < max_iov \<longrightarrow> hint \<le> sum_list (map iov_len iovs)) \<and>
           Buffer_inv (Buffer_AbortWrite s1) \<and> \<not> buf_write_reserved (Buffer_AbortWrite s1) \<and>
           Buffer_contents (Buffer_AbortWrite s1) = Buffer_contents s \<and>
           (length xs \<le> sum_list (map iov_len iovs) \<longrightarrow>
             (\<exists>s2. Buffer_CommitWrite (length xs)
                     (s1\<lparr>buf_blocks := scatter iovs xs (buf_blocks s1)\<rparr>) = Some s2 \<and>
                   Buffer_inv s2 \<and> \<not> buf_write_reserved s2 \<and>
                   Buffer_contents s2 = Buffer_contents s @ map Some xs))"
proof -
  obtain s1 where prep: "Buffer_PrepareWrite hint max_iov s = Some (FillReservedWriteIov max_iov s1, s1)"
    "Buffer_inv s1" "buf_write_reserved s1" "reserved_count (buf_blocks s1) \<le> max_iov"
    "Buffer_contents s1 = Buffer_contents s" "buf_reserved_bytes s1 > 0"
    "max_iov > 1 \<longrightarrow> buf_reserved_bytes s1 \<ge> (if hint = 0 then buf_block_size s else hint)"
    "sum_list (map iov_len (FillReservedWriteIov max_iov s1)) = buf_reserved_bytes s1"
    using PrepareWrite_correct [OF assms, of hint] by blast
  have abort: "Buffer_inv (Buffer_AbortWrite s1)" "Buffer_contents (Buffer_AbortWrite s1) = Buffer_contents s"
    "\<not> buf_write_reserved (Buffer_AbortWrite s1)"
    using ClearWriteReservation_correct [of s1] prep(2,3,5)
    by (auto simp: Buffer_AbortWrite_def Buffer_inv_def)
  show ?thesis
    using prep abort commit_correct [OF prep(2-4), of xs] by (auto split: if_splits)
qed

theorem buffer_write_transaction_witness:
  "\<exists>iovs s1. Buffer_PrepareWrite 3 2 (Buffer_new 2) = Some (iovs, s1) \<and>
     3 \<le> sum_list (map iov_len iovs) \<and> Buffer_contents s1 = []"
  using buffer_write_transaction [of "Buffer_new 2" 2 3 "[]"] Buffer_inv_new [of 2]
  by (auto simp: Buffer_new_def)

text \<open>
  The overload of \<^verbatim>\<open>PrepareWrite\<close> that allocates a vector and the one that fills storage of
  the caller are the same function of hint and number of ranges.
\<close>

theorem buffer_prepare_overloads: "Buffer_PrepareWriteVector hint n s = Buffer_PrepareWrite hint n s"
  by (simp add: Buffer_PrepareWriteVector_def Buffer_PrepareWrite_def PrepareWriteVector_loop_eq
      FillReservedWriteIov_def Let_def)

end
