(* ===== verification/Memory_Pool.thy ===== *)
theory Memory_Pool
  imports Alyrn_Prelude "HOL-Library.Multiset"
begin

text \<open>
  \<^verbatim>\<open>detail/memory_pool.h\<close> and \<^verbatim>\<open>detail/object_pool.h\<close>. The pool keeps its free list in the first
  word of every free slot; the model has that memory as a function from addresses to pointers.
  The two slot bitmaps are lists of 64-bit words, tested and changed with the masks of the
  source. The locale \<open>slot_allocator\<close> is the contract both pools give their clients.
\<close>

unbundle bit_operations_syntax

section \<open>Bitmaps\<close>

definition bits_get :: "u64 list \<Rightarrow> nat \<Rightarrow> bool" where
  "bits_get ws i \<longleftrightarrow> ws ! (i div 64) AND push_bit (i mod 64) 1 \<noteq> 0"

definition bits_set :: "u64 list \<Rightarrow> nat \<Rightarrow> u64 list" where
  "bits_set ws i = ws[i div 64 := ws ! (i div 64) OR push_bit (i mod 64) 1]"

definition bits_clear :: "u64 list \<Rightarrow> nat \<Rightarrow> u64 list" where
  "bits_clear ws i = ws[i div 64 := ws ! (i div 64) AND NOT (push_bit (i mod 64) 1)]"

section \<open>MemoryPool\<close>

record MemoryPool =
  mp_block_size :: nat
  mp_align_param :: nat
  mp_capacity :: nat
  mp_buffer :: addr
  mp_free_list_head :: addr
  mp_free_count :: nat
  mp_allocated_slots :: "u64 list"
  mp_releasing_slots :: "u64 list"
  mp_memory :: "addr \<Rightarrow> addr"

definition kAlignment :: "MemoryPool \<Rightarrow> nat" where
  "kAlignment p = max (mp_align_param p) 8"

definition kRawSlotSize :: "MemoryPool \<Rightarrow> nat" where
  "kRawSlotSize p = max (mp_block_size p) 8"

definition kSlotSize :: "MemoryPool \<Rightarrow> nat" where
  "kSlotSize p = ((kRawSlotSize p + kAlignment p - 1) div kAlignment p) * kAlignment p"

definition kStateWordCount :: "MemoryPool \<Rightarrow> nat" where
  "kStateWordCount p = (mp_capacity p + 64 - 1) div 64"

definition Pool_SlotIndex :: "addr \<Rightarrow> MemoryPool \<Rightarrow> nat" where
  "Pool_SlotIndex ptr p = (ptr - mp_buffer p) div kSlotSize p"

definition Pool_Owns :: "addr \<Rightarrow> MemoryPool \<Rightarrow> bool" where
  "Pool_Owns ptr p =
     (if ptr = nullptr \<or> mp_buffer p = nullptr then False
      else if ptr < mp_buffer p \<or> ptr \<ge> mp_buffer p + kSlotSize p * mp_capacity p then False
      else (ptr - mp_buffer p) mod kSlotSize p = 0)"

definition SlotAllocated :: "nat \<Rightarrow> MemoryPool \<Rightarrow> bool" where
  "SlotAllocated slot p = bits_get (mp_allocated_slots p) slot"

definition SlotReleasing :: "nat \<Rightarrow> MemoryPool \<Rightarrow> bool" where
  "SlotReleasing slot p = bits_get (mp_releasing_slots p) slot"

definition MarkSlotAllocated :: "nat \<Rightarrow> MemoryPool \<Rightarrow> MemoryPool option" where
  "MarkSlotAllocated slot p = do {
     check (\<not> SlotReleasing slot p);
     Some (p\<lparr>mp_allocated_slots := bits_set (mp_allocated_slots p) slot\<rparr>)
   }"

definition MarkSlotReleasing :: "nat \<Rightarrow> MemoryPool \<Rightarrow> MemoryPool" where
  "MarkSlotReleasing slot p =
     p\<lparr>mp_allocated_slots := bits_clear (mp_allocated_slots p) slot,
       mp_releasing_slots := bits_set (mp_releasing_slots p) slot\<rparr>"

definition MarkSlotFree :: "nat \<Rightarrow> MemoryPool \<Rightarrow> MemoryPool" where
  "MarkSlotFree slot p = p\<lparr>mp_releasing_slots := bits_clear (mp_releasing_slots p) slot\<rparr>"

text \<open>\<open>buffer\<close> is the address that \<^verbatim>\<open>operator new\<close> returns.\<close>

fun Pool_thread :: "nat \<Rightarrow> nat \<Rightarrow> addr \<Rightarrow> (addr \<Rightarrow> addr) \<Rightarrow> (addr \<Rightarrow> addr)" where
  "Pool_thread slot_size 0 current mem = mem(current := nullptr)"
| "Pool_thread slot_size (Suc n) current mem =
     Pool_thread slot_size n (current + slot_size) (mem(current := current + slot_size))"

definition Pool_Initialize :: "addr \<Rightarrow> MemoryPool \<Rightarrow> MemoryPool" where
  "Pool_Initialize buffer p =
     p\<lparr>mp_buffer := buffer,
       mp_memory := Pool_thread (kSlotSize p) (mp_capacity p - 1) buffer (mp_memory p),
       mp_free_list_head := buffer, mp_free_count := mp_capacity p\<rparr>"

definition Pool_new :: "nat \<Rightarrow> nat \<Rightarrow> nat \<Rightarrow> addr \<Rightarrow> (addr \<Rightarrow> addr) \<Rightarrow> MemoryPool" where
  "Pool_new block_size alignment capacity buffer memory =
     (let p = \<lparr>mp_block_size = block_size, mp_align_param = alignment, mp_capacity = capacity,
               mp_buffer = nullptr, mp_free_list_head = nullptr, mp_free_count = 0,
               mp_allocated_slots = replicate ((capacity + 64 - 1) div 64) 0,
               mp_releasing_slots = replicate ((capacity + 64 - 1) div 64) 0,
               mp_memory = memory\<rparr>
      in Pool_Initialize buffer p)"

definition Pool_Allocate :: "MemoryPool \<Rightarrow> (addr \<times> MemoryPool) option" where
  "Pool_Allocate p =
     (if mp_free_list_head p = nullptr then Some (nullptr, p)
      else
        let ptr = mp_free_list_head p;
            p1 = p\<lparr>mp_free_list_head := mp_memory p (mp_free_list_head p)\<rparr>;
            slot = Pool_SlotIndex ptr p1
        in do {
          check (\<not> SlotAllocated slot p1 \<and> \<not> SlotReleasing slot p1);
          p2 \<leftarrow> MarkSlotAllocated slot p1;
          Some (ptr, p2\<lparr>mp_free_count := mp_free_count p2 - 1\<rparr>)
        })"

definition ClaimDeallocationLocked :: "addr \<Rightarrow> MemoryPool \<Rightarrow> MemoryPool option" where
  "ClaimDeallocationLocked ptr p =
     (let slot = Pool_SlotIndex ptr p in do {
        check (SlotAllocated slot p);
        Some (MarkSlotReleasing slot p)
      })"

definition FinishDeallocationLocked :: "addr \<Rightarrow> MemoryPool \<Rightarrow> MemoryPool option" where
  "FinishDeallocationLocked ptr p =
     (let slot = Pool_SlotIndex ptr p in do {
        check (SlotReleasing slot p);
        let p1 = MarkSlotFree slot p;
        Some (p1\<lparr>mp_memory := (mp_memory p1)(ptr := mp_free_list_head p1),
                 mp_free_list_head := ptr, mp_free_count := mp_free_count p1 + 1\<rparr>)
      })"

definition Pool_Deallocate :: "addr \<Rightarrow> MemoryPool \<Rightarrow> MemoryPool option" where
  "Pool_Deallocate ptr p =
     (if ptr = nullptr then Some p
      else do {
        check (Pool_Owns ptr p);
        p1 \<leftarrow> ClaimDeallocationLocked ptr p;
        FinishDeallocationLocked ptr p1
      })"

definition Pool_ClaimDeallocation :: "addr \<Rightarrow> MemoryPool \<Rightarrow> MemoryPool option" where
  "Pool_ClaimDeallocation ptr p = do {
     check (Pool_Owns ptr p);
     ClaimDeallocationLocked ptr p
   }"

definition Pool_FinishDeallocation :: "addr \<Rightarrow> MemoryPool \<Rightarrow> MemoryPool option" where
  "Pool_FinishDeallocation ptr p = do {
     check (Pool_Owns ptr p);
     FinishDeallocationLocked ptr p
   }"

definition Pool_FreeCount :: "MemoryPool \<Rightarrow> nat" where
  "Pool_FreeCount p = mp_free_count p"

definition Pool_UsedCount :: "MemoryPool \<Rightarrow> nat" where
  "Pool_UsedCount p = mp_capacity p - mp_free_count p"

section \<open>ObjectPool\<close>

text \<open>
  \<open>ob_overflow\<close> is the overflow list from its head, each node given by the address of the
  object it stores, and \<open>ob_destroyed\<close> records the destructor calls.
\<close>

record ObjectPool =
  ob_pool :: MemoryPool
  ob_overflow_count :: nat
  ob_overflow :: "addr list"
  ob_destroyed :: "addr list"

datatype acquired = Acquired addr | ConstructorThrew

text \<open>\<open>throws\<close>: the constructor throws; \<open>fresh\<close>: the object address of a new heap node.\<close>

definition ObjectPool_Acquire :: "bool \<Rightarrow> addr \<Rightarrow> ObjectPool \<Rightarrow> (acquired \<times> ObjectPool) option" where
  "ObjectPool_Acquire throws fresh s = do {
     (mem, p) \<leftarrow> Pool_Allocate (ob_pool s);
     if mem \<noteq> nullptr then
       (if \<not> throws then Some (Acquired mem, s\<lparr>ob_pool := p\<rparr>)
        else do {
          p' \<leftarrow> Pool_Deallocate mem p;
          Some (ConstructorThrew, s\<lparr>ob_pool := p'\<rparr>)
        })
     else if \<not> throws then
       Some (Acquired fresh,
             s\<lparr>ob_pool := p, ob_overflow := fresh # ob_overflow s,
               ob_overflow_count := ob_overflow_count s + 1\<rparr>)
     else Some (ConstructorThrew, s\<lparr>ob_pool := p\<rparr>)
   }"

fun TakeOverflow :: "addr \<Rightarrow> addr list \<Rightarrow> (bool \<times> addr list)" where
  "TakeOverflow object [] = (False, [])"
| "TakeOverflow object (current # rest) =
     (if current = object then (True, rest)
      else let (found, rest') = TakeOverflow object rest in (found, current # rest'))"

text \<open>
  One step for a release whose destructor does not use the pool. The source claims the slot and returns it in two
  critical sections and destroys the object in between. Meanwhile the slot is marked as being released and is not on the
  free list, so other threads neither get it nor release it a second time; what they do to other slots is not
  interleaved with this step.
\<close>

definition ObjectPool_Release :: "addr \<Rightarrow> ObjectPool \<Rightarrow> ObjectPool option" where
  "ObjectPool_Release ptr s =
     (if ptr = nullptr then Some s
      else if Pool_Owns ptr (ob_pool s) then do {
        p1 \<leftarrow> Pool_ClaimDeallocation ptr (ob_pool s);
        p2 \<leftarrow> Pool_FinishDeallocation ptr p1;
        Some (s\<lparr>ob_pool := p2, ob_destroyed := ob_destroyed s @ [ptr]\<rparr>)
      }
      else
        let (found, rest) = TakeOverflow ptr (ob_overflow s) in do {
          check found;
          Some (s\<lparr>ob_overflow := rest, ob_destroyed := ob_destroyed s @ [ptr]\<rparr>)
        })"

definition ObjectPool_Owns :: "addr \<Rightarrow> ObjectPool \<Rightarrow> bool" where
  "ObjectPool_Owns ptr s = Pool_Owns ptr (ob_pool s)"

definition ObjectPool_OverflowCount :: "ObjectPool \<Rightarrow> nat" where
  "ObjectPool_OverflowCount s = ob_overflow_count s"

definition ObjectPool_destructor :: "ObjectPool \<Rightarrow> unit option" where
  "ObjectPool_destructor s = do {
     check (Pool_UsedCount (ob_pool s) = 0);
     check (ob_overflow s = [])
   }"

section \<open>Bitmap lemmas\<close>

lemma word_and_push_bit: "n < 64 \<Longrightarrow> ((w :: u64) AND push_bit n 1 \<noteq> 0) = bit w n"
proof -
  assume "n < 64"
  have "w AND push_bit n 1 = (if bit w n then push_bit n 1 else 0)"
    by (rule bit_eqI) (auto simp: bit_simps)
  moreover have "push_bit n 1 \<noteq> (0 :: u64)"
  proof
    assume zero: "push_bit n 1 = (0 :: u64)"
    have "bit (push_bit n (1 :: u64)) n"
      using \<open>n < 64\<close> by (simp add: bit_simps)
    then show False
      unfolding zero by simp
  qed
  ultimately show ?thesis by simp
qed

lemma bits_get_bit: "bits_get ws i = bit (ws ! (i div 64)) (i mod 64)"
  unfolding bits_get_def by (rule word_and_push_bit) simp

lemma bits_index: "i < 64 * n \<Longrightarrow> i div 64 < (n :: nat)"
  by (simp add: less_mult_imp_div_less mult.commute)

lemma bits_index_eq: "i = j \<longleftrightarrow> i div 64 = j div 64 \<and> i mod 64 = j mod (64 :: nat)"
  by (metis div_mult_mod_eq)

lemma bits_get_set:
  assumes "i < 64 * length ws" and "j < 64 * length ws"
  shows "bits_get (bits_set ws i) j \<longleftrightarrow> j = i \<or> bits_get ws j"
proof -
  have "bit (push_bit (i mod 64) (1 :: u64)) (j mod 64) \<longleftrightarrow> i mod 64 = j mod 64"
    by (auto simp: bit_simps)
  then show ?thesis
    using bits_index [OF assms(1)] bits_index [OF assms(2)] bits_index_eq [of j i]
    by (cases "i div 64 = j div 64") (auto simp: bits_get_bit bits_set_def bit_or_iff)
qed

lemma bits_get_clear:
  assumes "i < 64 * length ws" and "j < 64 * length ws"
  shows "bits_get (bits_clear ws i) j \<longleftrightarrow> j \<noteq> i \<and> bits_get ws j"
proof -
  have "bit (NOT (push_bit (i mod 64) (1 :: u64))) (j mod 64) \<longleftrightarrow> i mod 64 \<noteq> j mod 64"
    by (auto simp: bit_simps)
  then show ?thesis
    using bits_index [OF assms(1)] bits_index [OF assms(2)] bits_index_eq [of j i]
    by (cases "i div 64 = j div 64") (auto simp: bits_get_bit bits_clear_def bit_and_iff)
qed

lemma length_bits [simp]:
  "length (bits_set ws i) = length ws" "length (bits_clear ws i) = length ws"
  by (simp_all add: bits_set_def bits_clear_def)

section \<open>The free list\<close>

fun free_path :: "(addr \<Rightarrow> addr) \<Rightarrow> addr \<Rightarrow> addr list \<Rightarrow> bool" where
  "free_path m a [] \<longleftrightarrow> a = nullptr"
| "free_path m a (x # xs) \<longleftrightarrow> a = x \<and> x \<noteq> nullptr \<and> free_path m (m x) xs"

lemma free_path_frame: "y \<notin> set xs \<Longrightarrow> free_path (m(y := v)) a xs = free_path m a xs"
  by (induction xs arbitrary: a) auto

lemma free_path_null: "free_path m nullptr xs \<longleftrightarrow> xs = []"
  by (cases xs) auto

lemma Pool_thread_below: "x < current \<Longrightarrow> Pool_thread sz n current m x = m x"
  by (induction n arbitrary: current m) auto

lemma Pool_thread_path:
  assumes "current > 0" and "sz > 0"
  shows "free_path (Pool_thread sz n current m) current (map (\<lambda>k. current + k * sz) [0..<Suc n])"
  using assms
proof (induction n arbitrary: current m)
  case (Suc n)
  have "map (\<lambda>k. current + k * sz) [0..<Suc (Suc n)] =
      current # map (\<lambda>k. current + sz + k * sz) [0..<Suc n]"
    by (subst upt_conv_Cons) (simp_all add: map_Suc_upt [symmetric] del: upt_Suc)
  moreover have "Pool_thread sz (Suc n) current m current = current + sz"
    using Suc.prems by (simp add: Pool_thread_below)
  ultimately show ?case
    using Suc.IH [of "current + sz" "m(current := current + sz)"] Suc.prems
    by (simp del: upt_Suc fun_upd_apply)
qed simp

section \<open>Pool invariant\<close>

definition slot_addr :: "MemoryPool \<Rightarrow> nat \<Rightarrow> addr" where
  "slot_addr p i = mp_buffer p + i * kSlotSize p"

text \<open>\<open>F\<close> is the free list as slot numbers.\<close>

definition Pool_rep :: "MemoryPool \<Rightarrow> nat list \<Rightarrow> bool" where
  "Pool_rep p F \<longleftrightarrow>
     mp_buffer p > 0 \<and> mp_capacity p > 0 \<and>
     length (mp_allocated_slots p) = kStateWordCount p \<and>
     length (mp_releasing_slots p) = kStateWordCount p \<and>
     (\<forall>i<mp_capacity p. \<not> (SlotAllocated i p \<and> SlotReleasing i p)) \<and>
     free_path (mp_memory p) (mp_free_list_head p) (map (slot_addr p) F) \<and> distinct F \<and>
     set F = {i. i < mp_capacity p \<and> \<not> SlotAllocated i p \<and> \<not> SlotReleasing i p} \<and>
     mp_free_count p = length F"

definition Pool_inv :: "MemoryPool \<Rightarrow> bool" where
  "Pool_inv p \<longleftrightarrow> (\<exists>F. Pool_rep p F)"

text \<open>No slot is between its claim and its return.\<close>

definition Pool_idle :: "MemoryPool \<Rightarrow> bool" where
  "Pool_idle p \<longleftrightarrow> (\<forall>i<mp_capacity p. \<not> SlotReleasing i p)"

definition Pool_live :: "MemoryPool \<Rightarrow> addr set" where
  "Pool_live p = slot_addr p ` {i. i < mp_capacity p \<and> SlotAllocated i p}"

lemma kSlotSize_pos: "kSlotSize p \<ge> 8"
proof -
  have "kAlignment p \<ge> 8" "kRawSlotSize p > 0"
    by (simp_all add: kAlignment_def kRawSlotSize_def)
  then have "(kRawSlotSize p + kAlignment p - 1) div kAlignment p \<ge> 1"
    by (simp add: Suc_le_eq div_greater_zero_iff)
  then show ?thesis
    using \<open>kAlignment p \<ge> 8\<close> unfolding kSlotSize_def
    by (metis mult_le_mono mult_1 le_trans)
qed

lemma kSlotSize_fits: "kSlotSize p \<ge> mp_block_size p \<and> kAlignment p dvd kSlotSize p"
proof -
  have "kAlignment p > 0" by (simp add: kAlignment_def)
  then have "kRawSlotSize p + kAlignment p - 1 < (kRawSlotSize p + kAlignment p - 1) div kAlignment p * kAlignment p + kAlignment p"
    by (metis add.commute dividend_less_div_times mult.commute)
  then have "kRawSlotSize p \<le> kSlotSize p"
    using \<open>kAlignment p > 0\<close> unfolding kSlotSize_def by linarith
  then show ?thesis
    by (simp add: kSlotSize_def kRawSlotSize_def)
qed

lemma kSlotSize_frame [simp]:
  "kSlotSize (p\<lparr>mp_free_list_head := h\<rparr>) = kSlotSize p"
  "kSlotSize (p\<lparr>mp_free_count := n\<rparr>) = kSlotSize p"
  "kSlotSize (p\<lparr>mp_allocated_slots := ws\<rparr>) = kSlotSize p"
  "kSlotSize (p\<lparr>mp_releasing_slots := ws\<rparr>) = kSlotSize p"
  "kSlotSize (p\<lparr>mp_memory := m\<rparr>) = kSlotSize p"
  "kSlotSize (p\<lparr>mp_buffer := b\<rparr>) = kSlotSize p"
  by (simp_all add: kSlotSize_def kRawSlotSize_def kAlignment_def)

lemma slot_addr_frame [simp]:
  "slot_addr (p\<lparr>mp_free_list_head := h\<rparr>) = slot_addr p"
  "slot_addr (p\<lparr>mp_free_count := n\<rparr>) = slot_addr p"
  "slot_addr (p\<lparr>mp_allocated_slots := ws\<rparr>) = slot_addr p"
  "slot_addr (p\<lparr>mp_releasing_slots := ws\<rparr>) = slot_addr p"
  "slot_addr (p\<lparr>mp_memory := m\<rparr>) = slot_addr p"
  by (simp_all add: slot_addr_def fun_eq_iff)

lemma kStateWordCount_bits: "i < mp_capacity p \<Longrightarrow> i < 64 * kStateWordCount p"
  unfolding kStateWordCount_def by linarith

lemma Pool_SlotIndex_addr [simp]: "Pool_SlotIndex (slot_addr p i) p = i"
  using kSlotSize_pos [of p] by (simp add: Pool_SlotIndex_def slot_addr_def)

lemma Pool_SlotIndex_frame [simp]:
  "Pool_SlotIndex a (p\<lparr>mp_free_list_head := h\<rparr>) = Pool_SlotIndex a p"
  "Pool_SlotIndex a (p\<lparr>mp_allocated_slots := ws\<rparr>) = Pool_SlotIndex a p"
  "Pool_SlotIndex a (p\<lparr>mp_releasing_slots := ws\<rparr>) = Pool_SlotIndex a p"
  by (simp_all add: Pool_SlotIndex_def)

lemma slot_addr_inj: "slot_addr p i = slot_addr p j \<longleftrightarrow> i = j"
  using kSlotSize_pos [of p] by (simp add: slot_addr_def)

lemma Pool_Owns_iff:
  assumes "mp_buffer p > 0"
  shows "Pool_Owns a p \<longleftrightarrow> (\<exists>i<mp_capacity p. a = slot_addr p i)"
proof
  assume owns: "Pool_Owns a p"
  then have range: "mp_buffer p \<le> a" "a < mp_buffer p + kSlotSize p * mp_capacity p"
    "(a - mp_buffer p) mod kSlotSize p = 0"
    by (auto simp: Pool_Owns_def split: if_splits)
  define i where "i = (a - mp_buffer p) div kSlotSize p"
  have "a - mp_buffer p = i * kSlotSize p"
    using range(3) by (auto simp: i_def)
  then have "a = slot_addr p i"
    using range(1) by (simp add: slot_addr_def)
  moreover have "i < mp_capacity p"
    unfolding i_def using range by (intro less_mult_imp_div_less) (simp add: mult.commute)
  ultimately show "\<exists>i<mp_capacity p. a = slot_addr p i"
    by blast
next
  assume "\<exists>i<mp_capacity p. a = slot_addr p i"
  then obtain i where "i < mp_capacity p" "a = slot_addr p i" by blast
  then show "Pool_Owns a p"
    using assms kSlotSize_pos [of p] by (simp add: Pool_Owns_def slot_addr_def mult.commute)
qed

section \<open>Pool operations\<close>

text \<open>How marking a slot changes the two bitmaps.\<close>

lemma slot_bits_frame [simp]:
  "SlotAllocated j (p\<lparr>mp_free_list_head := h\<rparr>) = SlotAllocated j p"
  "SlotReleasing j (p\<lparr>mp_free_list_head := h\<rparr>) = SlotReleasing j p"
  "SlotAllocated j (p\<lparr>mp_free_count := n\<rparr>) = SlotAllocated j p"
  "SlotReleasing j (p\<lparr>mp_free_count := n\<rparr>) = SlotReleasing j p"
  "SlotAllocated j (p\<lparr>mp_memory := m\<rparr>) = SlotAllocated j p"
  "SlotReleasing j (p\<lparr>mp_memory := m\<rparr>) = SlotReleasing j p"
  "SlotReleasing j (p\<lparr>mp_allocated_slots := ws\<rparr>) = SlotReleasing j p"
  "SlotAllocated j (p\<lparr>mp_releasing_slots := ws\<rparr>) = SlotAllocated j p"
  by (simp_all add: SlotAllocated_def SlotReleasing_def)

lemma kStateWordCount_frame [simp]:
  "kStateWordCount (p\<lparr>mp_free_list_head := h\<rparr>) = kStateWordCount p"
  "kStateWordCount (p\<lparr>mp_free_count := n\<rparr>) = kStateWordCount p"
  "kStateWordCount (p\<lparr>mp_memory := m\<rparr>) = kStateWordCount p"
  "kStateWordCount (p\<lparr>mp_allocated_slots := ws\<rparr>) = kStateWordCount p"
  "kStateWordCount (p\<lparr>mp_releasing_slots := ws\<rparr>) = kStateWordCount p"
  by (simp_all add: kStateWordCount_def)

lemma slot_bits_update:
  assumes "i < mp_capacity p" and "j < mp_capacity p"
  shows "length (mp_allocated_slots p) = kStateWordCount p \<Longrightarrow>
      SlotAllocated j (p\<lparr>mp_allocated_slots := bits_set (mp_allocated_slots p) i\<rparr>) \<longleftrightarrow>
      j = i \<or> SlotAllocated j p"
    and "length (mp_allocated_slots p) = kStateWordCount p \<Longrightarrow>
      SlotAllocated j (p\<lparr>mp_allocated_slots := bits_clear (mp_allocated_slots p) i\<rparr>) \<longleftrightarrow>
      j \<noteq> i \<and> SlotAllocated j p"
    and "length (mp_releasing_slots p) = kStateWordCount p \<Longrightarrow>
      SlotReleasing j (p\<lparr>mp_releasing_slots := bits_set (mp_releasing_slots p) i\<rparr>) \<longleftrightarrow>
      j = i \<or> SlotReleasing j p"
    and "length (mp_releasing_slots p) = kStateWordCount p \<Longrightarrow>
      SlotReleasing j (p\<lparr>mp_releasing_slots := bits_clear (mp_releasing_slots p) i\<rparr>) \<longleftrightarrow>
      j \<noteq> i \<and> SlotReleasing j p"
  using kStateWordCount_bits [OF assms(1)] kStateWordCount_bits [OF assms(2)]
  by (simp_all add: SlotAllocated_def SlotReleasing_def bits_get_set bits_get_clear)

lemma slot_set_insert:
  assumes "\<And>j. j < n \<Longrightarrow> Q j \<longleftrightarrow> j = i \<or> P j" and "i < (n :: nat)"
  shows "{j. j < n \<and> Q j} = insert i {j. j < n \<and> P j}"
  using assms by auto

lemma slot_set_remove:
  assumes "\<And>j. j < n \<Longrightarrow> Q j \<longleftrightarrow> j \<noteq> i \<and> P j"
  shows "{j. j < (n :: nat) \<and> Q j} = {j. j < n \<and> P j} - {i}"
  using assms by auto

lemma Pool_Allocate_Nil:
  assumes "Pool_rep p []"
  shows "Pool_Allocate p = Some (nullptr, p)"
  using assms by (simp add: Pool_rep_def Pool_Allocate_def)

lemma Pool_Allocate_Cons:
  assumes "Pool_rep p (i # F)"
  shows "\<exists>p'. Pool_Allocate p = Some (slot_addr p i, p') \<and> Pool_rep p' F \<and>
              mp_buffer p' = mp_buffer p \<and> mp_capacity p' = mp_capacity p \<and>
              slot_addr p' = slot_addr p \<and> mp_memory p' = mp_memory p \<and>
              (\<forall>j<mp_capacity p. (SlotAllocated j p' \<longleftrightarrow> j = i \<or> SlotAllocated j p) \<and>
                                 (SlotReleasing j p' \<longleftrightarrow> SlotReleasing j p))"
proof -
  have i: "i < mp_capacity p" "\<not> SlotAllocated i p" "\<not> SlotReleasing i p" "i \<notin> set F" "distinct F"
    and F: "set (i # F) = {i. i < mp_capacity p \<and> \<not> SlotAllocated i p \<and> \<not> SlotReleasing i p}"
    and head: "mp_free_list_head p = slot_addr p i" "slot_addr p i \<noteq> nullptr"
      "free_path (mp_memory p) (mp_memory p (slot_addr p i)) (map (slot_addr p) F)"
    and len: "length (mp_allocated_slots p) = kStateWordCount p"
    using assms by (auto simp: Pool_rep_def)
  let ?p = "p\<lparr>mp_free_list_head := mp_memory p (slot_addr p i),
              mp_allocated_slots := bits_set (mp_allocated_slots p) i,
              mp_free_count := length F\<rparr>"
  have bits: "SlotAllocated j ?p \<longleftrightarrow> j = i \<or> SlotAllocated j p" "SlotReleasing j ?p \<longleftrightarrow> SlotReleasing j p"
    if "j < mp_capacity p" for j
    using slot_bits_update(1) [OF i(1) that len] by (simp_all add: SlotAllocated_def)
  have "set F = {j. j < mp_capacity p \<and> \<not> SlotAllocated j ?p \<and> \<not> SlotReleasing j ?p}"
    using F i(4) bits by auto
  moreover have "\<forall>j<mp_capacity p. \<not> (SlotAllocated j ?p \<and> SlotReleasing j ?p)"
    using assms bits i(3) by (auto simp: Pool_rep_def)
  ultimately have "Pool_rep ?p F"
    using assms head(3) i(5) by (simp add: Pool_rep_def)
  moreover have "Pool_Allocate p = Some (slot_addr p i, ?p)"
    using assms head(1,2) i(2,3) by (simp add: Pool_Allocate_def MarkSlotAllocated_def Pool_rep_def Let_def)
  ultimately show ?thesis
    using bits by auto
qed

lemma Pool_Claim:
  assumes "Pool_rep p F" and "i < mp_capacity p"
  shows "ClaimDeallocationLocked (slot_addr p i) p =
      (if SlotAllocated i p then Some (MarkSlotReleasing i p) else None)"
    and "SlotAllocated i p \<Longrightarrow> Pool_rep (MarkSlotReleasing i p) F"
    and "SlotReleasing i (MarkSlotReleasing i p) \<and> \<not> SlotAllocated i (MarkSlotReleasing i p)"
    and "j < mp_capacity p \<Longrightarrow> j \<noteq> i \<Longrightarrow>
      SlotAllocated j (MarkSlotReleasing i p) = SlotAllocated j p \<and>
      SlotReleasing j (MarkSlotReleasing i p) = SlotReleasing j p"
proof -
  show "ClaimDeallocationLocked (slot_addr p i) p =
      (if SlotAllocated i p then Some (MarkSlotReleasing i p) else None)"
    by (simp add: ClaimDeallocationLocked_def check_def)
  have len: "length (mp_allocated_slots p) = kStateWordCount p"
    "length (mp_releasing_slots p) = kStateWordCount p"
    using assms(1) by (simp_all add: Pool_rep_def)
  have bits: "SlotAllocated j (MarkSlotReleasing i p) \<longleftrightarrow> j \<noteq> i \<and> SlotAllocated j p"
    "SlotReleasing j (MarkSlotReleasing i p) \<longleftrightarrow> j = i \<or> SlotReleasing j p"
    if "j < mp_capacity p" for j
    using slot_bits_update(2) [OF assms(2) that len(1)] slot_bits_update(3) [OF assms(2) that len(2)]
    by (simp_all add: MarkSlotReleasing_def SlotAllocated_def SlotReleasing_def)
  show "SlotReleasing i (MarkSlotReleasing i p) \<and> \<not> SlotAllocated i (MarkSlotReleasing i p)"
    using bits [OF assms(2)] by simp
  show "SlotAllocated j (MarkSlotReleasing i p) = SlotAllocated j p \<and>
      SlotReleasing j (MarkSlotReleasing i p) = SlotReleasing j p"
    if "j < mp_capacity p" "j \<noteq> i"
    using bits [OF that(1)] that(2) by simp
  assume alloc: "SlotAllocated i p"
  have "{j. j < mp_capacity p \<and> \<not> SlotAllocated j (MarkSlotReleasing i p) \<and>
            \<not> SlotReleasing j (MarkSlotReleasing i p)} =
        {j. j < mp_capacity p \<and> \<not> SlotAllocated j p \<and> \<not> SlotReleasing j p}"
    using bits alloc by auto
  then show "Pool_rep (MarkSlotReleasing i p) F"
    using assms bits by (auto simp: Pool_rep_def MarkSlotReleasing_def)
qed

lemma Pool_Finish:
  assumes "Pool_rep p F" and "i < mp_capacity p"
  shows "\<not> SlotReleasing i p \<Longrightarrow> FinishDeallocationLocked (slot_addr p i) p = None"
    and "SlotReleasing i p \<Longrightarrow>
      \<exists>p'. FinishDeallocationLocked (slot_addr p i) p = Some p' \<and> Pool_rep p' (i # F) \<and>
           mp_buffer p' = mp_buffer p \<and> mp_capacity p' = mp_capacity p \<and>
           slot_addr p' = slot_addr p \<and>
           (\<forall>j<mp_capacity p. (SlotAllocated j p' \<longleftrightarrow> SlotAllocated j p) \<and>
                              (SlotReleasing j p' \<longleftrightarrow> j \<noteq> i \<and> SlotReleasing j p))"
proof -
  show "FinishDeallocationLocked (slot_addr p i) p = None" if "\<not> SlotReleasing i p"
    using that by (simp add: FinishDeallocationLocked_def)
  assume rel: "SlotReleasing i p"
  have len: "length (mp_releasing_slots p) = kStateWordCount p"
    and F: "set F = {j. j < mp_capacity p \<and> \<not> SlotAllocated j p \<and> \<not> SlotReleasing j p}"
    using assms(1) by (simp_all add: Pool_rep_def)
  have notF: "i \<notin> set F" "\<not> SlotAllocated i p"
    using F rel assms by (auto simp: Pool_rep_def)
  let ?p = "p\<lparr>mp_releasing_slots := bits_clear (mp_releasing_slots p) i,
              mp_memory := (mp_memory p)(slot_addr p i := mp_free_list_head p),
              mp_free_list_head := slot_addr p i, mp_free_count := length F + 1\<rparr>"
  have bits: "SlotAllocated j ?p \<longleftrightarrow> SlotAllocated j p" "SlotReleasing j ?p \<longleftrightarrow> j \<noteq> i \<and> SlotReleasing j p"
    if "j < mp_capacity p" for j
    using slot_bits_update(4) [OF assms(2) that len] by (simp_all add: SlotReleasing_def)
  have "set (i # F) = {j. j < mp_capacity p \<and> \<not> SlotAllocated j ?p \<and> \<not> SlotReleasing j ?p}"
    using F notF(2) bits assms(2) by auto
  moreover have "slot_addr p i \<notin> set (map (slot_addr p) F)"
    using notF(1) by (auto simp: slot_addr_inj)
  moreover have "slot_addr p i \<noteq> nullptr"
    using assms(1) by (simp add: slot_addr_def Pool_rep_def)
  moreover have "\<forall>j<mp_capacity p. \<not> (SlotAllocated j ?p \<and> SlotReleasing j ?p)"
    using assms(1) bits by (auto simp: Pool_rep_def)
  ultimately have "Pool_rep ?p (i # F)"
    using assms(1) notF(1) by (simp add: Pool_rep_def free_path_frame)
  moreover have "FinishDeallocationLocked (slot_addr p i) p = Some ?p"
    using rel assms(1) by (simp add: FinishDeallocationLocked_def MarkSlotFree_def Pool_rep_def)
  ultimately show "\<exists>p'. FinishDeallocationLocked (slot_addr p i) p = Some p' \<and> Pool_rep p' (i # F) \<and>
           mp_buffer p' = mp_buffer p \<and> mp_capacity p' = mp_capacity p \<and>
           slot_addr p' = slot_addr p \<and>
           (\<forall>j<mp_capacity p. (SlotAllocated j p' \<longleftrightarrow> SlotAllocated j p) \<and>
                              (SlotReleasing j p' \<longleftrightarrow> j \<noteq> i \<and> SlotReleasing j p))"
    using bits by auto
qed

lemma Pool_rep_buffer: "Pool_rep p F \<Longrightarrow> mp_buffer p > 0"
  by (simp add: Pool_rep_def)

lemma Pool_live_slot:
  "i < mp_capacity p \<Longrightarrow> slot_addr p i \<in> Pool_live p \<longleftrightarrow> SlotAllocated i p"
  by (auto simp: Pool_live_def slot_addr_inj)

lemma Pool_live_Owns: "Pool_rep p F \<Longrightarrow> a \<in> Pool_live p \<Longrightarrow> Pool_Owns a p \<and> a \<noteq> nullptr"
  by (auto simp: Pool_Owns_iff [OF Pool_rep_buffer] Pool_live_def) (simp add: slot_addr_def Pool_rep_def)

lemma Pool_Allocate_correct:
  assumes "Pool_inv p"
  shows "\<exists>r p'. Pool_Allocate p = Some (r, p') \<and> Pool_inv p' \<and>
     (if Pool_FreeCount p = 0 then r = nullptr \<and> p' = p
      else Pool_Owns r p \<and> r \<noteq> nullptr \<and> r \<notin> Pool_live p \<and> Pool_live p' = insert r (Pool_live p) \<and>
           Pool_FreeCount p' = Pool_FreeCount p - 1 \<and> mp_capacity p' = mp_capacity p \<and>
           (Pool_idle p \<longrightarrow> Pool_idle p') \<and> (\<forall>a. Pool_Owns a p' = Pool_Owns a p))"
proof -
  obtain F where rep: "Pool_rep p F"
    using assms by (auto simp: Pool_inv_def)
  have count: "Pool_FreeCount p = length F"
    using rep by (simp add: Pool_rep_def Pool_FreeCount_def)
  show ?thesis
  proof (cases F)
    case Nil
    then show ?thesis using Pool_Allocate_Nil rep assms count by simp
  next
    case (Cons i F')
    then have i: "i < mp_capacity p" "\<not> SlotAllocated i p"
      using rep by (auto simp: Pool_rep_def)
    obtain p' where p': "Pool_Allocate p = Some (slot_addr p i, p')" "Pool_rep p' F'"
      "mp_buffer p' = mp_buffer p" "mp_capacity p' = mp_capacity p" "slot_addr p' = slot_addr p"
      "\<forall>j<mp_capacity p. (SlotAllocated j p' \<longleftrightarrow> j = i \<or> SlotAllocated j p)"
      "\<forall>j<mp_capacity p. (SlotReleasing j p' \<longleftrightarrow> SlotReleasing j p)"
      using Pool_Allocate_Cons rep Cons by blast
    have "{j. j < mp_capacity p \<and> SlotAllocated j p'} = insert i {j. j < mp_capacity p \<and> SlotAllocated j p}"
      using p'(6) i(1) by auto
    then have "Pool_live p' = insert (slot_addr p i) (Pool_live p)"
      by (simp add: Pool_live_def p'(4,5))
    moreover have "Pool_Owns (slot_addr p i) p" "slot_addr p i \<notin> Pool_live p"
      using Pool_Owns_iff [OF Pool_rep_buffer [OF rep]] Pool_live_slot [OF i(1)] i by auto
    moreover have "slot_addr p i \<noteq> nullptr"
      using rep by (simp add: slot_addr_def Pool_rep_def)
    moreover have "Pool_Owns a p' = Pool_Owns a p" for a
      using Pool_Owns_iff [OF Pool_rep_buffer [OF rep]] Pool_Owns_iff [OF Pool_rep_buffer [OF p'(2)]] p'(4,5)
      by simp
    moreover have "Pool_FreeCount p' = length F'"
      using p'(2) by (simp add: Pool_rep_def Pool_FreeCount_def)
    ultimately show ?thesis
      using p'(1,2,4,7) Cons count by (auto simp: Pool_inv_def Pool_idle_def)
  qed
qed

lemma Pool_Deallocate_correct:
  assumes "Pool_inv p" and "a \<noteq> nullptr"
  shows "a \<notin> Pool_live p \<Longrightarrow> Pool_Deallocate a p = None"
    and "a \<in> Pool_live p \<Longrightarrow>
      \<exists>p'. Pool_Deallocate a p = Some p' \<and> Pool_inv p' \<and> Pool_live p' = Pool_live p - {a} \<and>
           Pool_FreeCount p' = Pool_FreeCount p + 1 \<and> mp_capacity p' = mp_capacity p \<and>
           (Pool_idle p \<longrightarrow> Pool_idle p') \<and> (\<forall>b. Pool_Owns b p' = Pool_Owns b p)"
proof -
  obtain F where rep: "Pool_rep p F"
    using assms(1) by (auto simp: Pool_inv_def)
  note owns = Pool_Owns_iff [OF Pool_rep_buffer [OF rep]]
  show "Pool_Deallocate a p = None" if "a \<notin> Pool_live p"
  proof (cases "Pool_Owns a p")
    case True
    then obtain i where "i < mp_capacity p" "a = slot_addr p i"
      using owns by blast
    then show ?thesis
      using that True assms(2) Pool_live_slot [of i p] Pool_Claim(1) [OF rep, of i]
      by (simp add: Pool_Deallocate_def)
  qed (simp add: Pool_Deallocate_def assms(2))
  assume live: "a \<in> Pool_live p"
  then obtain i where i: "i < mp_capacity p" "a = slot_addr p i" "SlotAllocated i p"
    by (auto simp: Pool_live_def)
  define p1 where "p1 = MarkSlotReleasing i p"
  have same: "mp_capacity p1 = mp_capacity p" "slot_addr p1 = slot_addr p" "mp_buffer p1 = mp_buffer p"
    by (simp_all add: p1_def MarkSlotReleasing_def)
  have p1: "ClaimDeallocationLocked a p = Some p1" "Pool_rep p1 F" "SlotReleasing i p1"
    "\<not> SlotAllocated i p1"
    using Pool_Claim(1-3) [OF rep i(1)] i(2,3) by (auto simp: p1_def)
  obtain p2 where p2: "FinishDeallocationLocked a p1 = Some p2" "Pool_rep p2 (i # F)"
    "mp_capacity p2 = mp_capacity p" "slot_addr p2 = slot_addr p"
    "\<forall>j<mp_capacity p. SlotAllocated j p2 \<longleftrightarrow> SlotAllocated j p1"
    "\<forall>j<mp_capacity p. SlotReleasing j p2 \<longleftrightarrow> j \<noteq> i \<and> SlotReleasing j p1"
    using Pool_Finish(2) [OF p1(2), of i] p1(3) i(1,2) same by auto
  have "{j. j < mp_capacity p \<and> SlotAllocated j p2} = {j. j < mp_capacity p \<and> SlotAllocated j p} - {i}"
    using p2(5) p1(4) Pool_Claim(4) [OF rep i(1)] i(1) by (auto simp: p1_def)
  then have "Pool_live p2 = slot_addr p ` ({j. j < mp_capacity p \<and> SlotAllocated j p} - {i})"
    by (simp add: Pool_live_def p2(3,4))
  then have "Pool_live p2 = Pool_live p - {a}"
    by (auto simp: Pool_live_def i(2) slot_addr_inj)
  moreover have "Pool_Owns b p2 = Pool_Owns b p" for b
    using owns Pool_Owns_iff [OF Pool_rep_buffer [OF p2(2)]] p2(3,4) by simp
  moreover have "Pool_Owns a p"
    using Pool_live_Owns [OF rep live] by simp
  then have "Pool_Deallocate a p = Some p2"
    using assms(2) p1(1) p2(1) by (simp add: Pool_Deallocate_def)
  moreover have "Pool_idle p \<longrightarrow> Pool_idle p2"
    using p2(3,6) Pool_Claim(4) [OF rep i(1)] by (auto simp: Pool_idle_def p1_def)
  moreover have "Pool_FreeCount p2 = Pool_FreeCount p + 1"
    using rep p2(2) by (simp add: Pool_rep_def Pool_FreeCount_def)
  ultimately show "\<exists>p'. Pool_Deallocate a p = Some p' \<and> Pool_inv p' \<and> Pool_live p' = Pool_live p - {a} \<and>
           Pool_FreeCount p' = Pool_FreeCount p + 1 \<and> mp_capacity p' = mp_capacity p \<and>
           (Pool_idle p \<longrightarrow> Pool_idle p') \<and> (\<forall>b. Pool_Owns b p' = Pool_Owns b p)"
    using p2(2,3) by (auto simp: Pool_inv_def)
qed

lemma Pool_new_simps:
  "mp_capacity (Pool_new bs al cap b m) = cap" "mp_buffer (Pool_new bs al cap b m) = b"
  by (simp_all add: Pool_new_def Pool_Initialize_def Let_def)

lemma Pool_new_bits:
  "i < cap \<Longrightarrow> \<not> SlotAllocated i (Pool_new bs al cap b m) \<and> \<not> SlotReleasing i (Pool_new bs al cap b m)"
  using bits_index [of i "(cap + 64 - 1) div 64"]
  by (simp add: Pool_new_def Pool_Initialize_def Let_def SlotAllocated_def SlotReleasing_def bits_get_def)

lemma Pool_new_rep:
  assumes "cap > 0" and "b > 0"
  shows "Pool_rep (Pool_new bs al cap b m) [0..<cap]"
proof -
  let ?p = "Pool_new bs al cap b m"
  have "mp_memory ?p = Pool_thread (kSlotSize ?p) (cap - 1) b m" "mp_free_list_head ?p = b"
    by (simp_all add: Pool_new_def Pool_Initialize_def Let_def kSlotSize_def kRawSlotSize_def kAlignment_def)
  moreover have "slot_addr ?p = (\<lambda>i. b + i * kSlotSize ?p)"
    by (simp add: slot_addr_def fun_eq_iff Pool_new_simps)
  moreover have "[0..<cap] = [0..<Suc (cap - 1)]"
    using assms(1) by simp
  ultimately have "free_path (mp_memory ?p) (mp_free_list_head ?p) (map (slot_addr ?p) [0..<cap])"
    using Pool_thread_path [OF assms(2), of "kSlotSize ?p" "cap - 1" m] kSlotSize_pos [of ?p] by simp
  moreover have "length (mp_allocated_slots ?p) = kStateWordCount ?p"
    "length (mp_releasing_slots ?p) = kStateWordCount ?p" "mp_free_count ?p = cap"
    by (simp_all add: Pool_new_def Pool_Initialize_def Let_def kStateWordCount_def)
  ultimately show ?thesis
    using assms Pool_new_bits [of _ cap] by (auto simp: Pool_rep_def Pool_new_simps)
qed

lemma Pool_new_inv:
  assumes "cap > 0" and "b > 0"
  shows "Pool_inv (Pool_new bs al cap b m) \<and> Pool_idle (Pool_new bs al cap b m) \<and>
         Pool_live (Pool_new bs al cap b m) = {}"
  using Pool_new_rep [OF assms] Pool_new_bits [of _ cap]
  by (auto simp: Pool_inv_def Pool_idle_def Pool_live_def Pool_new_simps)

lemma Pool_counts:
  assumes "Pool_inv p" and "Pool_idle p"
  shows "card (Pool_live p) + Pool_FreeCount p = mp_capacity p \<and> card (Pool_live p) = Pool_UsedCount p"
proof -
  obtain F where rep: "Pool_rep p F"
    using assms(1) by (auto simp: Pool_inv_def)
  let ?A = "{i. i < mp_capacity p \<and> SlotAllocated i p}"
  have "set F = {i. i < mp_capacity p \<and> \<not> SlotAllocated i p}"
    using rep assms(2) by (auto simp: Pool_rep_def Pool_idle_def)
  then have "?A \<union> set F = {..<mp_capacity p}" "?A \<inter> set F = {}"
    by auto
  moreover have "distinct F"
    using rep by (simp add: Pool_rep_def)
  then have "card (set F) = length F"
    by (rule distinct_card)
  ultimately have "card ?A + length F = mp_capacity p"
    by (metis card_Un_disjoint card_lessThan finite_Un finite_lessThan)
  moreover have "card (Pool_live p) = card ?A"
    unfolding Pool_live_def by (rule card_image) (auto simp: inj_on_def slot_addr_inj)
  ultimately show ?thesis
    using rep by (auto simp: Pool_rep_def Pool_FreeCount_def Pool_UsedCount_def)
qed

section \<open>The allocator contract\<close>

datatype SlotOp = SO_Alloc | SO_Free addr

text \<open>A run collects the pointers handed out and the pointers given back.\<close>

fun slot_run ::
    "('s \<Rightarrow> (addr \<times> 's) option) \<Rightarrow> (addr \<Rightarrow> 's \<Rightarrow> 's option) \<Rightarrow> SlotOp list \<Rightarrow> 's \<Rightarrow>
     (addr list \<times> addr list \<times> 's) option" where
  "slot_run alloc free [] s = Some ([], [], s)"
| "slot_run alloc free (SO_Alloc # ops) s = do {
     (r, s') \<leftarrow> alloc s;
     (got, freed, s'') \<leftarrow> slot_run alloc free ops s';
     Some (if r = nullptr then got else r # got, freed, s'')
   }"
| "slot_run alloc free (SO_Free a # ops) s = do {
     s' \<leftarrow> free a s;
     (got, freed, s'') \<leftarrow> slot_run alloc free ops s';
     Some (got, if a = nullptr then freed else a # freed, s'')
   }"

locale slot_allocator =
  fixes alloc :: "'s \<Rightarrow> (addr \<times> 's) option"
    and free :: "addr \<Rightarrow> 's \<Rightarrow> 's option"
    and live :: "'s \<Rightarrow> addr set"
    and good :: "'s \<Rightarrow> bool"
  assumes alloc_ok: "good s \<Longrightarrow> \<exists>r s'. alloc s = Some (r, s') \<and> good s' \<and>
      (if r = nullptr then live s' = live s else r \<notin> live s \<and> live s' = insert r (live s))"
    and free_null: "free nullptr s = Some s"
    and free_live: "good s \<Longrightarrow> a \<in> live s \<Longrightarrow>
      \<exists>s'. free a s = Some s' \<and> good s' \<and> live s' = live s - {a}"
    and free_dead: "good s \<Longrightarrow> a \<notin> live s \<Longrightarrow> a \<noteq> nullptr \<Longrightarrow> free a s = None"
    and live_finite: "good s \<Longrightarrow> finite (live s)"
begin

text \<open>Every pointer handed out is either still live or was given back, exactly once.\<close>

lemma accounting:
  assumes "good s" and "slot_run alloc free ops s = Some (got, freed, s')"
  shows "good s' \<and> mset_set (live s) + mset got = mset freed + mset_set (live s')"
  using assms
proof (induction ops arbitrary: s got freed)
  case (Cons op ops)
  show ?case
  proof (cases op)
    case SO_Alloc
    obtain r t where t: "alloc s = Some (r, t)" "good t"
      "if r = nullptr then live t = live s else r \<notin> live s \<and> live t = insert r (live s)"
      using alloc_ok [OF Cons.prems(1)] by blast
    obtain got' where rest: "slot_run alloc free ops t = Some (got', freed, s')"
      "got = (if r = nullptr then got' else r # got')"
      using Cons.prems(2) SO_Alloc t(1) by (cases "slot_run alloc free ops t") auto
    show ?thesis
      using Cons.IH [OF t(2) rest(1)] t(3) rest(2) live_finite [OF Cons.prems(1)]
      by (auto split: if_splits)
  next
    case (SO_Free a)
    obtain t where t: "free a s = Some t"
      using Cons.prems(2) SO_Free by (cases "free a s") auto
    obtain freed' where rest: "slot_run alloc free ops t = Some (got, freed', s')"
      "freed = (if a = nullptr then freed' else a # freed')"
      using Cons.prems(2) SO_Free t by (cases "slot_run alloc free ops t") auto
    show ?thesis
    proof (cases "a = nullptr")
      case True
      then show ?thesis
        using Cons.IH [OF _ rest(1)] Cons.prems(1) t rest(2) free_null by simp
    next
      case False
      then have a: "a \<in> live s"
        using free_dead [OF Cons.prems(1)] t by force
      then have "good t" "live t = live s - {a}"
        using free_live [OF Cons.prems(1) a] t by auto
      moreover have "mset_set (live s) = add_mset a (mset_set (live s - {a}))"
        using a live_finite [OF Cons.prems(1)] by (simp add: mset_set.remove)
      ultimately show ?thesis
        using Cons.IH [OF _ rest(1)] rest(2) False by simp
    qed
  qed
qed simp

lemma double_free_aborts:
  assumes "good s" and "a \<noteq> nullptr" and "free a s = Some s'"
  shows "free a s' = None"
proof -
  have a: "a \<in> live s"
    using free_dead [OF assms(1) _ assms(2)] assms(3) by force
  then have "good s'" "a \<notin> live s'"
    using free_live [OF assms(1) a] assms(3) by auto
  then show ?thesis
    using assms(2) by (rule free_dead)
qed

end

interpretation memory_pool: slot_allocator Pool_Allocate Pool_Deallocate Pool_live
  "\<lambda>p. Pool_inv p \<and> Pool_idle p"
proof unfold_locales
  fix p :: MemoryPool and a
  show "Pool_Deallocate nullptr p = Some p"
    by (simp add: Pool_Deallocate_def)
  assume good: "Pool_inv p \<and> Pool_idle p"
  show "\<exists>r p'. Pool_Allocate p = Some (r, p') \<and> (Pool_inv p' \<and> Pool_idle p') \<and>
      (if r = nullptr then Pool_live p' = Pool_live p
       else r \<notin> Pool_live p \<and> Pool_live p' = insert r (Pool_live p))"
  proof -
    obtain r p' where "Pool_Allocate p = Some (r, p')" "Pool_inv p'"
      "if Pool_FreeCount p = 0 then r = nullptr \<and> p' = p
       else r \<noteq> nullptr \<and> r \<notin> Pool_live p \<and> Pool_live p' = insert r (Pool_live p) \<and>
            (Pool_idle p \<longrightarrow> Pool_idle p')"
      using Pool_Allocate_correct [OF conjunct1 [OF good]] by metis
    then show ?thesis
      using good by (intro exI [of _ r] exI [of _ p']) (simp split: if_splits)
  qed
  show "finite (Pool_live p)"
    by (simp add: Pool_live_def)
  show "\<exists>p'. Pool_Deallocate a p = Some p' \<and> (Pool_inv p' \<and> Pool_idle p') \<and> Pool_live p' = Pool_live p - {a}"
    if "a \<in> Pool_live p"
  proof -
    have "a \<noteq> nullptr"
      using that good Pool_live_Owns unfolding Pool_inv_def by blast
    from Pool_Deallocate_correct(2) [OF conjunct1 [OF good] this that] good show ?thesis
      by blast
  qed
  show "Pool_Deallocate a p = None" if "a \<notin> Pool_live p" "a \<noteq> nullptr"
    using Pool_Deallocate_correct(1) [OF conjunct1 [OF good] that(2,1)] .
qed

section \<open>ObjectPool lemmas\<close>

definition ObjectPool_inv :: "ObjectPool \<Rightarrow> bool" where
  "ObjectPool_inv s \<longleftrightarrow>
     Pool_inv (ob_pool s) \<and> Pool_idle (ob_pool s) \<and> distinct (ob_overflow s) \<and>
     nullptr \<notin> set (ob_overflow s) \<and> (\<forall>a\<in>set (ob_overflow s). \<not> Pool_Owns a (ob_pool s))"

definition ObjectPool_live :: "ObjectPool \<Rightarrow> addr set" where
  "ObjectPool_live s = Pool_live (ob_pool s) \<union> set (ob_overflow s)"

lemma TakeOverflow_correct:
  "distinct xs \<Longrightarrow>
   TakeOverflow a xs = (a \<in> set xs, filter (\<lambda>x. x \<noteq> a) xs)"
proof (induction xs)
  case (Cons x xs)
  have "x \<notin> set xs \<Longrightarrow> filter (\<lambda>y. y \<noteq> x) xs = xs"
    by (induction xs) auto
  then show ?case using Cons by auto
qed simp

lemma Pool_inv_live_Owns: "Pool_inv p \<Longrightarrow> a \<in> Pool_live p \<Longrightarrow> Pool_Owns a p \<and> a \<noteq> nullptr"
  unfolding Pool_inv_def using Pool_live_Owns by blast

lemma Pool_Owns_releasing [simp]: "Pool_Owns a (MarkSlotReleasing i p) = Pool_Owns a p"
  by (simp add: Pool_Owns_def MarkSlotReleasing_def)

lemma Pool_Deallocate_split:
  assumes "Pool_Owns a p" and "a \<noteq> nullptr" and "Pool_Deallocate a p = Some p'"
  shows "\<exists>p1. Pool_ClaimDeallocation a p = Some p1 \<and> Pool_FinishDeallocation a p1 = Some p'"
proof -
  obtain p1 where p1: "ClaimDeallocationLocked a p = Some p1" "FinishDeallocationLocked a p1 = Some p'"
    using assms by (auto simp: Pool_Deallocate_def split: bind_splits)
  then have "p1 = MarkSlotReleasing (Pool_SlotIndex a p) p"
    by (auto simp: ClaimDeallocationLocked_def Let_def)
  then have "Pool_Owns a p1 = Pool_Owns a p"
    by simp
  then show ?thesis
    using p1 assms(1) by (simp add: Pool_ClaimDeallocation_def Pool_FinishDeallocation_def)
qed

lemma ObjectPool_Acquire_correct:
  assumes "ObjectPool_inv s" and "fresh \<noteq> nullptr" and "fresh \<notin> ObjectPool_live s"
    and "\<not> Pool_Owns fresh (ob_pool s)"
  shows "\<exists>r s'. ObjectPool_Acquire throws fresh s = Some (r, s') \<and> ObjectPool_inv s' \<and>
           ob_destroyed s' = ob_destroyed s \<and>
           (if throws then r = ConstructorThrew \<and> ObjectPool_live s' = ObjectPool_live s
            else \<exists>a. r = Acquired a \<and> a \<noteq> nullptr \<and> a \<notin> ObjectPool_live s \<and>
                     ObjectPool_live s' = insert a (ObjectPool_live s))"
proof -
  let ?p = "ob_pool s"
  have inv: "Pool_inv ?p" "Pool_idle ?p"
    using assms(1) by (simp_all add: ObjectPool_inv_def)
  obtain r p' where alloc: "Pool_Allocate ?p = Some (r, p')" "Pool_inv p'"
    "if Pool_FreeCount ?p = 0 then r = nullptr \<and> p' = ?p
     else Pool_Owns r ?p \<and> r \<noteq> nullptr \<and> r \<notin> Pool_live ?p \<and> Pool_live p' = insert r (Pool_live ?p) \<and>
          (Pool_idle ?p \<longrightarrow> Pool_idle p') \<and> (\<forall>a. Pool_Owns a p' = Pool_Owns a ?p)"
    using Pool_Allocate_correct [OF inv(1)] by metis
  show ?thesis
  proof (cases "Pool_FreeCount ?p = 0")
    case True
    then have "ObjectPool_Acquire throws fresh s =
        Some (if throws then (ConstructorThrew, s)
              else (Acquired fresh, s\<lparr>ob_overflow := fresh # ob_overflow s,
                                      ob_overflow_count := ob_overflow_count s + 1\<rparr>))"
      using alloc by (simp add: ObjectPool_Acquire_def)
    then show ?thesis
      using assms by (auto simp: ObjectPool_inv_def ObjectPool_live_def)
  next
    case False
    then have r: "Pool_Owns r ?p" "r \<noteq> nullptr" "r \<notin> Pool_live ?p" "Pool_live p' = insert r (Pool_live ?p)"
      "Pool_idle p'" "\<And>a. Pool_Owns a p' = Pool_Owns a ?p"
      using alloc(3) inv(2) by simp_all
    obtain q where q: "Pool_Deallocate r p' = Some q" "Pool_inv q" "Pool_live q = Pool_live ?p"
      "Pool_idle q" "\<And>a. Pool_Owns a q = Pool_Owns a ?p"
      using Pool_Deallocate_correct(2) [OF alloc(2) r(2)] r(3-6) by auto
    have "ObjectPool_Acquire throws fresh s =
        Some (if throws then (ConstructorThrew, s\<lparr>ob_pool := q\<rparr>) else (Acquired r, s\<lparr>ob_pool := p'\<rparr>))"
      using alloc(1) r(2) q(1) by (simp add: ObjectPool_Acquire_def)
    moreover have "r \<notin> set (ob_overflow s)"
      using assms(1) r(1) by (auto simp: ObjectPool_inv_def)
    ultimately show ?thesis
      using assms(1) alloc(2) r q by (auto simp: ObjectPool_inv_def ObjectPool_live_def)
  qed
qed

lemma ObjectPool_Release_correct:
  assumes "ObjectPool_inv s" and "a \<noteq> nullptr"
  shows "a \<notin> ObjectPool_live s \<Longrightarrow> ObjectPool_Release a s = None"
    and "a \<in> ObjectPool_live s \<Longrightarrow>
      \<exists>s'. ObjectPool_Release a s = Some s' \<and> ObjectPool_inv s' \<and>
           ObjectPool_live s' = ObjectPool_live s - {a} \<and> ob_destroyed s' = ob_destroyed s @ [a]"
proof -
  let ?p = "ob_pool s"
  have inv: "Pool_inv ?p" "Pool_idle ?p" "distinct (ob_overflow s)"
    using assms(1) by (simp_all add: ObjectPool_inv_def)
  note take = TakeOverflow_correct [OF inv(3), of a]
  show "ObjectPool_Release a s = None" if dead: "a \<notin> ObjectPool_live s"
  proof (cases "Pool_Owns a ?p")
    case True
    have "Pool_Deallocate a ?p = None"
      using Pool_Deallocate_correct(1) [OF inv(1) assms(2)] dead by (simp add: ObjectPool_live_def)
    moreover have "Pool_FinishDeallocation a p1 = FinishDeallocationLocked a p1"
      if "ClaimDeallocationLocked a ?p = Some p1" for p1
    proof -
      have "p1 = MarkSlotReleasing (Pool_SlotIndex a ?p) ?p"
        using that by (auto simp: ClaimDeallocationLocked_def Let_def)
      then show ?thesis
        using True by (simp add: Pool_FinishDeallocation_def)
    qed
    ultimately show ?thesis
      using True assms(2)
      by (cases "ClaimDeallocationLocked a ?p")
         (auto simp: ObjectPool_Release_def Pool_Deallocate_def Pool_ClaimDeallocation_def)
  next
    case False
    then show ?thesis
      using dead assms(2) take by (simp add: ObjectPool_Release_def ObjectPool_live_def)
  qed
  assume live: "a \<in> ObjectPool_live s"
  show "\<exists>s'. ObjectPool_Release a s = Some s' \<and> ObjectPool_inv s' \<and>
           ObjectPool_live s' = ObjectPool_live s - {a} \<and> ob_destroyed s' = ob_destroyed s @ [a]"
  proof (cases "Pool_Owns a ?p")
    case True
    then have "a \<in> Pool_live ?p" "a \<notin> set (ob_overflow s)"
      using live assms(1) by (auto simp: ObjectPool_live_def ObjectPool_inv_def)
    moreover from this(1) obtain q where q: "Pool_Deallocate a ?p = Some q" "Pool_inv q" "Pool_live q = Pool_live ?p - {a}"
      "Pool_idle q" "\<And>b. Pool_Owns b q = Pool_Owns b ?p"
      using Pool_Deallocate_correct(2) [OF inv(1) assms(2)] inv(2) by blast
    moreover obtain p1 where "Pool_ClaimDeallocation a ?p = Some p1" "Pool_FinishDeallocation a p1 = Some q"
      using Pool_Deallocate_split [OF True assms(2) q(1)] by blast
    ultimately show ?thesis
      using assms True by (auto simp: ObjectPool_Release_def ObjectPool_inv_def ObjectPool_live_def)
  next
    case False
    then have "a \<in> set (ob_overflow s)" "a \<notin> Pool_live ?p"
      using live Pool_inv_live_Owns [OF inv(1)] by (auto simp: ObjectPool_live_def)
    then show ?thesis
      using assms False take by (auto simp: ObjectPool_Release_def ObjectPool_inv_def ObjectPool_live_def)
  qed
qed

section \<open>Properties\<close>

text \<open>
  C11. A memory pool hands every slot out at most once at a time: in every run of allocations and
  frees that the pool does not abort, the slots handed out are exactly those given back plus
  those still live, each counted once, the used count is the number of live slots, and the next
  allocation fails exactly when all slots are live.
\<close>

theorem pool_accounting:
  assumes "0 < capacity" and "0 < buffer"
    and "slot_run Pool_Allocate Pool_Deallocate ops (Pool_new block_size alignment capacity buffer memory) =
         Some (got, freed, p)"
  shows "mset got = mset freed + mset_set (Pool_live p) \<and> Pool_UsedCount p = card (Pool_live p) \<and>
         (\<exists>r p'. Pool_Allocate p = Some (r, p') \<and>
                 (r = nullptr \<longleftrightarrow> Pool_FreeCount p = 0) \<and> (r \<noteq> nullptr \<longrightarrow> r \<notin> Pool_live p))"
proof -
  have new: "Pool_inv (Pool_new block_size alignment capacity buffer memory) \<and>
      Pool_idle (Pool_new block_size alignment capacity buffer memory)"
    "Pool_live (Pool_new block_size alignment capacity buffer memory) = {}"
    using Pool_new_inv [OF assms(1,2)] by auto
  note run = memory_pool.accounting [OF new(1) assms(3)]
  then have good: "Pool_inv p" "Pool_idle p" by simp_all
  obtain r p' where "Pool_Allocate p = Some (r, p')"
    "if Pool_FreeCount p = 0 then r = nullptr \<and> p' = p else r \<noteq> nullptr \<and> r \<notin> Pool_live p"
    using Pool_Allocate_correct [OF good(1)] by metis
  then show ?thesis
    using run new(2) Pool_counts [OF good] by (auto split: if_splits)
qed

theorem pool_accounting_witness:
  "slot_run Pool_Allocate Pool_Deallocate [SO_Alloc, SO_Alloc, SO_Free 64, SO_Alloc]
     (Pool_new 8 8 2 64 (\<lambda>_. 0)) \<noteq> None \<and>
   mset (fst (the (slot_run Pool_Allocate Pool_Deallocate [SO_Alloc, SO_Alloc, SO_Free 64, SO_Alloc]
     (Pool_new 8 8 2 64 (\<lambda>_. 0))))) = {#64, 72, 64#}"
proof -
  let ?run = "slot_run Pool_Allocate Pool_Deallocate [SO_Alloc, SO_Alloc, SO_Free 64, SO_Alloc]
     (Pool_new 8 8 2 64 (\<lambda>_. 0))"
  have "map_option (\<lambda>(got, freed, p). (got, freed)) ?run = Some ([64, 72, 64], [64])"
    by code_simp
  then obtain p where p: "?run = Some ([64, 72, 64], [64], p)" by auto
  from pool_accounting [OF _ _ p] show ?thesis
    using p by simp
qed

text \<open>
  C29. Freeing is checked: a live slot is returned and becomes free, while a second free of the
  same slot and a pointer the pool does not own abort.
\<close>

theorem pool_free_checked:
  assumes "Pool_inv p" and "Pool_idle p" and "a \<noteq> nullptr"
  shows "if a \<in> Pool_live p
         then \<exists>p'. Pool_Deallocate a p = Some p' \<and> Pool_inv p' \<and> Pool_live p' = Pool_live p - {a} \<and>
                   Pool_FreeCount p' = Pool_FreeCount p + 1 \<and> Pool_Deallocate a p' = None
         else Pool_Deallocate a p = None"
proof (cases "a \<in> Pool_live p")
  case True
  obtain p' where p': "Pool_Deallocate a p = Some p'" "Pool_inv p'" "Pool_live p' = Pool_live p - {a}"
    "Pool_FreeCount p' = Pool_FreeCount p + 1"
    using Pool_Deallocate_correct(2) [OF assms(1,3) True] by blast
  moreover have "Pool_Deallocate a p' = None"
    using memory_pool.double_free_aborts [of p a p'] assms p'(1) by blast
  ultimately show ?thesis using True by simp
next
  case False
  then show ?thesis using Pool_Deallocate_correct(1) [OF assms(1,3)] by simp
qed

theorem pool_free_checked_witness: "Pool_Deallocate 65 (Pool_new 8 8 2 64 (\<lambda>_. 0)) = None"
  using pool_free_checked [of "Pool_new 8 8 2 64 (\<lambda>_. 0)" 65] Pool_new_inv [of 2 64 8 8 "\<lambda>_. 0"]
  by simp

text \<open>
  C30. An object pool never fails to provide an object and never leaks one: acquiring yields a
  fresh non-null object, from the pool or from the heap, or leaves the set of live objects
  unchanged when the constructor throws; releasing a live object destroys it exactly once and
  removes it, and releasing anything else aborts.
\<close>

theorem object_pool_acquire_release:
  assumes "ObjectPool_inv s" and "fresh \<noteq> nullptr" and "fresh \<notin> ObjectPool_live s"
    and "\<not> ObjectPool_Owns fresh s" and "a \<noteq> nullptr"
  shows "(\<exists>r s'. ObjectPool_Acquire throws fresh s = Some (r, s') \<and> ObjectPool_inv s' \<and>
           (if throws then r = ConstructorThrew \<and> ObjectPool_live s' = ObjectPool_live s
            else \<exists>b. r = Acquired b \<and> b \<noteq> nullptr \<and> b \<notin> ObjectPool_live s \<and>
                     ObjectPool_live s' = insert b (ObjectPool_live s))) \<and>
         (if a \<in> ObjectPool_live s
          then \<exists>s'. ObjectPool_Release a s = Some s' \<and> ObjectPool_inv s' \<and>
                    ObjectPool_live s' = ObjectPool_live s - {a} \<and>
                    ob_destroyed s' = ob_destroyed s @ [a]
          else ObjectPool_Release a s = None)"
  using ObjectPool_Acquire_correct [OF assms(1-3), of throws] assms(4)
    ObjectPool_Release_correct [OF assms(1,5)]
  unfolding ObjectPool_Owns_def by metis

theorem object_pool_acquire_release_witness:
  "\<exists>b s'. ObjectPool_Acquire False 1000
     \<lparr>ob_pool = Pool_new 8 8 1 64 (\<lambda>_. 0), ob_overflow_count = 0, ob_overflow = [], ob_destroyed = []\<rparr>
     = Some (Acquired b, s') \<and> b \<noteq> 0"
proof -
  let ?s = "\<lparr>ob_pool = Pool_new 8 8 1 64 (\<lambda>_. 0), ob_overflow_count = 0, ob_overflow = [],
            ob_destroyed = []\<rparr>"
  have "ObjectPool_inv ?s" "ObjectPool_live ?s = {}" "\<not> ObjectPool_Owns 1000 ?s"
    using Pool_new_inv [of 1 64 8 8 "\<lambda>_. 0"]
    by (simp_all add: ObjectPool_inv_def ObjectPool_live_def ObjectPool_Owns_def Pool_Owns_def
        Pool_new_def Pool_Initialize_def Let_def kSlotSize_def kAlignment_def kRawSlotSize_def)
  then show ?thesis
    using object_pool_acquire_release [of ?s 1000 1 False] by auto
qed

end
