(* ===== verification/Coro_Channel.thy ===== *)
theory Coro_Channel
  imports Alyrn_Prelude "HOL-Library.Sublist" "HOL-Library.Multiset"
begin

text \<open>
  \<^verbatim>\<open>coro/channel.h\<close>: the scheduler-affine channel with its send and receive awaiters. Awaiters
  are named by numbers and kept in two stores beside the channel; the intrusive waiter queues
  are lists of names. The ring indices are 64-bit words that wrap with the mask, as in the
  source. \<open>ch_ready\<close> collects the continuations handed to the scheduler, in order. \<open>current\<close> is
  \<^verbatim>\<open>Scheduler::TryCurrent()\<close>. The waiters of the queues are the channel's own awaiters; the
  registrations of \<^verbatim>\<open>Select\<close> are not modelled here.
\<close>

unbundle bit_operations_syntax

section \<open>State\<close>

record 'v SendAwaiter =
  sa_value :: "'v option"
  sa_result :: "unit result option"
  sa_waiting :: bool

record 'v ReceiveAwaiter =
  ra_result :: "'v option result option"
  ra_waiting :: bool

datatype continuation = SendCont nat | ReceiveCont nat

record 'v Channel =
  ch_scheduler :: nat
  ch_senders :: "nat list"
  ch_receivers :: "nat list"
  ch_buffer :: "'v option list"
  ch_capacity :: nat
  ch_mask :: u64
  ch_head :: u64
  ch_tail :: u64
  ch_size :: nat
  ch_closed :: bool
  ch_send :: "nat \<Rightarrow> 'v SendAwaiter"
  ch_recv :: "nat \<Rightarrow> 'v ReceiveAwaiter"
  ch_ready :: "continuation list"

section \<open>Ring buffer\<close>

function bit_ceil_from :: "nat \<Rightarrow> nat \<Rightarrow> nat" where
  "bit_ceil_from p n = (if p = 0 \<or> n \<le> p then p else bit_ceil_from (2 * p) n)"
  by pat_completeness auto
termination
  by (relation "measure (\<lambda>(p, n). n - p)") auto

text \<open>\<^verbatim>\<open>std::bit_ceil\<close>: the smallest power of two that is not below its argument.\<close>

definition bit_ceil :: "nat \<Rightarrow> nat" where
  "bit_ceil n = bit_ceil_from 1 n"

definition RingSize :: "nat \<Rightarrow> nat option" where
  "RingSize capacity = do {
     check (capacity \<le> 2 ^ 63);
     Some (if capacity = 0 then 0 else bit_ceil capacity)
   }"

definition Channel_new :: "nat \<Rightarrow> nat \<Rightarrow> 'v Channel option" where
  "Channel_new scheduler capacity = do {
     ring \<leftarrow> RingSize capacity;
     Some \<lparr>ch_scheduler = scheduler, ch_senders = [], ch_receivers = [],
           ch_buffer = replicate ring None, ch_capacity = capacity,
           ch_mask = (if ring = 0 then 0 else of_nat (ring - 1)),
           ch_head = 0, ch_tail = 0, ch_size = 0, ch_closed = False,
           ch_send = (\<lambda>_. \<lparr>sa_value = None, sa_result = None, sa_waiting = False\<rparr>),
           ch_recv = (\<lambda>_. \<lparr>ra_result = None, ra_waiting = False\<rparr>),
           ch_ready = []\<rparr>
   }"

definition CheckOwner :: "nat \<Rightarrow> 'v Channel \<Rightarrow> unit option" where
  "CheckOwner current c = check (current = ch_scheduler c)"

definition PushBuffer :: "'v \<Rightarrow> 'v Channel \<Rightarrow> 'v Channel option" where
  "PushBuffer v c = do {
     check (ch_size c \<noteq> ch_capacity c);
     Some (c\<lparr>ch_buffer := (ch_buffer c)[unat (ch_tail c) := Some v],
             ch_tail := (ch_tail c + 1) AND ch_mask c,
             ch_size := ch_size c + 1\<rparr>)
   }"

definition PopBuffer :: "'v Channel \<Rightarrow> ('v \<times> 'v Channel) option" where
  "PopBuffer c = do {
     check (ch_size c \<noteq> 0);
     v \<leftarrow> ch_buffer c ! unat (ch_head c);
     Some (v, c\<lparr>ch_buffer := (ch_buffer c)[unat (ch_head c) := None],
                ch_head := (ch_head c + 1) AND ch_mask c,
                ch_size := ch_size c - 1\<rparr>)
   }"

section \<open>Waiters\<close>

definition pop_sender :: "'v Channel \<Rightarrow> (nat \<times> 'v Channel) option" where
  "pop_sender c =
     (case ch_senders c of [] \<Rightarrow> None | i # is \<Rightarrow> Some (i, c\<lparr>ch_senders := is\<rparr>))"

definition pop_receiver :: "'v Channel \<Rightarrow> (nat \<times> 'v Channel) option" where
  "pop_receiver c =
     (case ch_receivers c of [] \<Rightarrow> None | i # is \<Rightarrow> Some (i, c\<lparr>ch_receivers := is\<rparr>))"

definition Send_TakeValue :: "nat \<Rightarrow> 'v Channel \<Rightarrow> ('v \<times> 'v Channel) option" where
  "Send_TakeValue i c = do {
     v \<leftarrow> sa_value (ch_send c i);
     Some (v, c\<lparr>ch_send := (ch_send c)(i := (ch_send c i)\<lparr>sa_value := None\<rparr>)\<rparr>)
   }"

definition Send_Complete :: "nat \<Rightarrow> 'v Channel \<Rightarrow> 'v Channel option" where
  "Send_Complete i c = do {
     check (sa_waiting (ch_send c i));
     Some (c\<lparr>ch_send := (ch_send c)(i := (ch_send c i)\<lparr>sa_waiting := False, sa_result := Some (Ok ())\<rparr>),
             ch_ready := ch_ready c @ [SendCont i]\<rparr>)
   }"

definition Receive_CompleteValue :: "nat \<Rightarrow> 'v \<Rightarrow> 'v Channel \<Rightarrow> 'v Channel option" where
  "Receive_CompleteValue i v c = do {
     check (ra_waiting (ch_recv c i));
     Some (c\<lparr>ch_recv := (ch_recv c)(i := (ch_recv c i)\<lparr>ra_waiting := False,
                                                         ra_result := Some (Ok (Some v))\<rparr>),
             ch_ready := ch_ready c @ [ReceiveCont i]\<rparr>)
   }"

definition Receive_CompleteClosed :: "nat \<Rightarrow> 'v Channel \<Rightarrow> 'v Channel option" where
  "Receive_CompleteClosed i c = do {
     check (ra_waiting (ch_recv c i));
     Some (c\<lparr>ch_recv := (ch_recv c)(i := (ch_recv c i)\<lparr>ra_waiting := False,
                                                         ra_result := Some (Ok None)\<rparr>),
             ch_ready := ch_ready c @ [ReceiveCont i]\<rparr>)
   }"

text \<open>\<^verbatim>\<open>NotifyClosed\<close> of a send awaiter always aborts.\<close>

definition Send_NotifyClosed :: "nat \<Rightarrow> 'v Channel \<Rightarrow> 'v Channel option" where
  "Send_NotifyClosed i c = do { check False; Some c }"

section \<open>Channel operations\<close>

definition TrySend :: "nat \<Rightarrow> 'v \<Rightarrow> 'v Channel \<Rightarrow> (bool \<times> 'v Channel) option" where
  "TrySend current v c = do {
     CheckOwner current c;
     check (\<not> ch_closed c);
     case pop_receiver c of
       Some (r, c1) \<Rightarrow> do {
         c2 \<leftarrow> Receive_CompleteValue r v c1;
         Some (True, c2)
       }
     | None \<Rightarrow>
         if ch_size c = ch_capacity c then Some (False, c)
         else do {
           c1 \<leftarrow> PushBuffer v c;
           Some (True, c1)
         }
   }"

text \<open>
  What \<^verbatim>\<open>TryReceive\<close> and \<^verbatim>\<open>ReceiveAwaiter::await_suspend\<close> share: \<open>Some (Some r)\<close> is a receive
  that finished with \<open>r\<close>, where \<open>r = None\<close> is the end of the stream; \<open>Some None\<close> would block.
\<close>

definition ReceiveNow :: "'v Channel \<Rightarrow> ('v option option \<times> 'v Channel) option" where
  "ReceiveNow c =
     (if ch_size c \<noteq> 0 then do {
        (v, c1) \<leftarrow> PopBuffer c;
        c3 \<leftarrow> (case pop_sender c1 of
                Some (s, c2) \<Rightarrow> do {
                  (w, c3) \<leftarrow> Send_TakeValue s c2;
                  c4 \<leftarrow> PushBuffer w c3;
                  Send_Complete s c4
                }
              | None \<Rightarrow> Some c1);
        Some (Some (Some v), c3)
      }
      else
        case pop_sender c of
          Some (s, c1) \<Rightarrow> do {
            (v, c2) \<leftarrow> Send_TakeValue s c1;
            c3 \<leftarrow> Send_Complete s c2;
            Some (Some (Some v), c3)
          }
        | None \<Rightarrow> if ch_closed c then Some (Some None, c) else Some (None, c))"

text \<open>\<open>output\<close> is the optional the caller passes by reference.\<close>

definition TryReceive ::
    "nat \<Rightarrow> 'v option \<Rightarrow> 'v Channel \<Rightarrow> (bool \<times> 'v option \<times> 'v Channel) option" where
  "TryReceive current output c = do {
     CheckOwner current c;
     (r, c1) \<leftarrow> ReceiveNow c;
     Some (case r of Some v \<Rightarrow> (True, v, c1) | None \<Rightarrow> (False, output, c1))
   }"

fun Close_senders :: "nat list \<Rightarrow> 'v Channel \<Rightarrow> 'v Channel option" where
  "Close_senders [] c = Some c"
| "Close_senders (i # is) c = do {
     c1 \<leftarrow> Send_NotifyClosed i (c\<lparr>ch_senders := is\<rparr>);
     Close_senders is c1
   }"

fun Close_receivers :: "nat list \<Rightarrow> 'v Channel \<Rightarrow> 'v Channel option" where
  "Close_receivers [] c = Some c"
| "Close_receivers (i # is) c = do {
     c1 \<leftarrow> Receive_CompleteClosed i (c\<lparr>ch_receivers := is\<rparr>);
     Close_receivers is c1
   }"

definition Channel_Close :: "nat \<Rightarrow> 'v Channel \<Rightarrow> 'v Channel option" where
  "Channel_Close current c = do {
     CheckOwner current c;
     check (\<not> ch_closed c);
     let c1 = c\<lparr>ch_closed := True\<rparr>;
     c2 \<leftarrow> Close_senders (ch_senders c1) c1;
     if ch_size c2 \<noteq> 0 then Some c2 else Close_receivers (ch_receivers c2) c2
   }"

definition Channel_destructor :: "'v Channel \<Rightarrow> unit option" where
  "Channel_destructor c = do {
     check (ch_closed c);
     check (ch_senders c = [] \<and> ch_receivers c = [])
   }"

section \<open>Awaiters\<close>

text \<open>Construction of awaiter \<open>i\<close> with its value.\<close>

definition SendAwaiter_new :: "nat \<Rightarrow> 'v \<Rightarrow> 'v Channel \<Rightarrow> 'v Channel" where
  "SendAwaiter_new i v c =
     c\<lparr>ch_send := (ch_send c)(i := \<lparr>sa_value = Some v, sa_result = None, sa_waiting = False\<rparr>)\<rparr>"

definition Send_await_suspend :: "nat \<Rightarrow> nat \<Rightarrow> 'v Channel \<Rightarrow> (bool \<times> 'v Channel) option" where
  "Send_await_suspend current i c = do {
     CheckOwner current c;
     check (\<not> ch_closed c);
     case pop_receiver c of
       Some (r, c1) \<Rightarrow> do {
         (v, c2) \<leftarrow> Send_TakeValue i c1;
         c3 \<leftarrow> Receive_CompleteValue r v c2;
         Some (False, c3\<lparr>ch_send := (ch_send c3)(i := (ch_send c3 i)\<lparr>sa_result := Some (Ok ())\<rparr>)\<rparr>)
       }
     | None \<Rightarrow>
         if ch_size c \<noteq> ch_capacity c then do {
           (v, c1) \<leftarrow> Send_TakeValue i c;
           c2 \<leftarrow> PushBuffer v c1;
           Some (False, c2\<lparr>ch_send := (ch_send c2)(i := (ch_send c2 i)\<lparr>sa_result := Some (Ok ())\<rparr>)\<rparr>)
         }
         else do {
           check (i \<notin> set (ch_senders c));
           Some (True, c\<lparr>ch_send := (ch_send c)(i := (ch_send c i)\<lparr>sa_waiting := True\<rparr>),
                         ch_senders := ch_senders c @ [i]\<rparr>)
         }
   }"

definition Send_await_resume :: "nat \<Rightarrow> 'v Channel \<Rightarrow> unit result option" where
  "Send_await_resume i c = sa_result (ch_send c i)"

definition CancelSend :: "nat \<Rightarrow> nat \<Rightarrow> 'v Channel \<Rightarrow> 'v Channel option" where
  "CancelSend current i c = do {
     CheckOwner current c;
     check (i \<in> set (ch_senders c));
     Some (c\<lparr>ch_senders := filter (\<lambda>j. j \<noteq> i) (ch_senders c),
             ch_send := (ch_send c)(i := (ch_send c i)\<lparr>sa_waiting := False\<rparr>)\<rparr>)
   }"

definition SendAwaiter_destructor :: "nat \<Rightarrow> nat \<Rightarrow> 'v Channel \<Rightarrow> 'v Channel option" where
  "SendAwaiter_destructor current i c =
     (if sa_waiting (ch_send c i) then CancelSend current i c else Some c)"

definition ReceiveAwaiter_new :: "nat \<Rightarrow> 'v Channel \<Rightarrow> 'v Channel" where
  "ReceiveAwaiter_new i c =
     c\<lparr>ch_recv := (ch_recv c)(i := \<lparr>ra_result = None, ra_waiting = False\<rparr>)\<rparr>"

definition Receive_await_suspend :: "nat \<Rightarrow> nat \<Rightarrow> 'v Channel \<Rightarrow> (bool \<times> 'v Channel) option" where
  "Receive_await_suspend current i c = do {
     CheckOwner current c;
     (r, c1) \<leftarrow> ReceiveNow c;
     case r of
       Some v \<Rightarrow>
         Some (False, c1\<lparr>ch_recv := (ch_recv c1)(i := (ch_recv c1 i)\<lparr>ra_result := Some (Ok v)\<rparr>)\<rparr>)
     | None \<Rightarrow> do {
         check (i \<notin> set (ch_receivers c1));
         Some (True, c1\<lparr>ch_recv := (ch_recv c1)(i := (ch_recv c1 i)\<lparr>ra_waiting := True\<rparr>),
                        ch_receivers := ch_receivers c1 @ [i]\<rparr>)
       }
   }"

definition Receive_await_resume ::
    "nat \<Rightarrow> 'v option \<Rightarrow> 'v Channel \<Rightarrow> (unit result \<times> 'v option) option" where
  "Receive_await_resume i output c = do {
     r \<leftarrow> ra_result (ch_recv c i);
     Some (case r of Inl e \<Rightarrow> (Err e, output) | Inr v \<Rightarrow> (Ok (), v))
   }"

definition CancelReceive :: "nat \<Rightarrow> nat \<Rightarrow> 'v Channel \<Rightarrow> 'v Channel option" where
  "CancelReceive current i c = do {
     CheckOwner current c;
     check (i \<in> set (ch_receivers c));
     Some (c\<lparr>ch_receivers := filter (\<lambda>j. j \<noteq> i) (ch_receivers c),
             ch_recv := (ch_recv c)(i := (ch_recv c i)\<lparr>ra_waiting := False\<rparr>)\<rparr>)
   }"

definition ReceiveAwaiter_destructor :: "nat \<Rightarrow> nat \<Rightarrow> 'v Channel \<Rightarrow> 'v Channel option" where
  "ReceiveAwaiter_destructor current i c =
     (if ra_waiting (ch_recv c i) then CancelReceive current i c else Some c)"

declare bit_ceil_from.simps [simp del]

section \<open>Ring arithmetic\<close>

lemma bit_ceil_from_power:
  "\<exists>k. bit_ceil_from (2 ^ j) n = 2 ^ k \<and> n \<le> 2 ^ k \<and> (2 ^ k < 2 * n \<or> k = j)"
proof (induction "(2 :: nat) ^ j" n arbitrary: j rule: bit_ceil_from.induct)
  case (1 n)
  show ?case
  proof (cases "n \<le> 2 ^ j")
    case True
    then show ?thesis by (auto simp: bit_ceil_from.simps)
  next
    case False
    then obtain k where "bit_ceil_from (2 ^ Suc j) n = 2 ^ k" "n \<le> 2 ^ k" "2 ^ k < 2 * n \<or> k = Suc j"
      using "1.hyps" [of "Suc j"] by auto
    moreover have "bit_ceil_from (2 ^ j) n = bit_ceil_from (2 ^ Suc j) n"
      using False by (subst bit_ceil_from.simps) simp
    ultimately show ?thesis
      using False by force
  qed
qed

lemma RingSize_power:
  assumes "RingSize capacity = Some ring" and "capacity > 0"
  shows "\<exists>k\<le>63. ring = 2 ^ k \<and> capacity \<le> ring"
proof -
  have ring: "ring = bit_ceil_from (2 ^ 0) capacity" and small: "capacity \<le> 2 ^ 63"
    using assms by (auto simp: RingSize_def bit_ceil_def)
  obtain k where k: "ring = 2 ^ k" "capacity \<le> 2 ^ k" "2 ^ k < 2 * capacity \<or> k = 0"
    using bit_ceil_from_power [of 0 capacity] ring by auto
  have "k \<le> 63"
  proof (rule ccontr)
    assume "\<not> k \<le> 63"
    then have "(2 :: nat) ^ 64 \<le> 2 ^ k"
      by (intro power_increasing) auto
    then show False
      using k(3) small \<open>\<not> k \<le> 63\<close> by auto
  qed
  then show ?thesis using k by auto
qed

lemma unat_ring_next:
  fixes h :: u64
  assumes "k \<le> 63" and "unat h < 2 ^ k"
  shows "unat ((h + 1) AND of_nat (2 ^ k - 1)) = (unat h + 1) mod 2 ^ k"
proof -
  have "(of_nat (2 ^ k - 1) :: u64) = mask k"
    by (simp add: mask_eq_exp_minus_1 of_nat_diff)
  then have "(h + 1) AND of_nat (2 ^ k - 1) = take_bit k (h + 1)"
    by (simp add: take_bit_eq_mask)
  moreover have "unat (h + 1) = unat h + 1"
  proof -
    have "unat h + 1 \<le> 2 ^ k" using assms(2) by simp
    also have "(2 :: nat) ^ k \<le> 2 ^ 63" using assms(1) by (intro power_increasing) auto
    finally have "unat h + 1 < 2 ^ 64" by simp
    then show ?thesis by (simp add: unat_word_ariths)
  qed
  moreover have "unat (take_bit k (h + 1)) = take_bit k (unat (h + 1))"
    by (rule unsigned_take_bit_eq)
  ultimately show ?thesis
    by (simp only: take_bit_nat_def)
qed

lemma mod_shift_inj:
  assumes "(a + i) mod R = (a + j) mod R" and "i < R" and "j < (R :: nat)"
  shows "i = j"
proof -
  have aux: "i = j" if "i \<le> j" "(a + i) mod R = (a + j) mod R" "j < R" for i j
  proof -
    have "R dvd (a + j) - (a + i)"
      using that mod_eq_dvd_iff_nat [of "a + i" "a + j" R] by simp
    then show ?thesis
      using that by (auto dest: dvd_imp_le)
  qed
  show ?thesis
    using aux [of i j] aux [of j i] assms by (cases "i \<le> j") auto
qed

section \<open>Ring invariant\<close>

definition ring_slot :: "'v Channel \<Rightarrow> nat \<Rightarrow> nat" where
  "ring_slot c k = (unat (ch_head c) + k) mod length (ch_buffer c)"

lemma ring_slot_frame [simp]:
  "ring_slot (c\<lparr>ch_tail := t\<rparr>) k = ring_slot c k"
  "ring_slot (c\<lparr>ch_size := n\<rparr>) k = ring_slot c k"
  "ring_slot (c\<lparr>ch_buffer := (ch_buffer c)[i := x]\<rparr>) k = ring_slot c k"
  by (simp_all add: ring_slot_def)

definition Ring_inv :: "'v Channel \<Rightarrow> bool" where
  "Ring_inv c \<longleftrightarrow>
     ch_size c \<le> ch_capacity c \<and>
     (ch_capacity c > 0 \<longrightarrow>
        (\<exists>k\<le>63. length (ch_buffer c) = 2 ^ k) \<and> ch_capacity c \<le> length (ch_buffer c) \<and>
        ch_mask c = of_nat (length (ch_buffer c) - 1) \<and>
        unat (ch_head c) < length (ch_buffer c) \<and> unat (ch_tail c) = ring_slot c (ch_size c) \<and>
        (\<forall>k<ch_size c. ch_buffer c ! ring_slot c k \<noteq> None))"

definition ring_contents :: "'v Channel \<Rightarrow> 'v list" where
  "ring_contents c = map (\<lambda>k. the (ch_buffer c ! ring_slot c k)) [0..<ch_size c]"

lemma length_ring_contents [simp]: "length (ring_contents c) = ch_size c"
  by (simp add: ring_contents_def)

text \<open>Both only depend on the ring fields.\<close>

definition same_ring :: "'v Channel \<Rightarrow> 'v Channel \<Rightarrow> bool" where
  "same_ring c d \<longleftrightarrow>
     ch_buffer c = ch_buffer d \<and> ch_capacity c = ch_capacity d \<and> ch_mask c = ch_mask d \<and>
     ch_head c = ch_head d \<and> ch_tail c = ch_tail d \<and> ch_size c = ch_size d"

lemma same_ring_inv: "same_ring c d \<Longrightarrow> Ring_inv c = Ring_inv d"
  by (simp add: same_ring_def Ring_inv_def ring_slot_def)

lemma same_ring_contents: "same_ring c d \<Longrightarrow> ring_contents c = ring_contents d"
  by (simp add: same_ring_def ring_contents_def ring_slot_def)

lemma Channel_new_ring:
  assumes "Channel_new scheduler capacity = Some c"
  shows "Ring_inv c \<and> ring_contents c = []"
proof -
  obtain ring where ring: "RingSize capacity = Some ring"
    using assms by (cases "RingSize capacity") (auto simp: Channel_new_def)
  show ?thesis
  proof (cases "capacity = 0")
    case True
    then show ?thesis using assms ring by (auto simp: Channel_new_def Ring_inv_def ring_contents_def)
  next
    case False
    then obtain k where "k \<le> 63" "ring = 2 ^ k" "capacity \<le> ring"
      using RingSize_power [OF ring] by auto
    then show ?thesis
      using assms ring by (auto simp: Channel_new_def Ring_inv_def ring_contents_def ring_slot_def)
  qed
qed

lemma PushBuffer_correct:
  assumes "Ring_inv c" and "ch_size c \<noteq> ch_capacity c"
  shows "\<exists>c'. PushBuffer v c = Some c' \<and> Ring_inv c' \<and> ring_contents c' = ring_contents c @ [v] \<and>
              ch_size c' = ch_size c + 1 \<and>
              c' = c\<lparr>ch_buffer := ch_buffer c', ch_tail := ch_tail c', ch_size := ch_size c'\<rparr>"
proof -
  let ?R = "length (ch_buffer c)" and ?n = "ch_size c"
  have n: "?n < ch_capacity c"
    using assms by (simp add: Ring_inv_def)
  then obtain k where k: "k \<le> 63" "?R = 2 ^ k"
    and ring: "ch_capacity c \<le> ?R" "ch_mask c = of_nat (?R - 1)" "unat (ch_head c) < ?R"
      "unat (ch_tail c) = ring_slot c ?n" "\<forall>k<?n. ch_buffer c ! ring_slot c k \<noteq> None"
    using assms(1) by (auto simp: Ring_inv_def)
  let ?c = "c\<lparr>ch_buffer := (ch_buffer c)[unat (ch_tail c) := Some v],
              ch_tail := (ch_tail c + 1) AND ch_mask c, ch_size := ?n + 1\<rparr>"
  have slot: "ring_slot ?c j = ring_slot c j" for j
    by (simp add: ring_slot_def)
  have other: "ring_slot c j \<noteq> ring_slot c ?n" if "j < ?n" for j
    using mod_shift_inj [of "unat (ch_head c)" j ?R ?n] that n ring(1) by (auto simp: ring_slot_def)
  have tail: "unat (ch_tail c) < ?R"
    using k(2) ring(4) by (simp add: ring_slot_def)
  have cells: "ch_buffer ?c ! ring_slot c j = (if j = ?n then Some v else ch_buffer c ! ring_slot c j)"
    if "j \<le> ?n" for j
    using that other [of j] ring(4) tail by (auto simp: nth_list_update)
  have "unat (ch_tail ?c) = (unat (ch_tail c) + 1) mod ?R"
    using unat_ring_next [OF k(1), of "ch_tail c"] tail k(2) ring(2) by simp
  also have "\<dots> = ring_slot c (?n + 1)"
    using ring(4) by (simp add: ring_slot_def mod_Suc_eq)
  finally have "Ring_inv ?c"
    using n ring k cells by (auto simp: Ring_inv_def slot less_Suc_eq)
  moreover have "ring_contents ?c = ring_contents c @ [v]"
    using cells by (simp add: ring_contents_def slot)
  ultimately show ?thesis
    using assms(2) by (intro exI [of _ ?c]) (simp add: PushBuffer_def)
qed

lemma PopBuffer_correct:
  assumes "Ring_inv c" and "ch_size c \<noteq> 0"
  shows "\<exists>v c'. PopBuffer c = Some (v, c') \<and> Ring_inv c' \<and> ring_contents c = v # ring_contents c' \<and>
              ch_size c' = ch_size c - 1 \<and>
              c' = c\<lparr>ch_buffer := ch_buffer c', ch_head := ch_head c', ch_size := ch_size c'\<rparr>"
proof -
  let ?R = "length (ch_buffer c)" and ?n = "ch_size c"
  have cap: "ch_capacity c > 0" "?n \<le> ch_capacity c"
    using assms by (auto simp: Ring_inv_def)
  then obtain k where k: "k \<le> 63" "?R = 2 ^ k"
    and ring: "ch_capacity c \<le> ?R" "ch_mask c = of_nat (?R - 1)" "unat (ch_head c) < ?R"
      "unat (ch_tail c) = ring_slot c ?n" "\<forall>k<?n. ch_buffer c ! ring_slot c k \<noteq> None"
    using assms(1) by (auto simp: Ring_inv_def)
  have head: "ring_slot c 0 = unat (ch_head c)"
    using ring(3) by (simp add: ring_slot_def)
  obtain v where v: "ch_buffer c ! unat (ch_head c) = Some v"
    using ring(5) assms(2) head by (metis not_gr_zero option.exhaust)
  let ?c = "c\<lparr>ch_buffer := (ch_buffer c)[unat (ch_head c) := None],
              ch_head := (ch_head c + 1) AND ch_mask c, ch_size := ?n - 1\<rparr>"
  have "unat (ch_head ?c) = (unat (ch_head c) + 1) mod ?R"
    using unat_ring_next [OF k(1), of "ch_head c"] ring(2,3) k(2) by simp
  then have slot: "ring_slot ?c j = ring_slot c (j + 1)" for j
    by (simp add: ring_slot_def mod_simps add.commute)
  have cells: "ch_buffer ?c ! ring_slot c (j + 1) = ch_buffer c ! ring_slot c (j + 1)" if "j + 1 < ?n" for j
  proof -
    have "ring_slot c (j + 1) \<noteq> ring_slot c 0"
      using mod_shift_inj [of "unat (ch_head c)" "j + 1" ?R 0] that cap ring(1)
      unfolding ring_slot_def by linarith
    then show ?thesis
      using head by (simp add: nth_list_update)
  qed
  have "unat (ch_head ?c) < ?R"
    using \<open>unat (ch_head ?c) = _\<close> k(2) by simp
  then have "Ring_inv ?c"
    using cap ring k cells assms(2) slot by (auto simp: Ring_inv_def)
  moreover have "ring_contents c = v # ring_contents ?c"
  proof -
    have "[0..<?n] = 0 # map Suc [0..<?n - 1]"
      using assms(2) by (simp add: map_Suc_upt upt_conv_Cons)
    then show ?thesis
      using v head slot cells by (simp add: ring_contents_def)
  qed
  ultimately show ?thesis
    using v assms(2) by (intro exI [of _ v] exI [of _ ?c]) (simp add: PopBuffer_def)
qed

section \<open>Channel invariant\<close>

definition Channel_inv :: "'v Channel \<Rightarrow> bool" where
  "Channel_inv c \<longleftrightarrow>
     Ring_inv c \<and> distinct (ch_senders c) \<and> distinct (ch_receivers c) \<and>
     (\<forall>i. sa_waiting (ch_send c i) \<longleftrightarrow> i \<in> set (ch_senders c)) \<and>
     (\<forall>i. ra_waiting (ch_recv c i) \<longleftrightarrow> i \<in> set (ch_receivers c)) \<and>
     (\<forall>i\<in>set (ch_senders c). sa_value (ch_send c i) \<noteq> None \<and> sa_result (ch_send c i) = None) \<and>
     (\<forall>i\<in>set (ch_receivers c). ra_result (ch_recv c i) = None) \<and>
     (ch_senders c \<noteq> [] \<longrightarrow> ch_size c = ch_capacity c \<and> \<not> ch_closed c) \<and>
     (ch_receivers c \<noteq> [] \<longrightarrow> ch_size c = 0 \<and> ch_senders c = [] \<and> \<not> ch_closed c)"

definition sender_values :: "'v Channel \<Rightarrow> 'v list" where
  "sender_values c = map (\<lambda>i. the (sa_value (ch_send c i))) (ch_senders c)"

text \<open>Everything that was sent and not yet received, oldest first.\<close>

definition Channel_held :: "'v Channel \<Rightarrow> 'v list" where
  "Channel_held c = ring_contents c @ sender_values c"

lemma Channel_new_inv:
  assumes "Channel_new scheduler capacity = Some c"
  shows "Channel_inv c \<and> Channel_held c = [] \<and> ch_scheduler c = scheduler \<and> \<not> ch_closed c"
  using Channel_new_ring [OF assms] assms
  by (cases "RingSize capacity")
     (auto simp: Channel_new_def Channel_inv_def Channel_held_def sender_values_def)

lemma Ring_frame [simp]:
  "Ring_inv (c\<lparr>ch_senders := is\<rparr>) = Ring_inv c" "ring_contents (c\<lparr>ch_senders := is\<rparr>) = ring_contents c"
  "Ring_inv (c\<lparr>ch_receivers := is\<rparr>) = Ring_inv c" "ring_contents (c\<lparr>ch_receivers := is\<rparr>) = ring_contents c"
  "Ring_inv (c\<lparr>ch_send := sa\<rparr>) = Ring_inv c" "ring_contents (c\<lparr>ch_send := sa\<rparr>) = ring_contents c"
  "Ring_inv (c\<lparr>ch_recv := ra\<rparr>) = Ring_inv c" "ring_contents (c\<lparr>ch_recv := ra\<rparr>) = ring_contents c"
  "Ring_inv (c\<lparr>ch_ready := w\<rparr>) = Ring_inv c" "ring_contents (c\<lparr>ch_ready := w\<rparr>) = ring_contents c"
  "Ring_inv (c\<lparr>ch_closed := b\<rparr>) = Ring_inv c" "ring_contents (c\<lparr>ch_closed := b\<rparr>) = ring_contents c"
  by (auto intro!: same_ring_inv same_ring_contents simp: same_ring_def)

text \<open>A buffer operation leaves the waiters alone.\<close>

definition same_waiters :: "'v Channel \<Rightarrow> 'v Channel \<Rightarrow> bool" where
  "same_waiters c d \<longleftrightarrow>
     ch_senders c = ch_senders d \<and> ch_receivers c = ch_receivers d \<and> ch_send c = ch_send d \<and>
     ch_recv c = ch_recv d \<and> ch_ready c = ch_ready d \<and> ch_closed c = ch_closed d \<and>
     ch_scheduler c = ch_scheduler d \<and> ch_capacity c = ch_capacity d"

lemma PushBuffer_Some:
  assumes "Ring_inv c" and "ch_size c \<noteq> ch_capacity c"
  obtains c' where "PushBuffer v c = Some c'" "Ring_inv c'" "ring_contents c' = ring_contents c @ [v]"
    "ch_size c' = ch_size c + 1" "same_waiters c' c"
proof -
  obtain c' where c': "PushBuffer v c = Some c'" "Ring_inv c'" "ring_contents c' = ring_contents c @ [v]"
    "ch_size c' = ch_size c + 1"
    "c' = c\<lparr>ch_buffer := ch_buffer c', ch_tail := ch_tail c', ch_size := ch_size c'\<rparr>"
    using PushBuffer_correct [OF assms] by blast
  have "same_waiters c' c"
    by (subst c'(5)) (simp add: same_waiters_def)
  with c' that show thesis by blast
qed

lemma PopBuffer_Some:
  assumes "Ring_inv c" and "ch_size c \<noteq> 0"
  obtains v c' where "PopBuffer c = Some (v, c')" "Ring_inv c'" "ring_contents c = v # ring_contents c'"
    "ch_size c' = ch_size c - 1" "same_waiters c' c"
proof -
  obtain v c' where c': "PopBuffer c = Some (v, c')" "Ring_inv c'" "ring_contents c = v # ring_contents c'"
    "ch_size c' = ch_size c - 1"
    "c' = c\<lparr>ch_buffer := ch_buffer c', ch_head := ch_head c', ch_size := ch_size c'\<rparr>"
    using PopBuffer_correct [OF assms] by blast
  have "same_waiters c' c"
    by (subst c'(5)) (simp add: same_waiters_def)
  with c' that show thesis by blast
qed

section \<open>Operation lemmas\<close>

text \<open>Handing a value to the oldest waiting receiver.\<close>

lemma deliver_correct:
  assumes "Channel_inv c" and "ch_receivers c = r # rs"
    and "c' = c\<lparr>ch_receivers := rs,
                ch_recv := (ch_recv c)(r := (ch_recv c r)\<lparr>ra_waiting := False, ra_result := Some (Inr v)\<rparr>),
                ch_ready := ch_ready c @ [ReceiveCont r]\<rparr>"
  shows "Channel_inv c' \<and> Channel_held c' = Channel_held c \<and> Channel_held c = []"
  using assms
  by (auto simp: Channel_inv_def Channel_held_def sender_values_def ring_contents_def)

lemma TrySend_correct:
  assumes "Channel_inv c" and "\<not> ch_closed c"
  shows "\<exists>ok c'. TrySend (ch_scheduler c) v c = Some (ok, c') \<and> Channel_inv c' \<and>
     ch_closed c' = ch_closed c \<and> ch_scheduler c' = ch_scheduler c \<and>
     (case ch_receivers c of
        r # rs \<Rightarrow> ok \<and> Channel_held c = [] \<and> Channel_held c' = [] \<and> ch_receivers c' = rs \<and>
                  ra_result (ch_recv c' r) = Some (Inr (Some v)) \<and>
                  ch_ready c' = ch_ready c @ [ReceiveCont r]
      | [] \<Rightarrow> if ch_size c < ch_capacity c
              then ok \<and> Channel_held c' = Channel_held c @ [v] \<and> ch_ready c' = ch_ready c \<and>
                   ch_size c' = ch_size c + 1
              else \<not> ok \<and> c' = c)"
proof (cases "ch_receivers c")
  case Nil
  have ring: "Ring_inv c"
    using assms(1) by (simp add: Channel_inv_def)
  show ?thesis
  proof (cases "ch_size c = ch_capacity c")
    case True
    then show ?thesis
      using assms Nil
      by (intro exI [of _ False] exI [of _ c]) (simp add: TrySend_def CheckOwner_def pop_receiver_def)
  next
    case False
    then have less: "ch_size c < ch_capacity c" and none: "ch_senders c = []"
      using ring assms(1) by (auto simp: Ring_inv_def Channel_inv_def)
    obtain c' where c': "PushBuffer v c = Some c'" "Ring_inv c'" "ring_contents c' = ring_contents c @ [v]"
      "ch_size c' = ch_size c + 1" "same_waiters c' c"
      using PushBuffer_Some [OF ring False] .
    then have "TrySend (ch_scheduler c) v c = Some (True, c')"
      using assms Nil False by (simp add: TrySend_def CheckOwner_def pop_receiver_def)
    then show ?thesis
      using assms c' less none Nil
      by (auto simp: Channel_inv_def Channel_held_def sender_values_def same_waiters_def)
  qed
next
  case (Cons r rs)
  have "ra_waiting (ch_recv c r)"
    using assms(1) Cons by (simp add: Channel_inv_def)
  then have "TrySend (ch_scheduler c) v c =
      Some (True, c\<lparr>ch_receivers := rs,
        ch_recv := (ch_recv c)(r := (ch_recv c r)\<lparr>ra_waiting := False, ra_result := Some (Inr (Some v))\<rparr>),
        ch_ready := ch_ready c @ [ReceiveCont r]\<rparr>)"
    using assms(2) Cons
    by (simp add: TrySend_def CheckOwner_def pop_receiver_def Receive_CompleteValue_def)
  then show ?thesis
    using Cons deliver_correct [OF assms(1) Cons refl, of "Some v"] by fastforce
qed

text \<open>A sender whose value is taken is completed and scheduled.\<close>

abbreviation completed_sender :: "nat \<Rightarrow> nat list \<Rightarrow> 'v Channel \<Rightarrow> 'v Channel" where
  "completed_sender s is c \<equiv>
     c\<lparr>ch_senders := is,
       ch_send := (ch_send c)(s := (ch_send c s)\<lparr>sa_value := None, sa_waiting := False,
                                                 sa_result := Some (Inr ())\<rparr>),
       ch_ready := ch_ready c @ [SendCont s]\<rparr>"

lemma sender_front:
  assumes "Channel_inv c" and "ch_senders c = s # is"
  shows "\<exists>v. sa_value (ch_send c s) = Some v \<and> sa_waiting (ch_send c s) \<and>
             sender_values c = v # sender_values (completed_sender s is c) \<and>
             ch_size c = ch_capacity c \<and> \<not> ch_closed c \<and> ch_receivers c = [] \<and> s \<notin> set is"
proof -
  have inv: "distinct (ch_senders c)" "sa_value (ch_send c s) \<noteq> None" "sa_waiting (ch_send c s)"
    "ch_size c = ch_capacity c" "\<not> ch_closed c" "ch_receivers c = []"
    using assms by (auto simp: Channel_inv_def)
  then obtain v where v: "sa_value (ch_send c s) = Some v"
    by auto
  have "s \<notin> set is"
    using inv(1) assms(2) by simp
  then show ?thesis
    using inv v assms(2) by (simp add: sender_values_def)
qed

lemma completed_sender_inv:
  assumes "Channel_inv c" and "ch_senders c = s # is"
  shows "Channel_inv (completed_sender s is c)"
  using assms by (auto simp: Channel_inv_def)

text \<open>What a receive attempt does, in terms of the values held.\<close>

definition receive_outcome :: "'v Channel \<Rightarrow> 'v option option \<Rightarrow> 'v Channel \<Rightarrow> bool" where
  "receive_outcome c r c' \<longleftrightarrow>
     (case Channel_held c of
        v # vs \<Rightarrow> r = Some (Some v) \<and> Channel_held c' = vs \<and> ch_receivers c' = ch_receivers c \<and>
          ch_recv c' = ch_recv c \<and> ch_senders c' = tl (ch_senders c) \<and>
          ch_ready c' = ch_ready c @ map SendCont (take 1 (ch_senders c)) \<and>
          (\<forall>s\<in>set (take 1 (ch_senders c)). sa_result (ch_send c' s) = Some (Inr ()))
      | [] \<Rightarrow> c' = c \<and> r = (if ch_closed c then Some None else None))"

lemma ReceiveNow_correct:
  assumes "Channel_inv c"
  shows "\<exists>r c'. ReceiveNow c = Some (r, c') \<and> Channel_inv c' \<and>
     ch_closed c' = ch_closed c \<and> ch_scheduler c' = ch_scheduler c \<and> receive_outcome c r c'"
proof (cases "ch_size c = 0")
  case True
  then have ring: "ring_contents c = []"
    by (simp add: ring_contents_def)
  show ?thesis
  proof (cases "ch_senders c")
    case Nil
    then have "Channel_held c = []"
      using ring by (simp add: Channel_held_def sender_values_def)
    then show ?thesis
      using True Nil assms by (simp add: ReceiveNow_def pop_sender_def receive_outcome_def)
  next
    case (Cons s "is")
    obtain v where v: "sa_value (ch_send c s) = Some v" "sa_waiting (ch_send c s)"
      "sender_values c = v # sender_values (completed_sender s is c)"
      using sender_front [OF assms Cons] by blast
    then have "ReceiveNow c = Some (Some (Some v), completed_sender s is c)"
      using True Cons by (simp add: ReceiveNow_def pop_sender_def Send_TakeValue_def Send_Complete_def)
    then show ?thesis
      using v(3) ring Cons completed_sender_inv [OF assms Cons]
      by (simp add: Channel_held_def receive_outcome_def)
  qed
next
  case False
  have inv: "Ring_inv c" "ch_receivers c = []"
    using assms False by (auto simp: Channel_inv_def)
  obtain v c1 where pop: "PopBuffer c = Some (v, c1)" "Ring_inv c1" "ring_contents c = v # ring_contents c1"
    "ch_size c1 = ch_size c - 1" "same_waiters c1 c"
    using PopBuffer_Some [OF inv(1) False] .
  show ?thesis
  proof (cases "ch_senders c")
    case Nil
    then have "ReceiveNow c = Some (Some (Some v), c1)"
      using pop(1,5) False by (simp add: ReceiveNow_def pop_sender_def same_waiters_def)
    moreover have "Channel_inv c1"
      using assms pop(2,5) Nil inv(2) by (simp add: Channel_inv_def same_waiters_def)
    ultimately show ?thesis
      using pop(3,5) Nil by (simp add: Channel_held_def sender_values_def same_waiters_def receive_outcome_def)
  next
    case (Cons s "is")
    obtain w where w: "sa_value (ch_send c s) = Some w" "sa_waiting (ch_send c s)"
      "sender_values c = w # sender_values (completed_sender s is c)" "ch_size c = ch_capacity c"
      "\<not> ch_closed c"
      using sender_front [OF assms Cons] by blast
    let ?c2 = "c1\<lparr>ch_senders := is, ch_send := (ch_send c1)(s := (ch_send c1 s)\<lparr>sa_value := None\<rparr>)\<rparr>"
    have "ch_size ?c2 \<noteq> ch_capacity ?c2"
      using pop(4,5) False w(4) by (simp add: same_waiters_def)
    moreover have "Ring_inv ?c2" using pop(2) by simp
    ultimately obtain c3 where push: "PushBuffer w ?c2 = Some c3" "Ring_inv c3"
      "ring_contents c3 = ring_contents ?c2 @ [w]" "ch_size c3 = ch_size ?c2 + 1" "same_waiters c3 ?c2"
      using PushBuffer_Some [of ?c2 w] by blast
    let ?c4 = "c3\<lparr>ch_send := (ch_send c3)(s := (ch_send c3 s)\<lparr>sa_waiting := False, sa_result := Some (Inr ())\<rparr>),
                  ch_ready := ch_ready c3 @ [SendCont s]\<rparr>"
    have "ReceiveNow c = Some (Some (Some v), ?c4)"
      using False pop(1,5) push(1,5) Cons w(1,2)
      by (simp add: ReceiveNow_def pop_sender_def Send_TakeValue_def Send_Complete_def same_waiters_def)
    moreover have fields: "ch_senders ?c4 = is" "ch_receivers ?c4 = ch_receivers c" "ch_recv ?c4 = ch_recv c"
      "ch_send ?c4 = ch_send (completed_sender s is c)" "ch_ready ?c4 = ch_ready c @ [SendCont s]"
      "ch_closed ?c4 = ch_closed c" "ch_scheduler ?c4 = ch_scheduler c" "ch_capacity ?c4 = ch_capacity c"
      "ch_size ?c4 = ch_size c"
      using pop(4,5) push(4,5) False by (simp_all add: same_waiters_def)
    moreover have "Channel_inv ?c4"
      using completed_sender_inv [OF assms Cons] fields push(2) w(4,5) inv(2)
      unfolding Channel_inv_def by simp
    moreover have "Channel_held ?c4 = ring_contents c1 @ sender_values c"
      using push(3) w(3) fields by (simp add: Channel_held_def sender_values_def)
    ultimately show ?thesis
      using pop(3) Cons by (simp add: Channel_held_def receive_outcome_def)
  qed
qed

lemma Send_await_suspend_correct:
  assumes "Channel_inv c" and "\<not> ch_closed c" and "\<not> sa_waiting (ch_send c i)"
    and "d = SendAwaiter_new i v c"
  shows "\<exists>suspended c'. Send_await_suspend (ch_scheduler c) i d = Some (suspended, c') \<and>
     Channel_inv c' \<and> ch_closed c' = ch_closed c \<and> ch_scheduler c' = ch_scheduler c \<and>
     (case ch_receivers c of
        r # rs \<Rightarrow> \<not> suspended \<and> Channel_held c = [] \<and> Channel_held c' = [] \<and> ch_receivers c' = rs \<and>
                  ra_result (ch_recv c' r) = Some (Inr (Some v)) \<and>
                  Send_await_resume i c' = Some (Inr ()) \<and>
                  ch_ready c' = ch_ready c @ [ReceiveCont r]
      | [] \<Rightarrow> Channel_held c' = Channel_held c @ [v] \<and> ch_ready c' = ch_ready c \<and>
              (if ch_size c < ch_capacity c
               then \<not> suspended \<and> Send_await_resume i c' = Some (Inr ()) \<and> ch_senders c' = ch_senders c
               else suspended \<and> ch_senders c' = ch_senders c @ [i] \<and> ring_contents c' = ring_contents c))"
proof -
  have d: "ch_receivers d = ch_receivers c" "ch_size d = ch_size c" "ch_capacity d = ch_capacity c"
    "ch_senders d = ch_senders c" "ch_closed d = ch_closed c" "ch_scheduler d = ch_scheduler c"
    "Ring_inv d = Ring_inv c" "ring_contents d = ring_contents c" "ch_recv d = ch_recv c"
    "ch_ready d = ch_ready c" "sa_value (ch_send d i) = Some v"
    using assms(4) by (simp_all add: SendAwaiter_new_def)
  have ring: "Ring_inv c" and i: "i \<notin> set (ch_senders c)"
    using assms(1,3) by (simp_all add: Channel_inv_def)
  have inv_d: "Channel_inv d"
    using assms(1) i by (auto simp: assms(4) SendAwaiter_new_def Channel_inv_def)
  have held_d: "Channel_held d = Channel_held c" "sender_values d = sender_values c"
    using i by (auto simp: assms(4) SendAwaiter_new_def Channel_held_def sender_values_def)
  show ?thesis
  proof (cases "ch_receivers c")
    case (Cons r rs)
    let ?take = "d\<lparr>ch_receivers := rs, ch_send := (ch_send d)(i := (ch_send d i)\<lparr>sa_value := None\<rparr>),
        ch_recv := (ch_recv d)(r := (ch_recv d r)\<lparr>ra_waiting := False, ra_result := Some (Inr (Some v))\<rparr>),
        ch_ready := ch_ready d @ [ReceiveCont r],
        ch_send := (ch_send d)(i := (ch_send d i)\<lparr>sa_value := None, sa_result := Some (Inr ())\<rparr>)\<rparr>"
    have "ra_waiting (ch_recv c r)" "ch_senders c = []" "ch_size c = 0"
      using assms(1) Cons by (simp_all add: Channel_inv_def)
    moreover from this have "Send_await_suspend (ch_scheduler c) i d = Some (False, ?take)"
      using assms(2) d Cons
      by (simp add: Send_await_suspend_def CheckOwner_def pop_receiver_def Send_TakeValue_def
          Receive_CompleteValue_def)
    moreover have "Channel_inv ?take"
      using inv_d Cons d by (auto simp: Channel_inv_def)
    ultimately show ?thesis
      using Cons d held_d by (simp add: Channel_held_def sender_values_def Send_await_resume_def ring_contents_def)
  next
    case Nil
    show ?thesis
    proof (cases "ch_size c = ch_capacity c")
      case True
      let ?wait = "d\<lparr>ch_send := (ch_send d)(i := (ch_send d i)\<lparr>sa_waiting := True\<rparr>),
                     ch_senders := ch_senders d @ [i]\<rparr>"
      have "Send_await_suspend (ch_scheduler c) i d = Some (True, ?wait)"
        using assms(2) d Nil True i
        by (simp add: Send_await_suspend_def CheckOwner_def pop_receiver_def)
      moreover have "Channel_inv ?wait"
        using assms(1,2) Nil True i by (auto simp: Channel_inv_def assms(4) SendAwaiter_new_def)
      moreover have "sender_values ?wait = sender_values d @ [v]"
        using d(4,11) i by (auto simp: sender_values_def)
      ultimately show ?thesis
        using Nil True d held_d by (simp add: Channel_held_def)
    next
      case False
      then have less: "ch_size c < ch_capacity c" and none: "ch_senders c = []"
        using ring assms(1) by (auto simp: Ring_inv_def Channel_inv_def)
      let ?take = "d\<lparr>ch_send := (ch_send d)(i := (ch_send d i)\<lparr>sa_value := None\<rparr>)\<rparr>"
      have "Ring_inv ?take" "ch_size ?take \<noteq> ch_capacity ?take"
        using d ring False by simp_all
      then obtain c1 where c1: "PushBuffer v ?take = Some c1" "Ring_inv c1"
        "ring_contents c1 = ring_contents ?take @ [v]" "ch_size c1 = ch_size ?take + 1" "same_waiters c1 ?take"
        using PushBuffer_Some [of ?take v] by blast
      let ?c = "c1\<lparr>ch_send := (ch_send c1)(i := (ch_send c1 i)\<lparr>sa_result := Some (Inr ())\<rparr>)\<rparr>"
      have "Send_await_suspend (ch_scheduler c) i d = Some (False, ?c)"
        using assms(2) d Nil False c1(1)
        by (simp add: Send_await_suspend_def CheckOwner_def pop_receiver_def Send_TakeValue_def)
      moreover have "Channel_inv ?c"
        using inv_d c1 Nil none d less by (auto simp: Channel_inv_def same_waiters_def)
      ultimately show ?thesis
        using Nil less none c1 d held_d
        by (simp add: Channel_held_def sender_values_def same_waiters_def Send_await_resume_def)
    qed
  qed
qed

lemma Receive_await_suspend_correct:
  assumes "Channel_inv c" and "\<not> ra_waiting (ch_recv c i)" and "d = ReceiveAwaiter_new i c"
  shows "\<exists>suspended c'. Receive_await_suspend (ch_scheduler c) i d = Some (suspended, c') \<and>
     Channel_inv c' \<and> ch_closed c' = ch_closed c \<and> ch_scheduler c' = ch_scheduler c \<and>
     (case Channel_held c of
        v # vs \<Rightarrow> \<not> suspended \<and> Channel_held c' = vs \<and> ra_result (ch_recv c' i) = Some (Inr (Some v)) \<and>
                  ch_ready c' = ch_ready c @ map SendCont (take 1 (ch_senders c))
      | [] \<Rightarrow> Channel_held c' = [] \<and> ch_ready c' = ch_ready c \<and>
              (if ch_closed c
               then \<not> suspended \<and> ra_result (ch_recv c' i) = Some (Inr None)
               else suspended \<and> ch_receivers c' = ch_receivers c @ [i]))"
proof -
  have d: "ch_senders d = ch_senders c" "ch_closed d = ch_closed c" "ch_scheduler d = ch_scheduler c"
    "ch_ready d = ch_ready c" "ch_receivers d = ch_receivers c" "Channel_held d = Channel_held c"
    using assms(3) by (simp_all add: ReceiveAwaiter_new_def Channel_held_def sender_values_def)
  have i: "i \<notin> set (ch_receivers c)"
    using assms(1,2) by (simp add: Channel_inv_def)
  have inv_d: "Channel_inv d"
    using assms(1) i by (auto simp: assms(3) ReceiveAwaiter_new_def Channel_inv_def)
  obtain r c1 where now: "ReceiveNow d = Some (r, c1)" "Channel_inv c1" "ch_closed c1 = ch_closed d"
    "ch_scheduler c1 = ch_scheduler d"
    and outcome: "receive_outcome d r c1"
    using ReceiveNow_correct [OF inv_d] by blast
  let ?got = "\<lambda>v. c1\<lparr>ch_recv := (ch_recv c1)(i := (ch_recv c1 i)\<lparr>ra_result := Some (Inr v)\<rparr>)\<rparr>"
  have got: "Channel_inv (?got v)" "Channel_held (?got v) = Channel_held c1" if "i \<notin> set (ch_receivers c1)" for v
    using now(2) that by (auto simp: Channel_inv_def Channel_held_def sender_values_def)
  show ?thesis
  proof (cases "Channel_held c")
    case (Cons v vs)
    then have r: "r = Some (Some v)" "Channel_held c1 = vs" "ch_receivers c1 = ch_receivers c"
      "ch_ready c1 = ch_ready c @ map SendCont (take 1 (ch_senders c))"
      using outcome d by (simp_all add: receive_outcome_def)
    then have "Receive_await_suspend (ch_scheduler c) i d = Some (False, ?got (Some v))"
      using now(1) d(3) by (simp add: Receive_await_suspend_def CheckOwner_def)
    then show ?thesis
      using Cons r got [of "Some v"] i now(3,4) d by simp
  next
    case Nil
    then have r: "c1 = d" "r = (if ch_closed c then Some None else None)"
      using outcome d by (simp_all add: receive_outcome_def)
    show ?thesis
    proof (cases "ch_closed c")
      case True
      then have "Receive_await_suspend (ch_scheduler c) i d = Some (False, ?got None)"
        using now(1) d(3) r by (simp add: Receive_await_suspend_def CheckOwner_def)
      then show ?thesis
        using Nil r got [of None] i now(3,4) d True by simp
    next
      case False
      let ?c = "d\<lparr>ch_recv := (ch_recv d)(i := (ch_recv d i)\<lparr>ra_waiting := True\<rparr>),
                  ch_receivers := ch_receivers d @ [i]\<rparr>"
      have "Receive_await_suspend (ch_scheduler c) i d = Some (True, ?c)"
        using now(1) d(3,5) r False i by (simp add: Receive_await_suspend_def CheckOwner_def)
      moreover have "ch_size c = 0" "ch_senders c = []"
        using Nil by (simp_all add: Channel_held_def sender_values_def flip: length_ring_contents)
      then have "Channel_inv ?c"
        using assms(1) i False by (auto simp: Channel_inv_def assms(3) ReceiveAwaiter_new_def)
      ultimately show ?thesis
        using Nil False d by (simp add: Channel_held_def sender_values_def)
    qed
  qed
qed

lemma Close_receivers_correct:
  assumes "ch_receivers c = is" and "distinct is" and "\<forall>i\<in>set is. ra_waiting (ch_recv c i)"
  shows "Close_receivers is c = Some (c\<lparr>ch_receivers := [],
      ch_recv := (\<lambda>j. if j \<in> set is
                       then (ch_recv c j)\<lparr>ra_waiting := False, ra_result := Some (Inr None)\<rparr>
                       else ch_recv c j),
      ch_ready := ch_ready c @ map ReceiveCont is\<rparr>)"
  using assms
proof (induction "is" arbitrary: c)
  case (Cons i "is")
  let ?c = "c\<lparr>ch_receivers := is,
      ch_recv := (ch_recv c)(i := (ch_recv c i)\<lparr>ra_waiting := False, ra_result := Some (Inr None)\<rparr>),
      ch_ready := ch_ready c @ [ReceiveCont i]\<rparr>"
  have "Close_receivers (i # is) c = Close_receivers is ?c"
    using Cons.prems(3) by (simp add: Receive_CompleteClosed_def)
  also have "\<dots> = Some (?c\<lparr>ch_receivers := [],
      ch_recv := (\<lambda>j. if j \<in> set is
                       then (ch_recv ?c j)\<lparr>ra_waiting := False, ra_result := Some (Inr None)\<rparr>
                       else ch_recv ?c j),
      ch_ready := ch_ready ?c @ map ReceiveCont is\<rparr>)"
    using Cons.prems by (intro Cons.IH) auto
  finally show ?case
    using Cons.prems(2) by (simp add: fun_eq_iff fun_upd_def cong: if_cong)
qed simp

lemma Channel_Close_correct:
  assumes "Channel_inv c" and "\<not> ch_closed c"
  shows "ch_senders c \<noteq> [] \<Longrightarrow> Channel_Close (ch_scheduler c) c = None"
    and "ch_senders c = [] \<Longrightarrow>
      \<exists>c'. Channel_Close (ch_scheduler c) c = Some c' \<and> Channel_inv c' \<and> ch_closed c' \<and>
           ch_scheduler c' = ch_scheduler c \<and> Channel_held c' = Channel_held c \<and>
           ch_senders c' = [] \<and> ch_receivers c' = [] \<and>
           (\<forall>i\<in>set (ch_receivers c). ra_result (ch_recv c' i) = Some (Inr None)) \<and>
           ch_ready c' = ch_ready c @ map ReceiveCont (ch_receivers c)"
proof -
  show "Channel_Close (ch_scheduler c) c = None" if "ch_senders c \<noteq> []"
    using that assms(2)
    by (cases "ch_senders c") (simp_all add: Channel_Close_def CheckOwner_def Send_NotifyClosed_def)
  assume none: "ch_senders c = []"
  let ?c = "c\<lparr>ch_closed := True\<rparr>"
  show "\<exists>c'. Channel_Close (ch_scheduler c) c = Some c' \<and> Channel_inv c' \<and> ch_closed c' \<and>
           ch_scheduler c' = ch_scheduler c \<and> Channel_held c' = Channel_held c \<and>
           ch_senders c' = [] \<and> ch_receivers c' = [] \<and>
           (\<forall>i\<in>set (ch_receivers c). ra_result (ch_recv c' i) = Some (Inr None)) \<and>
           ch_ready c' = ch_ready c @ map ReceiveCont (ch_receivers c)"
  proof (cases "ch_size c = 0")
    case False
    then have "ch_receivers c = []" "Channel_Close (ch_scheduler c) c = Some ?c"
      using assms none by (auto simp: Channel_inv_def Channel_Close_def CheckOwner_def)
    then show ?thesis
      using assms(1) none by (auto simp: Channel_inv_def Channel_held_def sender_values_def)
  next
    case True
    let ?d = "?c\<lparr>ch_receivers := [],
      ch_recv := (\<lambda>j. if j \<in> set (ch_receivers c)
                       then (ch_recv c j)\<lparr>ra_waiting := False, ra_result := Some (Inr None)\<rparr>
                       else ch_recv c j),
      ch_ready := ch_ready c @ map ReceiveCont (ch_receivers c)\<rparr>"
    have "distinct (ch_receivers c)" "\<forall>i\<in>set (ch_receivers c). ra_waiting (ch_recv c i)"
      using assms(1) by (simp_all add: Channel_inv_def)
    then have "Channel_Close (ch_scheduler c) c = Some ?d"
      using assms(2) none True Close_receivers_correct [of ?c "ch_receivers c"]
      by (simp add: Channel_Close_def CheckOwner_def Let_def cong: if_cong)
    moreover have "Channel_inv ?d"
      using assms(1) none by (auto simp: Channel_inv_def)
    ultimately show ?thesis
      using none by (auto simp: Channel_held_def sender_values_def)
  qed
qed

lemma CancelReceive_correct:
  assumes "Channel_inv c"
  shows "\<exists>c'. ReceiveAwaiter_destructor (ch_scheduler c) i c = Some c' \<and> Channel_inv c' \<and>
              \<not> ra_waiting (ch_recv c' i) \<and> Channel_held c' = Channel_held c \<and>
              ch_receivers c' = filter (\<lambda>j. j \<noteq> i) (ch_receivers c) \<and>
              ra_result (ch_recv c' i) = ra_result (ch_recv c i) \<and>
              ch_scheduler c' = ch_scheduler c \<and> ch_closed c' = ch_closed c"
proof (cases "i \<in> set (ch_receivers c)")
  case True
  let ?c = "c\<lparr>ch_receivers := filter (\<lambda>j. j \<noteq> i) (ch_receivers c),
             ch_recv := (ch_recv c)(i := (ch_recv c i)\<lparr>ra_waiting := False\<rparr>)\<rparr>"
  have "ReceiveAwaiter_destructor (ch_scheduler c) i c = Some ?c"
    using True assms
    by (simp add: ReceiveAwaiter_destructor_def CancelReceive_def CheckOwner_def Channel_inv_def)
  moreover have "Channel_inv ?c"
    using assms True by (auto simp: Channel_inv_def)
  ultimately show ?thesis
    by (simp add: Channel_held_def sender_values_def)
next
  case False
  then have "filter (\<lambda>j. j \<noteq> i) (ch_receivers c) = ch_receivers c"
    by (auto intro: filter_True)
  then show ?thesis
    using False assms by (simp add: ReceiveAwaiter_destructor_def Channel_inv_def)
qed

lemma CancelSend_correct:
  assumes "Channel_inv c"
  shows "\<exists>c'. SendAwaiter_destructor (ch_scheduler c) i c = Some c' \<and> Channel_inv c' \<and>
              \<not> sa_waiting (ch_send c' i) \<and> ring_contents c' = ring_contents c \<and>
              ch_senders c' = filter (\<lambda>j. j \<noteq> i) (ch_senders c) \<and>
              (\<forall>j. j \<noteq> i \<longrightarrow> ch_send c' j = ch_send c j)"
proof (cases "i \<in> set (ch_senders c)")
  case True
  let ?c = "c\<lparr>ch_senders := filter (\<lambda>j. j \<noteq> i) (ch_senders c),
             ch_send := (ch_send c)(i := (ch_send c i)\<lparr>sa_waiting := False\<rparr>)\<rparr>"
  have "SendAwaiter_destructor (ch_scheduler c) i c = Some ?c"
    using True assms
    by (simp add: SendAwaiter_destructor_def CancelSend_def CheckOwner_def Channel_inv_def)
  moreover have "ch_senders c \<noteq> []"
    using True by auto
  then have "Channel_inv ?c"
    using assms True by (auto simp: Channel_inv_def)
  ultimately show ?thesis by simp
next
  case False
  then have "filter (\<lambda>j. j \<noteq> i) (ch_senders c) = ch_senders c"
    by (auto intro: filter_True)
  then show ?thesis
    using False assms by (simp add: SendAwaiter_destructor_def Channel_inv_def)
qed

section \<open>The channel as a FIFO\<close>

text \<open>
  Operations of the owning scheduler. A blocking operation constructs its awaiter and suspends
  on it. A step lists the values sent by it, the values that receivers get from it, and the values that are
  withdrawn with their senders. What a receiver gets is what \<^verbatim>\<open>await_resume\<close> reads from its awaiter: for
  the caller of a receive that does not suspend, and for the receivers that the step takes from the waiter
  queue.
\<close>

datatype 'v ChannelOp =
    CO_TrySend 'v | CO_TryReceive | CO_Send nat 'v | CO_Receive nat | CO_Close | CO_DropReceive nat | CO_DropSend nat

definition received :: "'v Channel \<Rightarrow> nat \<Rightarrow> 'v list" where
  "received c i = (case Receive_await_resume i None c of Some (_, Some v) \<Rightarrow> [v] | _ \<Rightarrow> [])"

definition woken :: "'v Channel \<Rightarrow> 'v Channel \<Rightarrow> nat list" where
  "woken c c' = filter (\<lambda>r. r \<notin> set (ch_receivers c')) (ch_receivers c)"

definition given :: "'v Channel \<Rightarrow> 'v Channel \<Rightarrow> 'v list" where
  "given c c' = concat (map (received c') (woken c c'))"

fun Channel_step :: "'v ChannelOp \<Rightarrow> 'v Channel \<Rightarrow> ('v list \<times> 'v list \<times> 'v list \<times> 'v Channel) option" where
  "Channel_step (CO_TrySend v) c = do {
     (ok, c') \<leftarrow> TrySend (ch_scheduler c) v c;
     Some (if ok then [v] else [], given c c', [], c')
   }"
| "Channel_step CO_TryReceive c = do {
     (ok, out, c') \<leftarrow> TryReceive (ch_scheduler c) None c;
     Some ([], case out of Some v \<Rightarrow> [v] | None \<Rightarrow> [], [], c')
   }"
| "Channel_step (CO_Send i v) c = do {
     check (\<not> sa_waiting (ch_send c i));
     (suspended, c') \<leftarrow> Send_await_suspend (ch_scheduler c) i (SendAwaiter_new i v c);
     Some ([v], given c c', [], c')
   }"
| "Channel_step (CO_Receive i) c = do {
     check (\<not> ra_waiting (ch_recv c i));
     (suspended, c') \<leftarrow> Receive_await_suspend (ch_scheduler c) i (ReceiveAwaiter_new i c);
     Some ([], if suspended then [] else received c' i, [], c')
   }"
| "Channel_step CO_Close c = do {
     c' \<leftarrow> Channel_Close (ch_scheduler c) c;
     Some ([], given c c', [], c')
   }"
| "Channel_step (CO_DropReceive i) c = do {
     c' \<leftarrow> ReceiveAwaiter_destructor (ch_scheduler c) i c;
     Some ([], given c c', [], c')
   }"
| "Channel_step (CO_DropSend i) c = do {
     c' \<leftarrow> SendAwaiter_destructor (ch_scheduler c) i c;
     Some ([], given c c',
       if sa_waiting (ch_send c i) then case sa_value (ch_send c i) of Some v \<Rightarrow> [v] | None \<Rightarrow> [] else [], c')
   }"

fun Channel_run :: "'v ChannelOp list \<Rightarrow> 'v Channel \<Rightarrow> ('v list \<times> 'v list \<times> 'v list \<times> 'v Channel) option" where
  "Channel_run [] c = Some ([], [], [], c)"
| "Channel_run (a # as) c = do {
     (ins, outs, drops, c') \<leftarrow> Channel_step a c;
     (ins', outs', drops', c'') \<leftarrow> Channel_run as c';
     Some (ins @ ins', outs @ outs', drops @ drops', c'')
   }"

text \<open>
  The law of a queue whose elements can be withdrawn: what comes out and what remains are in the order in which they
  went in, and the rest of what went in is what was withdrawn.
\<close>

definition fifo_law :: "'v list \<Rightarrow> 'v list \<Rightarrow> 'v list \<Rightarrow> 'v list \<Rightarrow> 'v list \<Rightarrow> bool" where
  "fifo_law before ins outs drops after \<longleftrightarrow> subseq (outs @ after) (before @ ins) \<and>
     mset (before @ ins) = mset (outs @ after) + mset drops"

lemma fifo_law_eq: "before @ ins = outs @ after \<Longrightarrow> fifo_law before ins outs [] after"
  by (simp add: fifo_law_def)

lemma fifo_law_drop: "fifo_law (xs @ v # ys) [] [] [v] (xs @ ys)"
  by (simp add: fifo_law_def list_emb_Cons list_emb_append_mono)

lemma fifo_law_trans:
  assumes "fifo_law s i1 o1 d1 t" "fifo_law t i2 o2 d2 u"
  shows "fifo_law s (i1 @ i2) (o1 @ o2) (d1 @ d2) u"
proof -
  have "subseq ((o1 @ t) @ i2) ((s @ i1) @ i2)"
    by (rule list_emb_append_mono) (use assms(1) in \<open>simp_all add: fifo_law_def\<close>)
  moreover have "subseq (o1 @ (o2 @ u)) (o1 @ (t @ i2))"
    by (rule list_emb_append_mono) (use assms(2) in \<open>simp_all add: fifo_law_def\<close>)
  ultimately have "subseq ((o1 @ o2) @ u) (s @ i1 @ i2)"
    using subseq_order.order_trans by fastforce
  moreover have "mset (s @ i1) = mset (o1 @ t) + mset d1" "mset (t @ i2) = mset (o2 @ u) + mset d2"
    using assms by (simp_all add: fifo_law_def)
  then have "mset (s @ i1 @ i2) = mset ((o1 @ o2) @ u) + mset (d1 @ d2)"
    by (simp add: add_ac) (metis add.assoc add.commute)
  ultimately show ?thesis by (simp add: fifo_law_def)
qed

lemma open_of_send:
  "TrySend cur v c = Some p \<Longrightarrow> \<not> ch_closed c"
  "Send_await_suspend cur i c = Some q \<Longrightarrow> \<not> ch_closed c"
  "Channel_Close cur c = Some d \<Longrightarrow> \<not> ch_closed c"
  by (auto simp: TrySend_def Send_await_suspend_def Channel_Close_def split: bind_splits)

lemma given_none: "set (ch_receivers c) \<subseteq> set (ch_receivers c') \<Longrightarrow> given c c' = []"
  by (auto simp: given_def woken_def filter_empty_conv)

lemma given_first:
  assumes "Channel_inv c" "ch_receivers c = r # rs" "ch_receivers c' = rs" "ra_result (ch_recv c' r) = Some (Inr (Some v))"
  shows "given c c' = [v]"
proof -
  have "woken c c' = [r]" using assms(1-3) by (auto simp: woken_def Channel_inv_def filter_empty_conv)
  then show ?thesis using assms(4) by (simp add: given_def received_def Receive_await_resume_def)
qed

lemma given_closed:
  assumes "\<And>r. r \<in> set (woken c c') \<Longrightarrow> ra_result (ch_recv c' r) \<in> {None, Some (Inr None)}"
  shows "given c c' = []"
  using assms by (force simp: given_def received_def Receive_await_resume_def split: bind_splits)

lemma TrySend_fifo:
  assumes "Channel_inv c" and "TrySend (ch_scheduler c) v c = Some (ok, c')"
  shows "Channel_inv c' \<and> fifo_law (Channel_held c) (if ok then [v] else []) (given c c') [] (Channel_held c')"
proof (cases "ch_receivers c")
  case Nil
  then have "given c c' = []" by (simp add: given_none)
  then show ?thesis
    using TrySend_correct [OF assms(1) open_of_send(1) [OF assms(2)], of v] assms(2) Nil
    by (auto intro!: fifo_law_eq split: if_splits)
next
  case (Cons r rs)
  then show ?thesis
    using TrySend_correct [OF assms(1) open_of_send(1) [OF assms(2)], of v] assms(2) given_first [OF assms(1) Cons, of c' v]
    by (auto intro!: fifo_law_eq)
qed

lemma Send_fifo:
  assumes "Channel_inv c" and "Send_await_suspend (ch_scheduler c) i (SendAwaiter_new i v c) = Some (suspended, c')"
    and "\<not> sa_waiting (ch_send c i)"
  shows "Channel_inv c' \<and> fifo_law (Channel_held c) [v] (given c c') [] (Channel_held c')"
proof -
  have "\<not> ch_closed c" using open_of_send(2) [OF assms(2)] by (simp add: SendAwaiter_new_def)
  note send = Send_await_suspend_correct [OF assms(1) this assms(3) refl, of v]
  show ?thesis
  proof (cases "ch_receivers c")
    case Nil
    then have "given c c' = []" by (simp add: given_none)
    then show ?thesis using send assms(2) Nil by (auto intro!: fifo_law_eq)
  next
    case (Cons r rs)
    then show ?thesis
      using send assms(2) given_first [OF assms(1) Cons, of c' v] by (auto intro!: fifo_law_eq)
  qed
qed

lemma DropSend_fifo:
  assumes "Channel_inv c" and "SendAwaiter_destructor (ch_scheduler c) i c = Some c'"
  shows "Channel_inv c' \<and> fifo_law (Channel_held c) [] (given c c')
     (if sa_waiting (ch_send c i) then case sa_value (ch_send c i) of Some v \<Rightarrow> [v] | None \<Rightarrow> [] else []) (Channel_held c')"
proof (cases "sa_waiting (ch_send c i)")
  case True
  have c': "Channel_inv c'" "ring_contents c' = ring_contents c" "ch_senders c' = filter (\<lambda>j. j \<noteq> i) (ch_senders c)"
    "\<forall>j. j \<noteq> i \<longrightarrow> ch_send c' j = ch_send c j"
    using CancelSend_correct [OF assms(1), of i] assms(2) by auto
  have i: "i \<in> set (ch_senders c)" "distinct (ch_senders c)" using assms(1) True by (simp_all add: Channel_inv_def)
  then obtain xs ys where s: "ch_senders c = xs @ i # ys" "i \<notin> set xs" "i \<notin> set ys"
    by (metis distinct.simps(2) distinct_append not_distinct_conv_prefix split_list disjoint_insert(1) list.simps(15))
  obtain v where v: "sa_value (ch_send c i) = Some v" using assms(1) i(1) by (auto simp: Channel_inv_def)
  have "filter (\<lambda>j. j \<noteq> i) xs = xs" "filter (\<lambda>j. j \<noteq> i) ys = ys" using s(2,3) by (auto simp: filter_id_conv)
  then have f: "ch_senders c' = xs @ ys" using c'(3) s(1) by simp
  let ?val = "\<lambda>i. the (sa_value (ch_send c i))"
  have "Channel_held c = (ring_contents c @ map ?val xs) @ v # map ?val ys" using s(1) v by (simp add: Channel_held_def sender_values_def)
  moreover have "Channel_held c' = (ring_contents c @ map ?val xs) @ map ?val ys"
    using f c'(2,4) s(2,3) by (auto simp: Channel_held_def sender_values_def)
  moreover have "given c c' = []"
    using assms(1) i(1) by (intro given_none) (auto simp: Channel_inv_def)
  ultimately show ?thesis
    using True v c'(1) fifo_law_drop [of "ring_contents c @ map ?val xs" v "map ?val ys"] by simp
next
  case False
  then show ?thesis using assms by (auto simp: SendAwaiter_destructor_def given_none intro!: fifo_law_eq)
qed

lemma Channel_step_fifo:
  assumes "Channel_inv c" and "Channel_step a c = Some (ins, outs, drops, c')"
  shows "Channel_inv c' \<and> fifo_law (Channel_held c) ins outs drops (Channel_held c')"
proof (cases a)
  case (CO_TrySend v)
  then show ?thesis using assms TrySend_fifo [OF assms(1)] by (auto split: bind_splits)
next
  case CO_TryReceive
  obtain r c1 where now: "ReceiveNow c = Some (r, c1)" "Channel_inv c1" "receive_outcome c r c1"
    using ReceiveNow_correct [OF assms(1)] by blast
  then show ?thesis
    using assms(2) CO_TryReceive
    by (cases "Channel_held c")
       (auto simp: TryReceive_def CheckOwner_def receive_outcome_def intro!: fifo_law_eq split: if_splits)
next
  case (CO_Send i v)
  then show ?thesis using assms Send_fifo [OF assms(1)] by (auto split: bind_splits)
next
  case (CO_Receive i)
  let ?d = "ReceiveAwaiter_new i c"
  obtain suspended where recv: "Receive_await_suspend (ch_scheduler c) i ?d = Some (suspended, c')"
    "\<not> ra_waiting (ch_recv c i)" "ins = []" "drops = []" "outs = (if suspended then [] else received c' i)"
    using assms(2) CO_Receive by (cases "Receive_await_suspend (ch_scheduler c) i ?d") auto
  then show ?thesis
    using Receive_await_suspend_correct [OF assms(1) recv(2) refl]
    by (cases "Channel_held c") (auto simp: received_def Receive_await_resume_def intro!: fifo_law_eq split: if_splits)
next
  case CO_Close
  then have closed: "Channel_Close (ch_scheduler c) c = Some c'" "ins = []" "drops = []" "outs = given c c'"
    using assms(2) by (auto split: bind_splits)
  then have "ch_senders c = []" "\<not> ch_closed c"
    using Channel_Close_correct(1) [OF assms(1)] open_of_send(3) by force+
  then have c': "Channel_inv c'" "Channel_held c' = Channel_held c" "\<forall>i\<in>set (ch_receivers c). ra_result (ch_recv c' i) = Some (Inr None)"
    using closed(1) Channel_Close_correct(2) [OF assms(1)] by auto
  have "given c c' = []" using c'(3) by (intro given_closed) (auto simp: woken_def)
  then show ?thesis using closed c' by (auto intro!: fifo_law_eq)
next
  case (CO_DropReceive i)
  then have d: "ReceiveAwaiter_destructor (ch_scheduler c) i c = Some c'" "ins = []" "drops = []" "outs = given c c'"
    using assms(2) by (auto split: bind_splits)
  then have c': "Channel_inv c'" "Channel_held c' = Channel_held c" "ch_receivers c' = filter (\<lambda>j. j \<noteq> i) (ch_receivers c)"
    "ra_result (ch_recv c' i) = ra_result (ch_recv c i)"
    using CancelReceive_correct [OF assms(1), of i] by auto
  have "given c c' = []" using c'(3,4) assms(1) by (intro given_closed) (auto simp: woken_def Channel_inv_def)
  then show ?thesis using d c' by (auto intro!: fifo_law_eq)
next
  case (CO_DropSend i)
  then show ?thesis using assms DropSend_fifo [OF assms(1)] by (auto split: bind_splits)
qed

lemma Channel_run_fifo:
  "Channel_inv c \<Longrightarrow> Channel_run ops c = Some (ins, outs, drops, c') \<Longrightarrow>
   Channel_inv c' \<and> fifo_law (Channel_held c) ins outs drops (Channel_held c')"
proof (induction ops arbitrary: c ins outs drops)
  case Nil
  then show ?case by (auto intro!: fifo_law_eq)
next
  case (Cons a as)
  obtain i1 o1 d1 c1 where one: "Channel_step a c = Some (i1, o1, d1, c1)"
    using Cons.prems(2) by (cases "Channel_step a c") auto
  obtain i2 o2 d2 where rest: "Channel_run as c1 = Some (i2, o2, d2, c')" "ins = i1 @ i2" "outs = o1 @ o2" "drops = d1 @ d2"
    using Cons.prems(2) one by (cases "Channel_run as c1") auto
  have step: "Channel_inv c1" "fifo_law (Channel_held c) i1 o1 d1 (Channel_held c1)"
    using Channel_step_fifo [OF Cons.prems(1) one] by simp_all
  with Cons.IH [OF step(1) rest(1)] fifo_law_trans rest(2-4) show ?case by blast
qed

section \<open>Properties\<close>

text \<open>
  C5. The channel is a FIFO: along every run of sends, receives, closes, dropped receivers and dropped senders on
  the owning scheduler that does not abort, the values that receivers read from their awaiters, followed by the values
  still held, are in the order in which they were sent; the values that are missing are exactly those of the
  senders dropped while they waited, so without such drops nothing is lost or duplicated. The buffer never exceeds
  the capacity, a receiver only waits when nothing is held, and a sender only waits behind a full buffer.
\<close>

theorem channel_fifo:
  assumes "Channel_new scheduler capacity = Some c"
    and "Channel_run ops c = Some (ins, outs, drops, c')"
  shows "subseq (outs @ Channel_held c') ins \<and> mset ins = mset (outs @ Channel_held c') + mset drops \<and>
         (drops = [] \<longrightarrow> outs @ Channel_held c' = ins) \<and> ch_size c' \<le> ch_capacity c' \<and>
         (ch_receivers c' \<noteq> [] \<longrightarrow> Channel_held c' = []) \<and>
         (ch_senders c' \<noteq> [] \<longrightarrow> ch_size c' = ch_capacity c')"
proof -
  have new: "Channel_inv c" "Channel_held c = []"
    using Channel_new_inv [OF assms(1)] by simp_all
  have run: "Channel_inv c'" "subseq (outs @ Channel_held c') ins" "mset ins = mset (outs @ Channel_held c') + mset drops"
    using Channel_run_fifo [OF new(1) assms(2)] new(2) by (simp_all add: fifo_law_def)
  have "outs @ Channel_held c' = ins" if "drops = []"
    using run(2) arg_cong [OF run(3), of size] that by (auto intro: subseq_same_length)
  then show ?thesis
    using run
    by (auto simp: Channel_inv_def Ring_inv_def Channel_held_def sender_values_def ring_contents_def)
qed

theorem channel_fifo_witness:
  "\<exists>c c'. Channel_new 7 1 = Some c \<and>
     Channel_run [CO_Receive 5, CO_TrySend 9, CO_TrySend 10, CO_Send 0 11, CO_Send 1 12, CO_Send 2 13, CO_DropSend 1, CO_TryReceive] c =
       Some ([9, 10, 11, 12, 13 :: nat], [9, 10], [12], c') \<and>
     subseq ([9, 10] @ Channel_held c') [9, 10, 11, 12, 13] \<and> Channel_held c' = [11, 13]"
proof -
  let ?ops = "[CO_Receive 5, CO_TrySend 9, CO_TrySend 10, CO_Send 0 11, CO_Send 1 12, CO_Send 2 13, CO_DropSend 1, CO_TryReceive]"
  let ?c = "\<lparr>ch_scheduler = 7, ch_senders = [], ch_receivers = [], ch_buffer = [None],
      ch_capacity = 1, ch_mask = 0, ch_head = 0, ch_tail = 0, ch_size = 0, ch_closed = False,
      ch_send = (\<lambda>_. \<lparr>sa_value = None, sa_result = None, sa_waiting = False\<rparr>),
      ch_recv = (\<lambda>_. \<lparr>ra_result = None, ra_waiting = False\<rparr>), ch_ready = []\<rparr> :: nat Channel"
  have new: "Channel_new 7 1 = Some ?c"
    by (simp add: Channel_new_def RingSize_def bit_ceil_def bit_ceil_from.simps)
  have "map_option (\<lambda>(ins, outs, drops, c'). (ins, outs, drops, Channel_held c')) (Channel_run ?ops ?c) =
      Some ([9, 10, 11, 12, 13 :: nat], [9, 10], [12], [11, 13])"
    by code_simp
  then obtain c' where run: "Channel_run ?ops ?c = Some ([9, 10, 11, 12, 13 :: nat], [9, 10], [12], c')" "Channel_held c' = [11, 13]"
    by auto
  from channel_fifo [OF new run(1)] show ?thesis
    using new run by auto
qed

text \<open>
  C13. A blocking send on an open channel never aborts and takes exactly one of three paths: a
  waiting receiver is handed the value and scheduled, the oldest one first; otherwise a free
  buffer slot takes it; otherwise the sender joins the end of the sender queue and suspends.
\<close>

theorem channel_send:
  assumes "Channel_inv c" and "\<not> ch_closed c" and "\<not> sa_waiting (ch_send c i)"
  shows "\<exists>suspended c'. Send_await_suspend (ch_scheduler c) i (SendAwaiter_new i v c) = Some (suspended, c') \<and>
     Channel_inv c' \<and>
     (case ch_receivers c of
        r # rs \<Rightarrow> \<not> suspended \<and> Channel_held c' = [] \<and> ch_receivers c' = rs \<and>
                  ra_result (ch_recv c' r) = Some (Inr (Some v)) \<and>
                  Send_await_resume i c' = Some (Inr ()) \<and>
                  ch_ready c' = ch_ready c @ [ReceiveCont r]
      | [] \<Rightarrow> Channel_held c' = Channel_held c @ [v] \<and> ch_ready c' = ch_ready c \<and>
              (if ch_size c < ch_capacity c
               then \<not> suspended \<and> Send_await_resume i c' = Some (Inr ())
               else suspended \<and> ch_senders c' = ch_senders c @ [i]))"
proof -
  obtain suspended c' where c': "Send_await_suspend (ch_scheduler c) i (SendAwaiter_new i v c) = Some (suspended, c')"
    "Channel_inv c'"
    "case ch_receivers c of
        r # rs \<Rightarrow> \<not> suspended \<and> Channel_held c = [] \<and> Channel_held c' = [] \<and> ch_receivers c' = rs \<and>
                  ra_result (ch_recv c' r) = Some (Inr (Some v)) \<and>
                  Send_await_resume i c' = Some (Inr ()) \<and>
                  ch_ready c' = ch_ready c @ [ReceiveCont r]
      | [] \<Rightarrow> Channel_held c' = Channel_held c @ [v] \<and> ch_ready c' = ch_ready c \<and>
              (if ch_size c < ch_capacity c
               then \<not> suspended \<and> Send_await_resume i c' = Some (Inr ()) \<and> ch_senders c' = ch_senders c
               else suspended \<and> ch_senders c' = ch_senders c @ [i] \<and> ring_contents c' = ring_contents c)"
    using Send_await_suspend_correct [OF assms refl, of v] by blast
  then show ?thesis
    by (intro exI [of _ suspended] exI [of _ c']) (cases "ch_receivers c"; simp split: if_splits)
qed

theorem channel_send_witness:
  "\<exists>c suspended c'. Channel_new 0 0 = Some (c :: nat Channel) \<and>
     Send_await_suspend 0 5 (SendAwaiter_new 5 42 c) = Some (suspended, c') \<and> Channel_held c' = [42]"
proof -
  obtain c :: "nat Channel" where c: "Channel_new 0 0 = Some c"
    by (simp add: Channel_new_def RingSize_def)
  then have fields: "ch_receivers c = []" "\<not> sa_waiting (ch_send c 5)" "ch_scheduler c = 0" "\<not> ch_closed c"
    by (auto simp: Channel_new_def RingSize_def)
  show ?thesis
    using channel_send [of c 5 42] Channel_new_inv [OF c] c fields by auto
qed

text \<open>
  C18. A receive attempt never aborts. When anything is held it returns the oldest value, and the
  oldest waiting sender, if any, is completed and scheduled in its turn; when nothing is held it
  reports the end of the stream on a closed channel and would block on an open one.
\<close>

theorem channel_receive:
  assumes "Channel_inv c"
  shows "\<exists>ok out c'. TryReceive (ch_scheduler c) previous c = Some (ok, out, c') \<and> Channel_inv c' \<and>
     (case Channel_held c of
        v # vs \<Rightarrow> ok \<and> out = Some v \<and> Channel_held c' = vs \<and> ch_senders c' = tl (ch_senders c) \<and>
                  ch_ready c' = ch_ready c @ map SendCont (take 1 (ch_senders c))
      | [] \<Rightarrow> c' = c \<and> (if ch_closed c then ok \<and> out = None else \<not> ok \<and> out = previous))"
proof -
  obtain r c1 where now: "ReceiveNow c = Some (r, c1)" "Channel_inv c1" "receive_outcome c r c1"
    using ReceiveNow_correct [OF assms] by blast
  then show ?thesis
    by (cases "Channel_held c")
       (auto simp: TryReceive_def CheckOwner_def receive_outcome_def split: if_splits)
qed

theorem channel_receive_witness:
  "\<exists>c c'. Channel_new 0 4 = Some (c :: nat Channel) \<and> TryReceive 0 (Some 1) c = Some (False, Some 1, c')"
proof -
  obtain c :: "nat Channel" where c: "Channel_new 0 4 = Some c"
    by (simp add: Channel_new_def RingSize_def)
  then show ?thesis
    using channel_receive [of c "Some 1"] Channel_new_inv [OF c] by auto
qed

text \<open>
  C14. Closing an open channel aborts exactly when a sender is waiting. Otherwise every waiting
  receiver is completed with the end of the stream and scheduled in order, the held values stay
  receivable, and every later send and close aborts.
\<close>

theorem channel_close:
  assumes "Channel_inv c" and "\<not> ch_closed c"
  shows "if ch_senders c \<noteq> [] then Channel_Close (ch_scheduler c) c = None
         else \<exists>c'. Channel_Close (ch_scheduler c) c = Some c' \<and> Channel_inv c' \<and>
                Channel_held c' = Channel_held c \<and> ch_receivers c' = [] \<and>
                (\<forall>i\<in>set (ch_receivers c). Receive_await_resume i out c' = Some (Inr (), None)) \<and>
                ch_ready c' = ch_ready c @ map ReceiveCont (ch_receivers c) \<and>
                TrySend (ch_scheduler c) v c' = None \<and> Channel_Close (ch_scheduler c) c' = None \<and>
                Send_await_suspend (ch_scheduler c) k (SendAwaiter_new k v c') = None"
proof (cases "ch_senders c = []")
  case False
  then show ?thesis using Channel_Close_correct(1) [OF assms] by simp
next
  case True
  obtain c' where c': "Channel_Close (ch_scheduler c) c = Some c'" "Channel_inv c'" "ch_closed c'"
    "Channel_held c' = Channel_held c" "ch_receivers c' = []"
    "\<forall>i\<in>set (ch_receivers c). ra_result (ch_recv c' i) = Some (Inr None)"
    "ch_ready c' = ch_ready c @ map ReceiveCont (ch_receivers c)"
    using Channel_Close_correct(2) [OF assms True] by blast
  have "TrySend cur v c' = None" "Channel_Close cur c' = None" for cur
    using open_of_send(1,3) c'(3) by (metis not_None_eq)+
  moreover have "Send_await_suspend cur k (SendAwaiter_new k v c') = None" for cur
    using open_of_send(2) [of cur k "SendAwaiter_new k v c'"] c'(3)
    by (cases "Send_await_suspend cur k (SendAwaiter_new k v c')") (auto simp: SendAwaiter_new_def)
  ultimately show ?thesis
    using True c' by (auto simp: Receive_await_resume_def)
qed

theorem channel_close_witness:
  "\<exists>c c'. Channel_new 0 4 = Some (c :: nat Channel) \<and> Channel_Close 0 c = Some c' \<and> TrySend 0 1 c' = None"
proof -
  obtain c :: "nat Channel" where c: "Channel_new 0 4 = Some c"
    by (simp add: Channel_new_def RingSize_def)
  then have "ch_senders c = []"
    by (auto simp: Channel_new_def RingSize_def)
  then show ?thesis
    using channel_close [of c None 1 0] Channel_new_inv [OF c] c by auto
qed

end
