(* ===== verification/Timer_Index.thy ===== *)
theory Timer_Index
  imports RBTree_Spec "HOL-Library.Sublist"
begin

text \<open>
  \<^verbatim>\<open>detail/timer.h\<close> and \<^verbatim>\<open>detail/timer_index.h\<close>, and the bookkeeping that both backends' timer queues
  share: an ordered index over intrusive timer nodes, an owning store, a table from sequence numbers
  to armed timers, and the timer whose callback is running. \<open>book_inv\<close> relates the four; the lemmas
  \<open>book_construct\<close>, \<open>book_insert\<close>, \<open>book_erase\<close>, \<open>book_restart\<close> and \<open>book_release\<close> are the steps the
  queues are built from. Deadlines and durations are nanoseconds of the steady clock, as integers.
\<close>

section \<open>Timers\<close>

type_synonym callback = nat

record Timer =
  tm_callback :: "callback option"
  tm_expiration :: int
  tm_interval :: int
  tm_repeat :: bool
  tm_sequence :: int

text \<open>\<open>seq\<close> is what the atomic \<^verbatim>\<open>next_sequence_.fetch_add(1)\<close> returned.\<close>

definition Timer_new :: "callback option \<Rightarrow> int \<Rightarrow> int \<Rightarrow> int \<Rightarrow> Timer" where
  "Timer_new cb when interval seq =
     \<lparr>tm_callback = cb, tm_expiration = when, tm_interval = interval, tm_repeat = (interval > 0), tm_sequence = seq\<rparr>"

text \<open>
  Deadlines are unbounded here. The clock counts nanoseconds in 64 bits and \<open>now + interval_\<close> is a signed
  addition, so the results hold as long as deadlines stay below the end of that range, some 292 years.
\<close>

definition Timer_Restart :: "int \<Rightarrow> Timer \<Rightarrow> Timer" where
  "Timer_Restart now t = t\<lparr>tm_expiration := now + tm_interval t\<rparr>"

definition TimerLess :: "(addr \<Rightarrow> Timer) \<Rightarrow> addr \<Rightarrow> addr \<Rightarrow> bool" where
  "TimerLess tm a b =
     (if tm_expiration (tm a) < tm_expiration (tm b) then True
      else if tm_expiration (tm a) > tm_expiration (tm b) then False
      else tm_sequence (tm a) < tm_sequence (tm b))"

lemma TimerLess_weak: "strict_weak (TimerLess tm)"
  by (auto simp: strict_weak_def TimerLess_def split: if_splits)

section \<open>The index\<close>

definition TimerIndex_Empty :: "IntrusiveTree \<Rightarrow> bool" where
  "TimerIndex_Empty store = Tree_Empty store"

definition TimerIndex_Insert :: "(addr \<Rightarrow> Timer) \<Rightarrow> addr \<Rightarrow> IntrusiveTree \<Rightarrow> (bool \<times> IntrusiveTree) option" where
  "TimerIndex_Insert tm timer store = Tree_Insert (TimerLess tm) timer store"

definition TimerIndex_Erase :: "addr \<Rightarrow> IntrusiveTree \<Rightarrow> (bool \<times> IntrusiveTree) option" where
  "TimerIndex_Erase timer store = Tree_Erase timer store"

definition TimerIndex_Earliest :: "IntrusiveTree \<Rightarrow> addr" where
  "TimerIndex_Earliest store = Tree_Earliest store"

definition TimerIndex_Clear :: "IntrusiveTree \<Rightarrow> IntrusiveTree option" where
  "TimerIndex_Clear store = Tree_Clear store"

definition TimerIndex_Size :: "IntrusiveTree \<Rightarrow> nat" where
  "TimerIndex_Size store = rt_size store"

definition TimerIndex_ExtractPrefix :: "(addr \<Rightarrow> bool) \<Rightarrow> IntrusiveTree \<Rightarrow> (addr list \<times> IntrusiveTree) option" where
  "TimerIndex_ExtractPrefix pred store = Tree_ExtractPrefix pred store"

definition TimerIndex_PopWhile :: "(addr \<Rightarrow> bool) \<Rightarrow> IntrusiveTree \<Rightarrow> (addr list \<times> IntrusiveTree) option" where
  "TimerIndex_PopWhile pred store = TimerIndex_ExtractPrefix pred store"

lemmas TimerIndex_defs = TimerIndex_Empty_def TimerIndex_Insert_def TimerIndex_Erase_def
  TimerIndex_Earliest_def TimerIndex_Clear_def

section \<open>The state both queues share\<close>

text \<open>
  \<open>tb_pool\<close> holds the fields of the timer objects and \<open>tb_live\<close> the addresses that are allocated.
  \<open>tb_sequence\<close> is the static counter of \<^verbatim>\<open>Timer\<close>.
\<close>

record TimerBook =
  tb_timers :: IntrusiveTree
  tb_pool :: "addr \<Rightarrow> Timer"
  tb_live :: "addr set"
  tb_active :: "int \<rightharpoonup> addr"
  tb_processing :: addr
  tb_cancelled :: bool
  tb_sequence :: int

abbreviation tb_seq :: "'z TimerBook_scheme \<Rightarrow> addr \<Rightarrow> int" where
  "tb_seq q x \<equiv> tm_sequence (tb_pool q x)"

abbreviation tb_exp :: "'z TimerBook_scheme \<Rightarrow> addr \<Rightarrow> int" where
  "tb_exp q x \<equiv> tm_expiration (tb_pool q x)"

text \<open>A \<^verbatim>\<open>Timer\<close> is constructed at \<open>t\<close>: its fields are set, its hook is null, and the counter moves.\<close>

definition Timer_construct :: "addr \<Rightarrow> callback option \<Rightarrow> int \<Rightarrow> int \<Rightarrow> 'z TimerBook_scheme \<Rightarrow> 'z TimerBook_scheme" where
  "Timer_construct t cb when interval q =
     q\<lparr>tb_pool := (tb_pool q)(t := Timer_new cb when interval (tb_sequence q)),
       tb_live := insert t (tb_live q),
       tb_timers := (tb_timers q)\<lparr>rt_heap := rb_clear_hook t (rt_heap (tb_timers q))\<rparr>,
       tb_sequence := tb_sequence q + 1\<rparr>"

definition book_insert_timer :: "addr \<Rightarrow> 'z TimerBook_scheme \<Rightarrow> (bool \<times> 'z TimerBook_scheme) option" where
  "book_insert_timer t q = do {
     (ok, store) \<leftarrow> TimerIndex_Insert (tb_pool q) t (tb_timers q);
     Some (ok, q\<lparr>tb_timers := store\<rparr>)
   }"

definition book_erase_timer :: "addr \<Rightarrow> 'z TimerBook_scheme \<Rightarrow> (bool \<times> 'z TimerBook_scheme) option" where
  "book_erase_timer t q = do {
     (ok, store) \<leftarrow> TimerIndex_Erase t (tb_timers q);
     Some (ok, q\<lparr>tb_timers := store\<rparr>)
   }"

section \<open>The invariant\<close>

text \<open>\<open>X\<close> is the set of timers that are allocated and in no index: a running timer, or one under construction.\<close>

definition book_inv :: "'z TimerBook_scheme \<Rightarrow> rtree \<Rightarrow> addr set \<Rightarrow> bool" where
  "book_inv q T X \<longleftrightarrow>
     Tree_inv (TimerLess (tb_pool q)) (tb_timers q) T \<and>
     tb_live q = set (inord T) \<union> X \<and> set (inord T) \<inter> X = {} \<and> finite X \<and>
     nullptr \<notin> X \<and> rt_sentinel (tb_timers q) \<notin> X \<and> (\<forall>x\<in>X. clean_hook (rt_heap (tb_timers q)) x) \<and>
     (\<forall>s x. tb_active q s = Some x \<longleftrightarrow> x \<in> set (inord T) \<and> tb_seq q x = s) \<and>
     inj_on (tb_seq q) (set (inord T) \<union> X) \<and> (\<forall>x\<in>set (inord T) \<union> X. tb_seq q x < tb_sequence q) \<and>
     (\<forall>x\<in>set (inord T) \<union> X. tm_repeat (tb_pool q x) = (0 < tm_interval (tb_pool q x)))"

lemma Tree_inv_cong:
  assumes "\<And>a b. a \<in> set (inord T) \<Longrightarrow> b \<in> set (inord T) \<Longrightarrow> k a b = k' a b"
  shows "Tree_inv k t T = Tree_inv k' t T"
proof -
  have "sorted_wrt (\<lambda>a b. \<not> k b a) (inord T) = sorted_wrt (\<lambda>a b. \<not> k' b a) (inord T)"
    by (rule iffI; erule sorted_wrt_mono_rel [rotated]; simp add: assms)
  then show ?thesis by (simp add: Tree_inv_def)
qed

lemma Tree_inv_outside:
  assumes "Tree_inv k t T" and "e \<notin> insert (rt_sentinel t) (set (inord T))"
  shows "Tree_inv k (t\<lparr>rt_heap := rb_clear_hook e (rt_heap t)\<rparr>) T"
proof -
  have "zrep (rt_heap t) UNIV (rb_clear_hook e (rt_heap t)) (rt_sentinel t) [] T"
    by (rule zrep_clear_hook) (use assms in \<open>auto simp: Tree_inv_def\<close>)
  then show ?thesis
    using assms by (auto simp: Tree_inv_def rb_clear_hook_def zrep_def same_node_def)
qed

lemma Tree_inv_nodes: "Tree_inv k t T \<Longrightarrow> nullptr \<notin> set (inord T) \<and> rt_sentinel t \<notin> set (inord T) \<and> distinct (inord T)"
  by (simp add: Tree_inv_def zrep_def)

lemma book_inv_Tree: "book_inv q T X \<Longrightarrow> Tree_inv (TimerLess (tb_pool q)) (tb_timers q) T"
  by (simp add: book_inv_def)

section \<open>Steps\<close>

lemma book_construct:
  assumes "book_inv q T X" and "t \<notin> tb_live q" "t \<noteq> nullptr" "t \<noteq> rt_sentinel (tb_timers q)"
  shows "book_inv (Timer_construct t cb when interval q) T (insert t X)"
proof -
  let ?q = "Timer_construct t cb when interval q"
  have t: "t \<notin> set (inord T)" "t \<notin> X" using assms(1,2) by (auto simp: book_inv_def)
  have pool: "tb_pool ?q x = tb_pool q x" if "x \<noteq> t" for x using that by (simp add: Timer_construct_def)
  have "Tree_inv (TimerLess (tb_pool q)) (tb_timers ?q) T"
    unfolding Timer_construct_def using Tree_inv_outside [OF book_inv_Tree [OF assms(1)], of t] t assms(4) by simp
  moreover have "TimerLess (tb_pool q) a b = TimerLess (tb_pool ?q) a b" if "a \<in> set (inord T)" "b \<in> set (inord T)" for a b
    using that t pool by (metis (no_types, lifting) TimerLess_def)
  ultimately have tree: "Tree_inv (TimerLess (tb_pool ?q)) (tb_timers ?q) T"
    using Tree_inv_cong by blast
  have old: "inj_on (tb_seq q) (set (inord T) \<union> X)" and lt: "\<And>x. x \<in> set (inord T) \<union> X \<Longrightarrow> tb_seq q x < tb_sequence q"
    using assms(1) unfolding book_inv_def by blast+
  have seq: "tb_seq ?q t = tb_sequence q" "\<And>x. x \<noteq> t \<Longrightarrow> tb_seq ?q x = tb_seq q x"
    by (simp_all add: Timer_construct_def Timer_new_def)
  have "inj_on (tb_seq ?q) (set (inord T) \<union> X)"
    using old seq(2) t unfolding inj_on_def by (metis Un_iff)
  moreover have "tb_sequence q \<notin> tb_seq ?q ` (set (inord T) \<union> X)"
    using lt seq(2) t by (force simp: image_iff)
  ultimately have inj: "inj_on (tb_seq ?q) (insert t (set (inord T) \<union> X))"
    using seq(1) by (simp add: inj_on_insert image_iff)
  have clean: "\<forall>x\<in>insert t X. clean_hook (rt_heap (tb_timers ?q)) x"
    using assms(1) t clear_hook_clean by (auto simp: book_inv_def Timer_construct_def clean_hook_def rb_clear_hook_def)
  have act: "\<forall>s x. tb_active ?q s = Some x \<longleftrightarrow> x \<in> set (inord T) \<and> tb_seq ?q x = s"
    using assms(1) t pool by (auto simp: book_inv_def Timer_construct_def)
  have bound: "\<forall>x\<in>insert t (set (inord T) \<union> X). tb_seq ?q x < tb_sequence ?q"
    using lt seq t by (auto simp: Timer_construct_def intro: less_imp_le)
  have rep: "\<forall>x\<in>insert t (set (inord T) \<union> X). tm_repeat (tb_pool ?q x) = (0 < tm_interval (tb_pool ?q x))"
    using assms(1) pool by (auto simp: book_inv_def Timer_construct_def Timer_new_def)
  have rest: "tb_live ?q = insert t (tb_live q)" "rt_sentinel (tb_timers ?q) = rt_sentinel (tb_timers q)"
    by (simp_all add: Timer_construct_def)
  have old': "tb_live q = set (inord T) \<union> X" "set (inord T) \<inter> X = {}" "finite X" "nullptr \<notin> X" "rt_sentinel (tb_timers q) \<notin> X"
    using assms(1) by (simp_all add: book_inv_def)
  show ?thesis
    unfolding book_inv_def rest using tree inj clean act bound rep t old' assms(3,4) by simp
qed

lemma book_insert:
  assumes inv: "book_inv q T X" and t: "t \<in> X"
  shows "\<exists>store T'. book_insert_timer t q = Some (True, q\<lparr>tb_timers := store\<rparr>) \<and> tb_active q (tb_seq q t) = None \<and>
           book_inv (q\<lparr>tb_timers := store, tb_active := (tb_active q)(tb_seq q t \<mapsto> t)\<rparr>) T' (X - {t}) \<and>
           inord T' = insert_after (TimerLess (tb_pool q)) t (inord T) \<and> rt_sentinel store = rt_sentinel (tb_timers q)"
proof -
  have "t \<noteq> nullptr" "t \<noteq> rt_sentinel (tb_timers q)" "clean_hook (rt_heap (tb_timers q)) t"
    using inv t by (auto simp: book_inv_def)
  then obtain store T' where s: "Tree_Insert (TimerLess (tb_pool q)) t (tb_timers q) = Some (True, store)"
    "Tree_inv (TimerLess (tb_pool q)) store T'" "inord T' = insert_after (TimerLess (tb_pool q)) t (inord T)"
    "rt_sentinel store = rt_sentinel (tb_timers q)"
    "\<forall>x. x \<notin> insert t (insert (rt_sentinel (tb_timers q)) (set (inord T))) \<longrightarrow> same_node (rt_heap (tb_timers q)) (rt_heap store) x"
    using Tree_Insert_correct [OF TimerLess_weak book_inv_Tree [OF inv]] by blast
  have "set (takeWhile P xs) \<union> set (dropWhile P xs) = set xs" for P and xs :: "addr list"
    by (metis set_append takeWhile_dropWhile_id)
  then have elems: "set (inord T') = insert t (set (inord T))"
    using s(3) by (simp add: insert_after_def)
  have t': "t \<notin> set (inord T)" "t \<in> tb_live q" using inv t by (auto simp: book_inv_def)
  have none: "tb_active q (tb_seq q t) = None"
  proof (rule ccontr)
    assume "tb_active q (tb_seq q t) \<noteq> None"
    then obtain x where x: "x \<in> set (inord T)" "tb_seq q x = tb_seq q t" using inv by (auto simp: book_inv_def)
    have "inj_on (tb_seq q) (set (inord T) \<union> X)" using inv by (simp add: book_inv_def)
    then have "x = t" using x(2) inj_onD [of "tb_seq q" _ x t] x(1) t by blast
    then show False using x(1) t'(1) by simp
  qed
  have clean: "\<forall>x\<in>X - {t}. clean_hook (rt_heap store) x"
  proof
    fix x assume x: "x \<in> X - {t}"
    then have "x \<notin> insert t (insert (rt_sentinel (tb_timers q)) (set (inord T)))"
      using inv by (auto simp: book_inv_def)
    then show "clean_hook (rt_heap store) x"
      using s(5) same_node_clean inv x unfolding book_inv_def by blast
  qed
  have old: "tb_active q u = Some x \<longleftrightarrow> x \<in> set (inord T) \<and> tb_seq q x = u" for u x
    using inv by (simp add: book_inv_def)
  have act: "\<forall>u x. ((tb_active q)(tb_seq q t \<mapsto> t)) u = Some x \<longleftrightarrow> x \<in> set (inord T') \<and> tb_seq q x = u"
  proof (intro allI)
    fix u x
    show "((tb_active q)(tb_seq q t \<mapsto> t)) u = Some x \<longleftrightarrow> x \<in> set (inord T') \<and> tb_seq q x = u"
      using none elems old [of u x] by (cases "u = tb_seq q t") auto
  qed
  have union: "set (inord T') \<union> (X - {t}) = set (inord T) \<union> X"
    using elems t by auto
  have disj: "set (inord T') \<inter> (X - {t}) = {}"
    using inv elems by (auto simp: book_inv_def)
  have "book_inv (q\<lparr>tb_timers := store, tb_active := (tb_active q)(tb_seq q t \<mapsto> t)\<rparr>) T' (X - {t})"
    unfolding book_inv_def union using inv s(2,4) clean act disj by (simp add: book_inv_def)
  then show ?thesis
    using s none by (intro exI [of _ store] exI [of _ T']) (simp add: book_insert_timer_def TimerIndex_Insert_def)
qed

lemma book_erase:
  assumes inv: "book_inv q T X" and x: "x \<in> set (inord T)"
  shows "\<exists>store T'. book_erase_timer x q = Some (True, q\<lparr>tb_timers := store\<rparr>) \<and> tb_active q (tb_seq q x) = Some x \<and>
           book_inv (q\<lparr>tb_timers := store, tb_active := (tb_active q)(tb_seq q x := None)\<rparr>) T' (insert x X) \<and>
           inord T' = remove1 x (inord T) \<and> rt_sentinel store = rt_sentinel (tb_timers q)"
proof -
  obtain store T' where s: "Tree_Erase x (tb_timers q) = Some (True, store)"
    "Tree_inv (TimerLess (tb_pool q)) store T'" "inord T' = remove1 x (inord T)"
    "rt_sentinel store = rt_sentinel (tb_timers q)" "clean_hook (rt_heap store) x"
    "\<forall>y. y \<notin> insert (rt_sentinel (tb_timers q)) (set (inord T)) \<longrightarrow> same_node (rt_heap (tb_timers q)) (rt_heap store) y"
    using Tree_Erase_correct [OF book_inv_Tree [OF inv] x] by blast
  note nodes = Tree_inv_nodes [OF book_inv_Tree [OF inv]]
  have elems: "set (inord T') = set (inord T) - {x}"
    using s(3) nodes by simp
  have inj: "inj_on (tb_seq q) (set (inord T))" and act: "\<And>u y. tb_active q u = Some y \<longleftrightarrow> y \<in> set (inord T) \<and> tb_seq q y = u"
    using inv by (auto simp: book_inv_def inj_on_def)
  have clean: "\<forall>y\<in>insert x X. clean_hook (rt_heap store) y"
    using s(5,6) inv same_node_clean unfolding book_inv_def by (metis disjoint_iff insertE)
  have act': "\<forall>u y. ((tb_active q)(tb_seq q x := None)) u = Some y \<longleftrightarrow> y \<in> set (inord T') \<and> tb_seq q y = u"
    using act elems inj x unfolding inj_on_def by auto
  have live: "tb_live q = set (inord T') \<union> insert x X" "set (inord T') \<inter> insert x X = {}" "x \<noteq> nullptr"
    "x \<noteq> rt_sentinel (tb_timers q)"
    using inv elems x nodes by (auto simp: book_inv_def)
  have "book_inv (q\<lparr>tb_timers := store, tb_active := (tb_active q)(tb_seq q x := None)\<rparr>) T' (insert x X)"
    using inv s(2,4) clean act' live elems x by (simp add: book_inv_def insert_absorb)
  then show ?thesis
    using s act x by (intro exI [of _ store] exI [of _ T']) (simp add: book_erase_timer_def TimerIndex_Erase_def)
qed

lemma book_release:
  assumes "book_inv q T X" and "x \<in> X"
  shows "book_inv (q\<lparr>tb_live := tb_live q - {x}\<rparr>) T (X - {x})"
  using assms by (auto simp: book_inv_def inj_on_def)

lemma book_restart:
  assumes inv: "book_inv q T X" and x: "x \<in> X"
  shows "book_inv (q\<lparr>tb_pool := (tb_pool q)(x := Timer_Restart now (tb_pool q x))\<rparr>) T X"
proof -
  let ?p = "(tb_pool q)(x := Timer_Restart now (tb_pool q x))"
  have seq: "tm_sequence (?p y) = tb_seq q y" "tm_repeat (?p y) = tm_repeat (tb_pool q y)"
    "tm_interval (?p y) = tm_interval (tb_pool q y)" for y by (simp_all add: Timer_Restart_def)
  have "x \<notin> set (inord T)" using inv x by (auto simp: book_inv_def)
  then have "TimerLess (tb_pool q) a b = TimerLess ?p a b" if "a \<in> set (inord T)" "b \<in> set (inord T)" for a b
    using that by (auto simp: TimerLess_def)
  then have "Tree_inv (TimerLess ?p) (tb_timers q) T"
    using Tree_inv_cong book_inv_Tree [OF inv] by blast
  then show ?thesis
    using inv unfolding book_inv_def by (simp add: seq del: fun_upd_apply)
qed

text \<open>The fields outside of the index, the store and the table do not matter.\<close>

lemma book_inv_flags [simp]:
  "book_inv (q\<lparr>tb_processing := p\<rparr>) T X = book_inv q T X" "book_inv (q\<lparr>tb_cancelled := c\<rparr>) T X = book_inv q T X"
  by (simp_all add: book_inv_def)

lemma book_earliest:
  assumes "book_inv q T X"
  shows "TimerIndex_Empty (tb_timers q) \<longleftrightarrow> inord T = []"
    and "inord T = x # xs \<Longrightarrow> TimerIndex_Earliest (tb_timers q) = x"
    and "inord T = [] \<Longrightarrow> TimerIndex_Earliest (tb_timers q) = nullptr"
    and "inord T = x # xs \<Longrightarrow> y \<in> set xs \<Longrightarrow> tb_exp q x \<le> tb_exp q y"
  using Tree_Empty_iff [OF book_inv_Tree [OF assms]] Tree_Earliest_correct [OF book_inv_Tree [OF assms]] book_inv_Tree [OF assms]
  by (auto simp: TimerIndex_defs Tree_inv_def TimerLess_def split: if_splits)

lemma book_steps_active [simp]:
  "book_erase_timer x (q\<lparr>tb_active := a\<rparr>) = map_option (\<lambda>(ok, q'). (ok, q'\<lparr>tb_active := a\<rparr>)) (book_erase_timer x q)"
  "book_insert_timer x (q\<lparr>tb_active := a\<rparr>) = map_option (\<lambda>(ok, q'). (ok, q'\<lparr>tb_active := a\<rparr>)) (book_insert_timer x q)"
  unfolding book_erase_timer_def book_insert_timer_def
  by (cases "TimerIndex_Erase x (tb_timers q)"; cases "TimerIndex_Insert (tb_pool q) x (tb_timers q)"; auto)+

text \<open>The timers that are due at \<open>now\<close>, in the order in which they fire.\<close>

definition due :: "int \<Rightarrow> 'z TimerBook_scheme \<Rightarrow> rtree \<Rightarrow> int list" where
  "due now q T = map (tb_seq q) (filter (\<lambda>x. tb_exp q x \<le> now) (inord T))"

lemma due_none:
  assumes "book_inv q T X" and "inord T = x # xs" and "now < tb_exp q x"
  shows "due now q T = []"
  using assms(2,3) book_earliest(4) [OF assms(1,2)] by (force simp: due_def filter_empty_conv)

lemma due_cong: "(\<And>x. x \<in> set (inord T) \<Longrightarrow> tb_pool q' x = tb_pool q x) \<Longrightarrow> due now q' T = due now q T"
  by (simp add: due_def cong: filter_cong map_cong)

section \<open>Steps of an addition\<close>

text \<open>\<open>acquire\<close> gives the address of a new timer for the set of live ones.\<close>

definition acquire_ok :: "(addr set \<Rightarrow> addr) \<Rightarrow> addr \<Rightarrow> bool" where
  "acquire_ok acquire s \<longleftrightarrow> (\<forall>L. finite L \<longrightarrow> acquire L \<notin> L \<and> acquire L \<noteq> nullptr \<and> acquire L \<noteq> s)"

definition next_addr :: "addr set \<Rightarrow> addr" where
  "next_addr L = Suc (Max (insert 1 L))"

lemma next_addr_ok: "acquire_ok next_addr 1"
proof -
  have "next_addr L \<notin> L \<and> next_addr L \<noteq> 0 \<and> next_addr L \<noteq> 1" if "finite L" for L
  proof -
    have "x < next_addr L" if "x \<in> insert 1 L" for x
      using Max_ge [of "insert 1 L" x] \<open>finite L\<close> that unfolding next_addr_def by (simp add: less_Suc_eq_le)
    then show ?thesis by (metis insertCI less_irrefl less_zeroE)
  qed
  then show ?thesis by (simp add: acquire_ok_def)
qed

lemma insert_after_Cons:
  "insert_after k e [] = [e]"
  "insert_after k e (x # xs) = (if k e x then e # x # xs else x # insert_after k e xs)"
  by (simp_all add: insert_after_def)

lemma book_add_steps:
  assumes inv: "book_inv q T X" and acq: "acquire_ok acquire (rt_sentinel (tb_timers q))"
  shows "\<exists>t store T'. t = acquire (tb_live q) \<and> t \<notin> set (inord T) \<union> X \<and>
     (let q1 = Timer_construct t cb when interval q; q3 = q1\<lparr>tb_timers := store, tb_active := (tb_active q)(tb_sequence q \<mapsto> t)\<rparr> in
      book_inv q1 T (insert t X) \<and>
      book_insert_timer t q1 = Some (True, q1\<lparr>tb_timers := store\<rparr>) \<and> tb_active q (tb_sequence q) = None \<and>
      book_inv q3 T' X \<and> inord T' = insert_after (TimerLess (tb_pool q3)) t (inord T) \<and>
      rt_sentinel store = rt_sentinel (tb_timers q))"
proof -
  define t where "t = acquire (tb_live q)"
  define q1 where "q1 = Timer_construct t cb when interval q"
  have live: "tb_live q = set (inord T) \<union> X" "finite X" using inv by (simp_all add: book_inv_def)
  then have "finite (tb_live q)" by simp
  then have t: "t \<notin> set (inord T) \<union> X" "t \<noteq> nullptr" "t \<noteq> rt_sentinel (tb_timers q)"
    using acq live(1) unfolding acquire_ok_def t_def by metis+
  have q1: "book_inv q1 T (insert t X)"
    unfolding q1_def using book_construct [OF inv] t live by auto
  have f: "tb_seq q1 t = tb_sequence q" "tb_active q1 = tb_active q" "rt_sentinel (tb_timers q1) = rt_sentinel (tb_timers q)"
    by (simp_all add: q1_def Timer_construct_def Timer_new_def)
  obtain store T' where s: "book_insert_timer t q1 = Some (True, q1\<lparr>tb_timers := store\<rparr>)" "tb_active q1 (tb_seq q1 t) = None"
    "book_inv (q1\<lparr>tb_timers := store, tb_active := (tb_active q1)(tb_seq q1 t \<mapsto> t)\<rparr>) T' (insert t X - {t})"
    "inord T' = insert_after (TimerLess (tb_pool q1)) t (inord T)" "rt_sentinel store = rt_sentinel (tb_timers q1)"
    using book_insert [OF q1, of t] by blast
  have "insert t X - {t} = X" using t(1) by auto
  then show ?thesis
    using s t(1) q1 f unfolding q1_def Let_def by (intro exI [of _ t] exI [of _ store] exI [of _ T']) (simp add: t_def)
qed

text \<open>The active timers by their sequence number.\<close>

definition timers_map :: "'z TimerBook_scheme \<Rightarrow> int \<rightharpoonup> Timer" where
  "timers_map q i = map_option (tb_pool q) (tb_active q i)"

lemma timers_map_iff:
  assumes "book_inv q T X"
  shows "timers_map q i = Some tm \<longleftrightarrow> (\<exists>x\<in>set (inord T). tb_pool q x = tm \<and> tm_sequence tm = i)"
proof -
  have "tb_active q i = Some x \<longleftrightarrow> x \<in> set (inord T) \<and> tb_seq q x = i" for x using assms by (simp add: book_inv_def)
  then show ?thesis unfolding timers_map_def by (cases "tb_active q i") (simp, blast, simp, metis)
qed

lemma timers_map_bound: "book_inv q T X \<Longrightarrow> timers_map q i = Some tm \<Longrightarrow> i < tb_sequence q"
  using timers_map_iff [of q T X i tm] by (auto simp: book_inv_def)

lemma map_eqI: "(\<And>i v. f i = Some v \<longleftrightarrow> g i = Some v) \<Longrightarrow> f = g"
  by (metis ext not_None_eq)

lemma insert_after_set: "set (insert_after k t xs) = insert t (set xs)"
  by (induction xs) (auto simp: insert_after_Cons)

lemma timers_map_added:
  assumes "book_inv q T X" "book_inv q' T' X'" and "inord T' = insert_after k t (inord T)" "t \<notin> set (inord T)"
    and "\<And>x. x \<in> set (inord T) \<Longrightarrow> tb_pool q' x = tb_pool q x"
  shows "timers_map q' = (timers_map q)(tb_seq q' t \<mapsto> tb_pool q' t)"
proof (rule map_eqI)
  fix i v
  have inj: "inj_on (tb_seq q') (insert t (set (inord T)))"
  proof (rule inj_on_subset)
    show "inj_on (tb_seq q') (set (inord T') \<union> X')" using assms(2) by (simp only: book_inv_def)
  qed (auto simp: assms(3) insert_after_set)
  have "tb_seq q x \<noteq> tb_seq q' t" if "x \<in> set (inord T)" for x
    using inj_onD [OF inj, of x t] assms(4) assms(5) [OF that] that by auto
  then have old: "timers_map q (tb_seq q' t) = None"
    by (metis timers_map_iff [OF assms(1)] option.exhaust)
  have "timers_map q' i = Some v \<longleftrightarrow> tb_pool q' t = v \<and> tm_sequence v = i \<or> (\<exists>x\<in>set (inord T). tb_pool q' x = v \<and> tm_sequence v = i)"
    unfolding timers_map_iff [OF assms(2)] assms(3) insert_after_set by blast
  also have "(\<exists>x\<in>set (inord T). tb_pool q' x = v \<and> tm_sequence v = i) \<longleftrightarrow> timers_map q i = Some v"
    unfolding timers_map_iff [OF assms(1)] using assms(5) by auto
  finally show "timers_map q' i = Some v \<longleftrightarrow> ((timers_map q)(tb_seq q' t \<mapsto> tb_pool q' t)) i = Some v"
    using old by auto
qed

lemma timers_map_removed:
  assumes "book_inv q T X" "book_inv q' T' X'" and "inord T' = remove1 t (inord T)" "t \<in> set (inord T)" "tb_pool q' = tb_pool q"
  shows "timers_map q' = (timers_map q)(tb_seq q t := None)"
proof (rule map_eqI)
  fix i v
  have inj: "inj_on (tb_seq q) (set (inord T))" "distinct (inord T)"
    using assms(1) Tree_inv_nodes [OF book_inv_Tree [OF assms(1)]] by (auto simp: book_inv_def inj_on_def)
  show "timers_map q' i = Some v \<longleftrightarrow> ((timers_map q)(tb_seq q t := None)) i = Some v"
    using inj assms(3-5) by (auto simp: timers_map_iff [OF assms(1)] timers_map_iff [OF assms(2)] inj_on_def)
qed

lemma due_removed:
  assumes "book_inv q T X" and "inord T' = remove1 t (inord T)" "t \<in> set (inord T)" "tb_pool q' = tb_pool q"
  shows "due now q' T' = filter (\<lambda>i. i \<noteq> tb_seq q t) (due now q T)"
proof -
  have "inj_on (tb_seq q) (set (inord T))" "distinct (inord T)"
    using assms(1) Tree_inv_nodes [OF book_inv_Tree [OF assms(1)]] by (auto simp: book_inv_def inj_on_def)
  then have "remove1 t (inord T) = filter (\<lambda>x. tb_seq q x \<noteq> tb_seq q t) (inord T)"
    using assms(3) by (simp add: distinct_remove1_removeAll removeAll_filter_not_eq) (auto intro!: filter_cong simp: inj_on_def)
  then show ?thesis
    using assms(2,4) by (simp add: due_def filter_map comp_def) (metis (no_types, lifting) filter_filter conj_commute)
qed

lemma due_distinct: "book_inv q T X \<Longrightarrow> distinct (due now q T)"
  using Tree_inv_nodes [OF book_inv_Tree, of q T X]
  by (simp add: due_def distinct_map book_inv_def) (auto intro: inj_on_subset)

lemma due_active:
  assumes "book_inv q T X" "i \<in> set (due now q T)"
  shows "\<exists>tm. timers_map q i = Some tm"
  using assms(2) by (auto simp: due_def timers_map_iff [OF assms(1)])

lemma due_insert_later:
  assumes "inord T' = insert_after k t (inord T)" and "now < tb_exp q' t" and "\<And>x. x \<in> set (inord T) \<Longrightarrow> tb_pool q' x = tb_pool q x"
  shows "due now q' T' = due now q T"
proof -
  have "filter P (insert_after k t xs) = filter P xs" if "\<not> P t" for P and xs :: "addr list"
    using that by (induction xs) (simp_all add: insert_after_Cons)
  then have "filter (\<lambda>x. tb_exp q' x \<le> now) (inord T') = filter (\<lambda>x. tb_exp q' x \<le> now) (inord T)"
    using assms(1,2) by simp
  then show ?thesis
    using assms(3) by (simp add: due_def cong: filter_cong map_cong)
qed

end
