(* ===== verification/Epoll_Timer_Queue.thy ===== *)
theory Epoll_Timer_Queue
  imports Timer_Index
begin

text \<open>
  \<^verbatim>\<open>epoll/detail/timer_queue.h\<close> and \<^verbatim>\<open>src/epoll/timer_queue.cc\<close>: the timer queue that programs a timerfd
  for the earliest deadline. \<open>etq_timerfd\<close> is the absolute time at which the kernel makes the
  descriptor readable. The results of the system calls are arguments (\<open>0\<close> or the errno), as are the
  clock readings; \<open>acquire\<close> stands for the address that \<^verbatim>\<open>ObjectPool::Acquire\<close> hands out for the set
  of live objects. A user callback is any program that adds and cancels timers: \<open>calls w\<close> are its calls,
  depending on the sequence numbers \<open>w\<close> of all timers that ran so far.
\<close>

section \<open>The timerfd\<close>

record EpollTimerQueue = TimerBook +
  etq_timerfd :: "int option"

text \<open>\<^verbatim>\<open>duration_cast\<close> truncates towards zero.\<close>

definition timerfd_us :: "int \<Rightarrow> int \<Rightarrow> int" where
  "timerfd_us expiration now =
     (let d = expiration - now; us = (if d < 0 then - ((- d) div 1000) else d div 1000) in
      if us < 100 then 100 else us)"

definition timerfd_value :: "int \<Rightarrow> int \<times> int" where
  "timerfd_value us = (us div 1000000, (us mod 1000000) * 1000)"

fun SetTimerfd_loop :: "errno list \<Rightarrow> unit option" where
  "SetTimerfd_loop [] = None"
| "SetTimerfd_loop (r # rs) = (if r = 0 then Some () else if r = EINTR then SetTimerfd_loop rs else None)"

definition SetTimerfd :: "int \<Rightarrow> int \<Rightarrow> errno list \<Rightarrow> int option" where
  "SetTimerfd expiration now rs = do {
     let (sec, nsec) = timerfd_value (timerfd_us expiration now);
     SetTimerfd_loop rs;
     Some (now + sec * 1000000000 + nsec)
   }"

definition ResetTimerfd :: "int \<Rightarrow> int \<Rightarrow> errno list \<Rightarrow> EpollTimerQueue \<Rightarrow> EpollTimerQueue option" where
  "ResetTimerfd expiration now rs q = do {
     k \<leftarrow> SetTimerfd expiration now rs;
     Some (q\<lparr>etq_timerfd := Some k\<rparr>)
   }"

datatype read_result = Read_bytes nat | Read_errno errno

fun ReadTimerfd :: "read_result list \<Rightarrow> unit option" where
  "ReadTimerfd [] = None"
| "ReadTimerfd (r # rs) =
     (if r = Read_bytes 8 then Some ()
      else if r = Read_errno EINTR then ReadTimerfd rs
      else if r = Read_errno EAGAIN then Some ()
      else None)"

section \<open>Adding and cancelling\<close>

definition TimerQueue_AddTimer ::
    "(addr set \<Rightarrow> addr) \<Rightarrow> callback option \<Rightarrow> int \<Rightarrow> int \<Rightarrow> int \<Rightarrow> errno list \<Rightarrow> EpollTimerQueue \<Rightarrow> (int \<times> EpollTimerQueue) option" where
  "TimerQueue_AddTimer acquire cb when interval now rs q = do {
     let t = acquire (tb_live q);
     let q1 = Timer_construct t cb when interval q;
     let earliest_changed = (TimerIndex_Empty (tb_timers q1) \<or> tb_exp q1 t < tb_exp q1 (TimerIndex_Earliest (tb_timers q1)));
     (ok, q2) \<leftarrow> book_insert_timer t q1;
     check ok;
     check (tb_active q2 (tb_seq q2 t) = None);
     let q3 = q2\<lparr>tb_active := (tb_active q2)(tb_seq q2 t \<mapsto> t)\<rparr>;
     q4 \<leftarrow> (if earliest_changed then ResetTimerfd (tb_exp q3 t) now rs q3 else Some q3);
     Some (tb_seq q4 t, q4)
   }"

definition TimerQueue_Cancel :: "int \<Rightarrow> int \<Rightarrow> errno list \<Rightarrow> EpollTimerQueue \<Rightarrow> EpollTimerQueue option" where
  "TimerQueue_Cancel tid now rs q =
     (case tb_active q tid of
        Some active_timer \<Rightarrow> do {
          let earliest_removed = (active_timer = TimerIndex_Earliest (tb_timers q));
          (ok, q1) \<leftarrow> book_erase_timer active_timer (q\<lparr>tb_active := (tb_active q)(tid := None)\<rparr>);
          check ok;
          let q2 = q1\<lparr>tb_live := tb_live q1 - {active_timer}\<rparr>;
          if earliest_removed \<and> \<not> TimerIndex_Empty (tb_timers q2)
          then ResetTimerfd (tb_exp q2 (TimerIndex_Earliest (tb_timers q2))) now rs q2
          else Some q2
        }
      | None \<Rightarrow>
          if tb_processing q \<noteq> nullptr \<and> tb_seq q (tb_processing q) = tid
          then Some (q\<lparr>tb_cancelled := True\<rparr>) else Some q)"

section \<open>Expiry\<close>

datatype timer_call =
    CallAdd "callback option" int int int "errno list"
  | CallCancel int int "errno list"

fun TimerQueue_call :: "(addr set \<Rightarrow> addr) \<Rightarrow> timer_call \<Rightarrow> EpollTimerQueue \<Rightarrow> EpollTimerQueue option" where
  "TimerQueue_call acquire (CallAdd cb when interval now rs) q =
     map_option snd (TimerQueue_AddTimer acquire cb when interval now rs q)"
| "TimerQueue_call acquire (CallCancel tid now rs) q = TimerQueue_Cancel tid now rs q"

fun TimerQueue_calls :: "(addr set \<Rightarrow> addr) \<Rightarrow> timer_call list \<Rightarrow> EpollTimerQueue \<Rightarrow> EpollTimerQueue option" where
  "TimerQueue_calls acquire [] q = Some q"
| "TimerQueue_calls acquire (c # cs) q = do { q' \<leftarrow> TimerQueue_call acquire c q; TimerQueue_calls acquire cs q' }"

text \<open>\<^verbatim>\<open>Timer::Run\<close>: an empty callback does nothing.\<close>

definition Timer_Run ::
    "(addr set \<Rightarrow> addr) \<Rightarrow> (int list \<Rightarrow> timer_call list) \<Rightarrow> addr \<Rightarrow> EpollTimerQueue \<Rightarrow> int list \<Rightarrow> (EpollTimerQueue \<times> int list) option" where
  "Timer_Run acquire calls timer q w =
     (case tm_callback (tb_pool q timer) of
        None \<Rightarrow> Some (q, w @ [tb_seq q timer])
      | Some _ \<Rightarrow> do {
          q' \<leftarrow> TimerQueue_calls acquire (calls (w @ [tb_seq q timer])) q;
          Some (q', w @ [tb_seq q timer])
        })"

definition TimerQueue_OnExpired ::
    "(addr set \<Rightarrow> addr) \<Rightarrow> (int list \<Rightarrow> timer_call list) \<Rightarrow> int \<Rightarrow> addr \<Rightarrow> EpollTimerQueue \<Rightarrow> int list \<Rightarrow> (EpollTimerQueue \<times> int list) option" where
  "TimerQueue_OnExpired acquire calls now timer q w = do {
     check (tb_active q (tb_seq q timer) \<noteq> None);
     let q1 = q\<lparr>tb_active := (tb_active q)(tb_seq q timer := None), tb_processing := timer, tb_cancelled := False\<rparr>;
     (q2, w2) \<leftarrow> Timer_Run acquire calls timer q1 w;
     let cancelled = tb_cancelled q2;
     let q3 = q2\<lparr>tb_processing := nullptr, tb_cancelled := False\<rparr>;
     if tm_repeat (tb_pool q3 timer) \<and> \<not> cancelled then do {
       let q4 = q3\<lparr>tb_pool := (tb_pool q3)(timer := Timer_Restart now (tb_pool q3 timer))\<rparr>;
       (ok, q5) \<leftarrow> book_insert_timer timer q4;
       check ok;
       check (tb_active q5 (tb_seq q5 timer) = None);
       Some (q5\<lparr>tb_active := (tb_active q5)(tb_seq q5 timer \<mapsto> timer)\<rparr>, w2)
     }
     else Some (q3\<lparr>tb_live := tb_live q3 - {timer}\<rparr>, w2)
   }"

text \<open>\<^verbatim>\<open>PopWhile\<close> with the callback above, which may change the index while it is walked.\<close>

partial_function (option) TimerQueue_PopExpired ::
    "(addr set \<Rightarrow> addr) \<Rightarrow> (int list \<Rightarrow> timer_call list) \<Rightarrow> int \<Rightarrow> EpollTimerQueue \<Rightarrow> int list \<Rightarrow> (EpollTimerQueue \<times> int list) option" where
  "TimerQueue_PopExpired acquire calls now q w =
     (if TimerIndex_Empty (tb_timers q) then Some (q, w)
      else
        let elem = TimerIndex_Earliest (tb_timers q) in
        if \<not> tb_exp q elem \<le> now then Some (q, w)
        else do {
          (erased, q1) \<leftarrow> book_erase_timer elem q;
          check erased;
          (q2, w2) \<leftarrow> TimerQueue_OnExpired acquire calls now elem q1 w;
          TimerQueue_PopExpired acquire calls now q2 w2
        })"

definition TimerQueue_HandleRead ::
    "(addr set \<Rightarrow> addr) \<Rightarrow> (int list \<Rightarrow> timer_call list) \<Rightarrow> int \<Rightarrow> read_result list \<Rightarrow> int \<Rightarrow> errno list \<Rightarrow>
     EpollTimerQueue \<Rightarrow> int list \<Rightarrow> (EpollTimerQueue \<times> int list) option" where
  "TimerQueue_HandleRead acquire calls now reads now2 rs q w = do {
     ReadTimerfd reads;
     (q1, w1) \<leftarrow> TimerQueue_PopExpired acquire calls now q w;
     q2 \<leftarrow> (if \<not> TimerIndex_Empty (tb_timers q1)
            then ResetTimerfd (tb_exp q1 (TimerIndex_Earliest (tb_timers q1))) now2 rs q1 else Some q1);
     Some (q2, w1)
   }"

text \<open>The destructor after the channel and the descriptor are gone.\<close>

partial_function (option) TimerQueue_destroy :: "EpollTimerQueue \<Rightarrow> EpollTimerQueue option" where
  "TimerQueue_destroy q =
     (if TimerIndex_Empty (tb_timers q) then Some q
      else do {
        let timer = TimerIndex_Earliest (tb_timers q);
        check (tb_active q (tb_seq q timer) \<noteq> None);
        (ok, q1) \<leftarrow> book_erase_timer timer (q\<lparr>tb_active := (tb_active q)(tb_seq q timer := None)\<rparr>);
        check ok;
        TimerQueue_destroy (q1\<lparr>tb_live := tb_live q1 - {timer}\<rparr>)
      })"

definition TimerQueue_init :: "addr \<Rightarrow> RBHeap \<Rightarrow> int \<Rightarrow> EpollTimerQueue" where
  "TimerQueue_init s h seq =
     \<lparr>tb_timers = Tree_init s h, tb_pool = (\<lambda>_. Timer_new None 0 0 0), tb_live = {}, tb_active = Map.empty,
      tb_processing = nullptr, tb_cancelled = False, tb_sequence = seq, etq_timerfd = None\<rparr>"

section \<open>Programming the descriptor\<close>

lemma timerfd_us_bounds: "100 \<le> timerfd_us e now" "timerfd_us e now * 1000 \<le> max (e - now) 100000"
  by (auto simp: timerfd_us_def Let_def max_def)

lemma timerfd_value_sum:
  "timerfd_value us = (sec, nsec) \<Longrightarrow> sec * 1000000000 + nsec = us * 1000"
  by (auto simp: timerfd_value_def) presburger

lemma SetTimerfd_correct:
  assumes "SetTimerfd_loop rs = Some ()"
  shows "\<exists>k. SetTimerfd e now rs = Some k \<and> now < k \<and> k \<le> max e (now + 100000)"
proof -
  obtain sec nsec where v: "timerfd_value (timerfd_us e now) = (sec, nsec)" by fastforce
  show ?thesis
    using timerfd_value_sum [OF v] timerfd_us_bounds [of e now] assms v by (auto simp: SetTimerfd_def)
qed

lemma ResetTimerfd_correct:
  assumes "SetTimerfd_loop rs = Some ()"
  shows "\<exists>k. ResetTimerfd e now rs q = Some (q\<lparr>etq_timerfd := Some k\<rparr>) \<and> k \<le> max e (now + 100000)"
  using SetTimerfd_correct [OF assms, of e now] by (auto simp: ResetTimerfd_def)

lemma book_inv_timerfd [simp]: "book_inv (q\<lparr>etq_timerfd := k\<rparr>) T X = book_inv q T X"
  by (simp add: book_inv_def)

text \<open>\<open>armed c q T\<close>: the kernel wakes the loop for the earliest timer, where \<open>c\<close> is the last clock reading.\<close>

definition armed :: "int \<Rightarrow> EpollTimerQueue \<Rightarrow> rtree \<Rightarrow> bool" where
  "armed c q T \<longleftrightarrow>
     (case inord T of [] \<Rightarrow> True
      | x # _ \<Rightarrow> \<exists>k. etq_timerfd q = Some k \<and> k \<le> max (tb_exp q x) (c + 100000))"

text \<open>What an operation leaves alone.\<close>

definition same_flags :: "EpollTimerQueue \<Rightarrow> EpollTimerQueue \<Rightarrow> bool" where
  "same_flags q q' \<longleftrightarrow> tb_processing q' = tb_processing q \<and>
     rt_sentinel (tb_timers q') = rt_sentinel (tb_timers q)"

lemma AddTimer_correct:
  assumes inv: "book_inv q T X" and acq: "acquire_ok acquire (rt_sentinel (tb_timers q))" and rs: "SetTimerfd_loop rs = Some ()"
  shows "\<exists>t q' T'. TimerQueue_AddTimer acquire cb when interval now rs q = Some (tb_sequence q, q') \<and> book_inv q' T' X \<and>
     t \<notin> set (inord T) \<union> X \<and> tb_pool q' = (tb_pool q)(t := Timer_new cb when interval (tb_sequence q)) \<and>
     inord T' = insert_after (TimerLess (tb_pool q')) t (inord T) \<and> same_flags q q' \<and> tb_cancelled q' = tb_cancelled q \<and>
     tb_sequence q' = tb_sequence q + 1 \<and> (armed c q T \<longrightarrow> c \<le> now \<longrightarrow> armed now q' T')"
proof -
  obtain t store T' where s: "t = acquire (tb_live q)" "t \<notin> set (inord T) \<union> X"
     "let q1 = Timer_construct t cb when interval q; q3 = q1\<lparr>tb_timers := store, tb_active := (tb_active q)(tb_sequence q \<mapsto> t)\<rparr> in
      book_inv q1 T (insert t X) \<and>
      book_insert_timer t q1 = Some (True, q1\<lparr>tb_timers := store\<rparr>) \<and> tb_active q (tb_sequence q) = None \<and>
      book_inv q3 T' X \<and> inord T' = insert_after (TimerLess (tb_pool q3)) t (inord T) \<and>
      rt_sentinel store = rt_sentinel (tb_timers q)"
    using book_add_steps [OF inv acq] by blast
  define q1 where "q1 = Timer_construct t cb when interval q"
  define q3 where "q3 = q1\<lparr>tb_timers := store, tb_active := (tb_active q)(tb_sequence q \<mapsto> t)\<rparr>"
  have q1: "book_inv q1 T (insert t X)" "book_insert_timer t q1 = Some (True, q1\<lparr>tb_timers := store\<rparr>)" "tb_active q (tb_sequence q) = None"
    and q3: "book_inv q3 T' X" "inord T' = insert_after (TimerLess (tb_pool q3)) t (inord T)" "rt_sentinel store = rt_sentinel (tb_timers q)"
    using s(3) unfolding q1_def [symmetric] q3_def [symmetric] Let_def by simp_all
  have f: "tb_seq q1 t = tb_sequence q" "tb_active q1 = tb_active q" "tb_pool q1 = (tb_pool q)(t := Timer_new cb when interval (tb_sequence q))"
    "tb_processing q1 = tb_processing q" "tb_cancelled q1 = tb_cancelled q" "tb_sequence q1 = tb_sequence q + 1" "etq_timerfd q1 = etq_timerfd q"
    by (simp_all add: q1_def Timer_construct_def Timer_new_def)
  define changed where "changed = (TimerIndex_Empty (tb_timers q1) \<or> tb_exp q1 t < tb_exp q1 (TimerIndex_Earliest (tb_timers q1)))"
  obtain k where k: "ResetTimerfd (tb_exp q3 t) now rs q3 = Some (q3\<lparr>etq_timerfd := Some k\<rparr>)" "k \<le> max (tb_exp q3 t) (now + 100000)"
    using ResetTimerfd_correct [OF rs] by blast
  define q4 where "q4 = (if changed then q3\<lparr>etq_timerfd := Some k\<rparr> else q3)"
  have run: "TimerQueue_AddTimer acquire cb when interval now rs q = Some (tb_sequence q, q4)"
    using q1 f k(1) unfolding TimerQueue_AddTimer_def s(1) [symmetric] q1_def [symmetric] changed_def [symmetric] Let_def
    by (simp add: q4_def q3_def)
  have pool: "tb_pool q4 = tb_pool q1" "tb_pool q3 = tb_pool q1" by (simp_all add: q4_def q3_def)
  have arm: "armed now q4 T'" if a: "armed c q T" "c \<le> now"
  proof (cases "inord T")
    case Nil
    then have changed using book_earliest(1) [OF q1(1)] by (simp add: changed_def)
    then show ?thesis using Nil q3(2) k(2) by (simp add: armed_def insert_after_Cons q4_def)
  next
    case (Cons x xs)
    have x: "x \<noteq> t" "tb_exp q1 x = tb_exp q x" "TimerIndex_Earliest (tb_timers q1) = x" "\<not> TimerIndex_Empty (tb_timers q1)"
      using s(2) Cons f(3) book_earliest [OF q1(1)] by auto
    have lt: "tb_seq q1 x < tb_seq q1 t"
      using inv Cons x(1) f(1,3) by (simp add: book_inv_def)
    show ?thesis
    proof (cases changed)
      case True
      then have "TimerLess (tb_pool q1) t x" using x by (simp add: changed_def TimerLess_def)
      then show ?thesis using q3(2) Cons k(2) True by (simp add: armed_def insert_after_Cons q4_def pool)
    next
      case False
      then have "\<not> TimerLess (tb_pool q1) t x" using x lt by (simp add: changed_def TimerLess_def)
      then show ?thesis
        using q3(2) Cons a False x(2) f(7) by (auto simp: armed_def insert_after_Cons q4_def pool q3_def)
    qed
  qed
  have "book_inv q4 T' X" using q3(1) by (simp add: q4_def)
  moreover have "same_flags q q4" "tb_cancelled q4 = tb_cancelled q" "tb_sequence q4 = tb_sequence q + 1"
    using f q3(3) by (simp_all add: same_flags_def q4_def q3_def)
  ultimately show ?thesis
    using run s(2) f(3) q3(2) arm pool by (intro exI [of _ t] exI [of _ q4] exI [of _ T']) simp
qed

lemma Cancel_correct:
  assumes inv: "book_inv q T X" and act: "tb_active q tid = Some x" and rs: "SetTimerfd_loop rs = Some ()"
  shows "\<exists>q' T'. TimerQueue_Cancel tid now rs q = Some q' \<and> book_inv q' T' X \<and> tb_pool q' = tb_pool q \<and>
     inord T' = remove1 x (inord T) \<and> same_flags q q' \<and> tb_cancelled q' = tb_cancelled q \<and>
     tb_sequence q' = tb_sequence q \<and> (armed c q T \<longrightarrow> c \<le> now \<longrightarrow> armed now q' T')"
proof -
  have x: "x \<in> set (inord T)" "tb_seq q x = tid" using inv act by (auto simp: book_inv_def)
  obtain store T' where s: "book_erase_timer x q = Some (True, q\<lparr>tb_timers := store\<rparr>)"
    "book_inv (q\<lparr>tb_timers := store, tb_active := (tb_active q)(tid := None)\<rparr>) T' (insert x X)"
    "inord T' = remove1 x (inord T)" "rt_sentinel store = rt_sentinel (tb_timers q)"
    using book_erase [OF inv x(1)] x(2) by blast
  have "x \<notin> X" using inv x(1) by (auto simp: book_inv_def)
  then have X: "insert x X - {x} = X" by auto
  define q2 where "q2 = q\<lparr>tb_timers := store, tb_active := (tb_active q)(tid := None), tb_live := tb_live q - {x}\<rparr>"
  have q2: "book_inv q2 T' X"
    using book_release [OF s(2), of x] X by (simp add: q2_def)
  obtain k where k: "ResetTimerfd (tb_exp q2 (TimerIndex_Earliest store)) now rs q2 = Some (q2\<lparr>etq_timerfd := Some k\<rparr>)"
    "k \<le> max (tb_exp q2 (TimerIndex_Earliest store)) (now + 100000)"
    using ResetTimerfd_correct [OF rs] by blast
  define again where "again = (x = TimerIndex_Earliest (tb_timers q) \<and> \<not> TimerIndex_Empty store)"
  define q4 where "q4 = (if again then q2\<lparr>etq_timerfd := Some k\<rparr> else q2)"
  have run: "TimerQueue_Cancel tid now rs q = Some q4"
    using s(1) act k(1) unfolding TimerQueue_Cancel_def Let_def by (auto simp: q4_def q2_def again_def)
  have arm: "armed now q4 T'" if a: "armed c q T" "c \<le> now"
  proof (cases "inord T'")
    case Nil
    then show ?thesis by (simp add: armed_def)
  next
    case (Cons y ys)
    have y: "TimerIndex_Earliest store = y" "\<not> TimerIndex_Empty store"
      using book_earliest [OF q2] Cons by (auto simp: q2_def)
    obtain z zs where z: "inord T = z # zs" using x(1) by (cases "inord T") auto
    show ?thesis
    proof (cases again)
      case True
      then show ?thesis using Cons k(2) y by (simp add: armed_def q4_def q2_def)
    next
      case False
      then have "z \<noteq> x" using y book_earliest(2) [OF inv z] by (auto simp: again_def)
      then have "y = z" using s(3) Cons z by simp
      then show ?thesis using a Cons z False by (auto simp: armed_def q4_def q2_def)
    qed
  qed
  show ?thesis
    using run q2 s(3,4) arm by (intro exI [of _ q4] exI [of _ T']) (simp add: q4_def q2_def same_flags_def)
qed

lemma Cancel_missing:
  assumes "tb_active q tid = None"
  shows "TimerQueue_Cancel tid now rs q =
     Some (if tb_processing q \<noteq> nullptr \<and> tb_seq q (tb_processing q) = tid then q\<lparr>tb_cancelled := True\<rparr> else q)"
  using assms by (simp add: TimerQueue_Cancel_def)

section \<open>Calls from callbacks\<close>

text \<open>System calls that succeed, and additions whose deadline lies after \<open>now\<close>.\<close>

fun call_ok :: "timer_call \<Rightarrow> bool" where
  "call_ok (CallAdd cb when interval n rs) = (SetTimerfd_loop rs = Some ())"
| "call_ok (CallCancel tid n rs) = (SetTimerfd_loop rs = Some ())"

fun call_late :: "int \<Rightarrow> timer_call \<Rightarrow> bool" where
  "call_late now (CallAdd cb when interval n rs) = (now < when)"
| "call_late now (CallCancel tid n rs) = True"

fun cancelled_by :: "timer_call list \<Rightarrow> int set" where
  "cancelled_by [] = {}"
| "cancelled_by (CallCancel tid n rs # cs) = insert tid (cancelled_by cs)"
| "cancelled_by (CallAdd cb when interval n rs # cs) = cancelled_by cs"

text \<open>\<open>K\<close> are the timers that were cancelled; \<open>X\<close> holds the running timer.\<close>

definition calls_rel :: "int set \<Rightarrow> EpollTimerQueue \<Rightarrow> EpollTimerQueue \<Rightarrow> rtree \<Rightarrow> addr set \<Rightarrow> bool" where
  "calls_rel K q q' T' X \<longleftrightarrow> book_inv q' T' X \<and> same_flags q q' \<and> (\<forall>x\<in>X. tb_pool q' x = tb_pool q x) \<and>
     tb_sequence q \<le> tb_sequence q' \<and>
     (\<forall>i<tb_sequence q. timers_map q' i = (if i \<in> K then None else timers_map q i)) \<and>
     (tb_processing q \<in> X \<longrightarrow> (tb_cancelled q' \<longleftrightarrow> tb_cancelled q \<or> tb_seq q (tb_processing q) \<in> K))"

lemma running_inactive:
  assumes "book_inv q T X" "x \<in> X"
  shows "tb_active q (tb_seq q x) = None" "tb_seq q x < tb_sequence q" "x \<noteq> nullptr"
proof -
  show "tb_seq q x < tb_sequence q" "x \<noteq> nullptr" using assms by (auto simp: book_inv_def)
  have act: "\<And>y. tb_active q (tb_seq q x) = Some y \<longleftrightarrow> y \<in> set (inord T) \<and> tb_seq q y = tb_seq q x"
    and inj: "inj_on (tb_seq q) (set (inord T) \<union> X)" and disj: "set (inord T) \<inter> X = {}" using assms(1) by (simp_all add: book_inv_def)
  show "tb_active q (tb_seq q x) = None"
  proof (cases "tb_active q (tb_seq q x)")
    case (Some y)
    then have y: "y \<in> set (inord T)" "tb_seq q y = tb_seq q x" using act by simp_all
    with inj_onD [OF inj y(2)] assms(2) have "y = x" by blast
    with y(1) disj assms(2) show ?thesis by blast
  qed
qed

lemma call_add_rel:
  assumes inv: "book_inv q T X" and acq: "acquire_ok acquire (rt_sentinel (tb_timers q))" and rs: "SetTimerfd_loop rs = Some ()"
  shows "\<exists>q' T'. TimerQueue_call acquire (CallAdd cb when interval n rs) q = Some q' \<and> calls_rel {} q q' T' X \<and>
     (now < when \<longrightarrow> due now q' T' = due now q T)"
proof -
  obtain t q' T' where a: "TimerQueue_AddTimer acquire cb when interval n rs q = Some (tb_sequence q, q')" "book_inv q' T' X"
    "t \<notin> set (inord T) \<union> X" "tb_pool q' = (tb_pool q)(t := Timer_new cb when interval (tb_sequence q))"
    "inord T' = insert_after (TimerLess (tb_pool q')) t (inord T)" "same_flags q q'" "tb_cancelled q' = tb_cancelled q"
    "tb_sequence q' = tb_sequence q + 1"
    using AddTimer_correct [OF inv acq rs] by blast
  have "timers_map q' = (timers_map q)(tb_seq q' t \<mapsto> tb_pool q' t)"
    by (rule timers_map_added [OF inv a(2,5)]) (use a(3,4) in auto)
  moreover have "tb_seq q' t = tb_sequence q" using a(4) by (simp add: Timer_new_def)
  moreover have "due now q' T' = due now q T" if "now < when"
    by (rule due_insert_later [OF a(5)]) (use a(3,4) that in \<open>auto simp: Timer_new_def\<close>)
  ultimately show ?thesis
    using a by (intro exI [of _ q'] exI [of _ T']) (auto simp: calls_rel_def)
qed

lemma call_cancel_rel:
  assumes inv: "book_inv q T X" and rs: "SetTimerfd_loop rs = Some ()"
  shows "\<exists>q' T'. TimerQueue_call acquire (CallCancel tid n rs) q = Some q' \<and> calls_rel {tid} q q' T' X \<and>
     due now q' T' = filter (\<lambda>i. i \<noteq> tid) (due now q T)"
proof (cases "tb_active q tid")
  case None
  let ?q = "if tb_processing q \<noteq> nullptr \<and> tb_seq q (tb_processing q) = tid then q\<lparr>tb_cancelled := True\<rparr> else q"
  have "timers_map q tid = None" using None by (simp add: timers_map_def)
  moreover have "timers_map ?q = timers_map q" "due now ?q T = due now q T" by (simp_all add: timers_map_def fun_eq_iff due_def)
  moreover from calculation(1) have "filter (\<lambda>i. i \<noteq> tid) (due now q T) = due now q T"
    using due_active [OF inv] by (fastforce simp: filter_id_conv)
  ultimately show ?thesis
    using Cancel_missing [OF None] inv running_inactive(3) [OF inv, of "tb_processing q"]
    by (intro exI [of _ ?q] exI [of _ T]) (auto simp: calls_rel_def same_flags_def)
next
  case (Some x)
  then have x: "x \<in> set (inord T)" "tb_seq q x = tid" using inv by (auto simp: book_inv_def)
  obtain q' T' where b: "TimerQueue_Cancel tid n rs q = Some q'" "book_inv q' T' X" "tb_pool q' = tb_pool q"
    "inord T' = remove1 x (inord T)" "same_flags q q'" "tb_cancelled q' = tb_cancelled q" "tb_sequence q' = tb_sequence q"
    using Cancel_correct [OF inv Some rs] by blast
  have "timers_map q' = (timers_map q)(tid := None)" "due now q' T' = filter (\<lambda>i. i \<noteq> tid) (due now q T)"
    using timers_map_removed [OF inv b(2,4) x(1) b(3)] due_removed [OF inv b(4) x(1) b(3)] x(2) by simp_all
  moreover have "tb_processing q \<in> X \<longrightarrow> tb_seq q (tb_processing q) \<noteq> tid"
    using running_inactive(1) [OF inv] Some by force
  ultimately show ?thesis
    using b by (intro exI [of _ q'] exI [of _ T']) (auto simp: calls_rel_def)
qed

lemma calls_rel_trans:
  assumes "calls_rel K q q1 T1 X" "calls_rel L q1 q2 T2 X"
  shows "calls_rel (K \<union> L) q q2 T2 X"
proof -
  have seq: "tb_seq q1 (tb_processing q1) = tb_seq q (tb_processing q)" "tb_processing q1 = tb_processing q" if "tb_processing q \<in> X"
    using assms(1) that by (auto simp: calls_rel_def same_flags_def)
  have "timers_map q2 i = (if i \<in> K \<union> L then None else timers_map q i)" if "i < tb_sequence q" for i
    using assms that by (auto simp: calls_rel_def)
  then show ?thesis using assms seq by (auto simp: calls_rel_def same_flags_def)
qed

lemma calls_correct:
  assumes "book_inv q T X" and "acquire_ok acquire (rt_sentinel (tb_timers q))" and "\<forall>c\<in>set cs. call_ok c"
  shows "\<exists>q' T'. TimerQueue_calls acquire cs q = Some q' \<and> calls_rel (cancelled_by cs) q q' T' X \<and>
     ((\<forall>c\<in>set cs. call_late now c) \<longrightarrow> due now q' T' = filter (\<lambda>i. i \<notin> cancelled_by cs) (due now q T))"
  using assms
proof (induction cs arbitrary: q T)
  case Nil
  then show ?case by (intro exI [of _ q] exI [of _ T]) (simp add: calls_rel_def same_flags_def)
next
  case (Cons c cs)
  define K where "K = cancelled_by [c]"
  have "\<exists>q1 T1. TimerQueue_call acquire c q = Some q1 \<and> calls_rel K q q1 T1 X \<and>
      (call_late now c \<longrightarrow> due now q1 T1 = filter (\<lambda>i. i \<notin> K) (due now q T))"
    using call_add_rel [OF Cons.prems(1,2)] call_cancel_rel [OF Cons.prems(1)] Cons.prems(3) by (cases c) (auto simp: K_def)
  then obtain q1 T1 where q1: "TimerQueue_call acquire c q = Some q1" "calls_rel K q q1 T1 X"
      "call_late now c \<longrightarrow> due now q1 T1 = filter (\<lambda>i. i \<notin> K) (due now q T)" by blast
  then have inv: "book_inv q1 T1 X" "acquire_ok acquire (rt_sentinel (tb_timers q1))"
    using Cons.prems(2) by (simp_all add: calls_rel_def same_flags_def)
  obtain q2 T2 where q2: "TimerQueue_calls acquire cs q1 = Some q2" "calls_rel (cancelled_by cs) q1 q2 T2 X"
    "(\<forall>c\<in>set cs. call_late now c) \<longrightarrow> due now q2 T2 = filter (\<lambda>i. i \<notin> cancelled_by cs) (due now q1 T1)"
    using Cons.IH [OF inv] Cons.prems(3) by auto
  have "cancelled_by (c # cs) = K \<union> cancelled_by cs" by (cases c) (simp_all add: K_def)
  then show ?case
    using q1(1,3) q2(1,3) calls_rel_trans [OF q1(2) q2(2)]
    by (intro exI [of _ q2] exI [of _ T2]) (auto intro: filter_cong)
qed

section \<open>A pass over the due timers\<close>

text \<open>The calls that are made when timer \<open>i\<close> of \<open>A\<close> fires: an empty callback makes none.\<close>

definition fired_calls :: "(int \<rightharpoonup> Timer) \<Rightarrow> (int list \<Rightarrow> timer_call list) \<Rightarrow> int list \<Rightarrow> int \<Rightarrow> timer_call list" where
  "fired_calls A calls w i =
     (case A i of Some t \<Rightarrow> (if tm_callback t = None then [] else calls (w @ [i])) | None \<Rightarrow> [])"

text \<open>Which of the due timers fire: all but those that a callback before them cancels.\<close>

function fires :: "(int \<rightharpoonup> Timer) \<Rightarrow> (int list \<Rightarrow> timer_call list) \<Rightarrow> int list \<Rightarrow> int list \<Rightarrow> int list" where
  "fires A calls w [] = []"
| "fires A calls w (i # is) =
     i # fires A calls (w @ [i]) (filter (\<lambda>j. j \<notin> cancelled_by (fired_calls A calls w i)) is)"
  by pat_completeness auto
termination by (relation "measure (\<lambda>(A, calls, w, is). length is)") (auto simp: less_Suc_eq_le)

fun pass_cancelled :: "(int \<rightharpoonup> Timer) \<Rightarrow> (int list \<Rightarrow> timer_call list) \<Rightarrow> int list \<Rightarrow> int list \<Rightarrow> int set" where
  "pass_cancelled A calls w [] = {}"
| "pass_cancelled A calls w (i # is) = cancelled_by (fired_calls A calls w i) \<union> pass_cancelled A calls (w @ [i]) is"

text \<open>
  What becomes of a timer in a pass: gone when a callback of the pass cancelled it; when it fired, armed again
  for its next interval if it repeats and gone otherwise; else unchanged.
\<close>

definition after_pass :: "int \<Rightarrow> int set \<Rightarrow> int list \<Rightarrow> (int \<rightharpoonup> Timer) \<Rightarrow> int \<rightharpoonup> Timer" where
  "after_pass now K fired A i =
     (if i \<in> K then None
      else case A i of
        None \<Rightarrow> None
      | Some t \<Rightarrow> if i \<in> set fired then (if tm_repeat t then Some (Timer_Restart now t) else None) else Some t)"

lemma fires_subset: "set (fires A calls w is) \<subseteq> set is"
  by (induction A calls w "is" rule: fires.induct) auto

lemma fires_cong: "(\<And>i. i \<in> set is \<Longrightarrow> A i = B i) \<Longrightarrow> fires A calls w is = fires B calls w is"
proof (induction A calls w "is" rule: fires.induct)
  case (2 A calls w i "is")
  then show ?case by (simp add: fired_calls_def)
qed simp

lemma pass_cancelled_cong: "(\<And>i. i \<in> set is \<Longrightarrow> A i = B i) \<Longrightarrow> pass_cancelled A calls w is = pass_cancelled B calls w is"
  by (induction "is" arbitrary: w) (simp_all add: fired_calls_def)

text \<open>One expired timer: \<open>x\<close> is the earliest, with the fields \<open>t\<close>.\<close>

definition expired_rel :: "int \<Rightarrow> int set \<Rightarrow> int \<Rightarrow> EpollTimerQueue \<Rightarrow> EpollTimerQueue \<Rightarrow> rtree \<Rightarrow> bool" where
  "expired_rel now K tid q q' T' \<longleftrightarrow> book_inv q' T' {} \<and> rt_sentinel (tb_timers q') = rt_sentinel (tb_timers q) \<and>
     tb_sequence q \<le> tb_sequence q' \<and> (\<forall>i<tb_sequence q. timers_map q' i = after_pass now K [tid] (timers_map q) i)"

lemma Timer_Run_correct:
  fixes w :: "int list"
  assumes "book_inv q T X" and "acquire_ok acquire (rt_sentinel (tb_timers q))" and "\<forall>w. \<forall>c\<in>set (calls w). call_ok c"
    and "A (tb_seq q x) = Some (tb_pool q x)"
  defines "cs \<equiv> fired_calls A calls w (tb_seq q x)"
  shows "\<exists>q' T'. Timer_Run acquire calls x q w = Some (q', w @ [tb_seq q x]) \<and> calls_rel (cancelled_by cs) q q' T' X \<and>
     ((\<forall>w. \<forall>c\<in>set (calls w). call_late now c) \<longrightarrow> due now q' T' = filter (\<lambda>i. i \<notin> cancelled_by cs) (due now q T))"
proof -
  have "\<forall>c\<in>set cs. call_ok c" using assms(3) by (auto simp: cs_def fired_calls_def split: option.splits if_splits)
  then obtain q' T' where s: "TimerQueue_calls acquire cs q = Some q'" "calls_rel (cancelled_by cs) q q' T' X"
    "(\<forall>c\<in>set cs. call_late now c) \<longrightarrow> due now q' T' = filter (\<lambda>i. i \<notin> cancelled_by cs) (due now q T)"
    using calls_correct [OF assms(1,2)] by blast
  have "Timer_Run acquire calls x q w = Some (q', w @ [tb_seq q x])"
    using s(1) assms(4) by (cases "tm_callback (tb_pool q x)") (simp_all add: Timer_Run_def cs_def fired_calls_def)
  moreover have "\<forall>c\<in>set cs. call_late now c" if "\<forall>w. \<forall>c\<in>set (calls w). call_late now c"
    using that by (auto simp: cs_def fired_calls_def split: option.splits if_splits)
  ultimately show ?thesis using s by blast
qed

lemma reinsert_timer:
  fixes now :: int and q :: EpollTimerQueue
  assumes q: "book_inv q T {x}" and rep: "tm_repeat (tb_pool q x)"
  defines "q4 \<equiv> q\<lparr>tb_pool := (tb_pool q)(x := Timer_Restart now (tb_pool q x))\<rparr>"
  shows "\<exists>st T'. let q5 = q4\<lparr>tb_timers := st, tb_active := (tb_active q4)(tb_seq q4 x \<mapsto> x)\<rparr> in
     book_insert_timer x q4 = Some (True, q4\<lparr>tb_timers := st\<rparr>) \<and> tb_active q4 (tb_seq q4 x) = None \<and> book_inv q5 T' {} \<and>
     rt_sentinel st = rt_sentinel (tb_timers q) \<and> due now q5 T' = due now q T \<and>
     timers_map q5 = (timers_map q)(tb_seq q x \<mapsto> Timer_Restart now (tb_pool q x))"
proof -
  have q4: "book_inv q4 T {x}" unfolding q4_def by (rule book_restart [OF q]) simp
  obtain st T' where st: "book_insert_timer x q4 = Some (True, q4\<lparr>tb_timers := st\<rparr>)" "tb_active q4 (tb_seq q4 x) = None"
    "book_inv (q4\<lparr>tb_timers := st, tb_active := (tb_active q4)(tb_seq q4 x \<mapsto> x)\<rparr>) T' {}"
    "inord T' = insert_after (TimerLess (tb_pool q4)) x (inord T)" "rt_sentinel st = rt_sentinel (tb_timers q4)"
    using book_insert [OF q4, of x] by auto
  define q5 where "q5 = q4\<lparr>tb_timers := st, tb_active := (tb_active q4)(tb_seq q4 x \<mapsto> x)\<rparr>"
  have x: "x \<notin> set (inord T)" "0 < tm_interval (tb_pool q x)" using q rep by (auto simp: book_inv_def)
  have f: "tb_pool q5 = (tb_pool q)(x := Timer_Restart now (tb_pool q x))" by (simp add: q5_def q4_def)
  have "due now q5 T' = due now q T"
    using x by (intro due_insert_later [OF st(4)]) (auto simp: f Timer_Restart_def)
  moreover have "timers_map q5 = (timers_map q)(tb_seq q5 x \<mapsto> tb_pool q5 x)"
    by (rule timers_map_added [OF q st(3) [folded q5_def] st(4)]) (use x(1) in \<open>auto simp: f\<close>)
  then have "timers_map q5 = (timers_map q)(tb_seq q x \<mapsto> Timer_Restart now (tb_pool q x))"
    by (simp add: f Timer_Restart_def)
  ultimately show ?thesis
    using st(1-3,5) unfolding q5_def by (intro exI [of _ st] exI [of _ T']) (simp add: Let_def q4_def)
qed

lemma OnExpired_correct:
  fixes w :: "int list"
  assumes inv: "book_inv q T {}" and x: "inord T = x # xs" "tb_exp q x \<le> now"
    and acq: "acquire_ok acquire (rt_sentinel (tb_timers q))" and calls: "\<forall>w. \<forall>c\<in>set (calls w). call_ok c"
  defines "K \<equiv> cancelled_by (fired_calls (timers_map q) calls w (tb_seq q x))"
  shows "\<exists>q1 q2 T2. book_erase_timer x q = Some (True, q1) \<and>
     TimerQueue_OnExpired acquire calls now x q1 w = Some (q2, w @ [tb_seq q x]) \<and> expired_rel now K (tb_seq q x) q q2 T2 \<and>
     ((\<forall>w. \<forall>c\<in>set (calls w). call_late now c) \<longrightarrow> due now q2 T2 = filter (\<lambda>i. i \<notin> K) (tl (due now q T)))"
proof -
  define i where "i = tb_seq q x"
  obtain store T1 where s: "book_erase_timer x q = Some (True, q\<lparr>tb_timers := store\<rparr>)" "tb_active q i = Some x"
    "book_inv (q\<lparr>tb_timers := store, tb_active := (tb_active q)(i := None)\<rparr>) T1 {x}"
    "inord T1 = remove1 x (inord T)" "rt_sentinel store = rt_sentinel (tb_timers q)"
    using book_erase [OF inv, of x] x(1) by (auto simp: i_def)
  define q1 where "q1 = q\<lparr>tb_timers := store, tb_active := (tb_active q)(i := None), tb_processing := x, tb_cancelled := False\<rparr>"
  have q1: "book_inv q1 T1 {x}" "tb_pool q1 = tb_pool q" "tb_processing q1 = x" "\<not> tb_cancelled q1" "tb_sequence q1 = tb_sequence q"
    "due now q T = i # due now q1 T1" "timers_map q1 = (timers_map q)(i := None)" "rt_sentinel (tb_timers q1) = rt_sentinel (tb_timers q)"
    using s(3-5) x by (simp_all add: q1_def due_def i_def timers_map_def fun_eq_iff)
  have A: "timers_map q i = Some (tb_pool q x)" using s(2) by (simp add: timers_map_def)
  obtain q2 T2 where q2: "Timer_Run acquire calls x q1 w = Some (q2, w @ [i])" "calls_rel K q1 q2 T2 {x}"
    "(\<forall>w. \<forall>c\<in>set (calls w). call_late now c) \<longrightarrow> due now q2 T2 = filter (\<lambda>i. i \<notin> K) (due now q1 T1)"
    using Timer_Run_correct [OF q1(1) _ calls, of acquire "timers_map q" x w now] acq q1(2,8) A by (auto simp: K_def i_def)
  define q3 where "q3 = q2\<lparr>tb_processing := nullptr, tb_cancelled := False\<rparr>"
  have q3: "book_inv q3 T2 {x}" "tb_pool q3 x = tb_pool q x" "rt_sentinel (tb_timers q3) = rt_sentinel (tb_timers q)"
    "tb_sequence q \<le> tb_sequence q3" "tb_cancelled q2 \<longleftrightarrow> i \<in> K" "due now q3 T2 = due now q2 T2"
    "\<And>j. j < tb_sequence q \<Longrightarrow> timers_map q3 j = (if j \<in> K \<or> j = i then None else timers_map q j)"
    using q2(2) q1 by (auto simp: calls_rel_def q3_def same_flags_def due_def timers_map_def i_def)
  have run: "TimerQueue_OnExpired acquire calls now x (q\<lparr>tb_timers := store\<rparr>) w =
    (if tm_repeat (tb_pool q3 x) \<and> \<not> tb_cancelled q2 then do {
       let q4 = q3\<lparr>tb_pool := (tb_pool q3)(x := Timer_Restart now (tb_pool q3 x))\<rparr>;
       (ok, q5) \<leftarrow> book_insert_timer x q4;
       check ok;
       check (tb_active q5 (tb_seq q5 x) = None);
       Some (q5\<lparr>tb_active := (tb_active q5)(tb_seq q5 x \<mapsto> x)\<rparr>, w @ [i])
     } else Some (q3\<lparr>tb_live := tb_live q3 - {x}\<rparr>, w @ [i]))"
    using q2(1) s(2) unfolding TimerQueue_OnExpired_def by (simp add: q3_def q1_def i_def Let_def)
  have fin: ?thesis if "TimerQueue_OnExpired acquire calls now x (q\<lparr>tb_timers := store\<rparr>) w = Some (q', w @ [i])" "book_inv q' T' {}"
    "rt_sentinel (tb_timers q') = rt_sentinel (tb_timers q3)" "tb_sequence q' = tb_sequence q3" "due now q' T' = due now q3 T2"
    "\<And>j. j < tb_sequence q \<Longrightarrow> timers_map q' j = after_pass now K [i] (timers_map q) j" for q' T'
    using s(1) that q2(3) q3(3,4,6) q1(6)
    by (intro exI [of _ "q\<lparr>tb_timers := store\<rparr>"] exI [of _ q'] exI [of _ T']) (simp add: expired_rel_def i_def [symmetric])
  show ?thesis
  proof (cases "tm_repeat (tb_pool q3 x) \<and> \<not> tb_cancelled q2")
    case True
    define q4 where "q4 = q3\<lparr>tb_pool := (tb_pool q3)(x := Timer_Restart now (tb_pool q3 x))\<rparr>"
    obtain st T3 where st: "book_insert_timer x q4 = Some (True, q4\<lparr>tb_timers := st\<rparr>)" "tb_active q4 (tb_seq q4 x) = None"
      "book_inv (q4\<lparr>tb_timers := st, tb_active := (tb_active q4)(tb_seq q4 x \<mapsto> x)\<rparr>) T3 {}" "rt_sentinel st = rt_sentinel (tb_timers q3)"
      "due now (q4\<lparr>tb_timers := st, tb_active := (tb_active q4)(tb_seq q4 x \<mapsto> x)\<rparr>) T3 = due now q3 T2"
      "timers_map (q4\<lparr>tb_timers := st, tb_active := (tb_active q4)(tb_seq q4 x \<mapsto> x)\<rparr>) = (timers_map q3)(tb_seq q3 x \<mapsto> Timer_Restart now (tb_pool q3 x))"
      using reinsert_timer [OF q3(1) conjunct1 [OF True], of now] unfolding q4_def [symmetric] Let_def by blast
    let ?q = "q4\<lparr>tb_timers := st, tb_active := (tb_active q4)(tb_seq q4 x \<mapsto> x)\<rparr>"
    have "TimerQueue_OnExpired acquire calls now x (q\<lparr>tb_timers := store\<rparr>) w = Some (?q, w @ [i])"
      unfolding run if_P [OF True] q4_def [symmetric] Let_def using st(1,2) by simp
    then show ?thesis
    proof (rule fin [OF _ st(3)])
      show "timers_map ?q j = after_pass now K [i] (timers_map q) j" if "j < tb_sequence q" for j
        using that st(6) q3(2,5,7) True A by (auto simp: after_pass_def i_def split: option.splits)
    qed (use st(4,5) in \<open>simp_all add: q4_def\<close>)
  next
    case False
    let ?q = "q3\<lparr>tb_live := tb_live q3 - {x}\<rparr>"
    have "book_inv ?q T2 {}" using book_release [OF q3(1), of x] by simp
    moreover have "TimerQueue_OnExpired acquire calls now x (q\<lparr>tb_timers := store\<rparr>) w = Some (?q, w @ [i])"
      unfolding run using False by (simp only: if_False)
    moreover have "timers_map ?q j = after_pass now K [i] (timers_map q) j" if "j < tb_sequence q" for j
    proof -
      have "timers_map ?q j = timers_map q3 j" by (simp add: timers_map_def)
      then show ?thesis using that q3(2,5,7) False A by (auto simp: after_pass_def split: option.splits)
    qed
    ultimately show ?thesis by (intro fin [of ?q T2]) (simp_all add: due_def)
  qed
qed

lemma after_pass_step:
  assumes "\<forall>j<n. B j = after_pass now K [i] A j" "i \<notin> set fired" "j < n"
  shows "after_pass now L fired B j = after_pass now (K \<union> L) (i # fired) A j"
  using assms by (auto simp: after_pass_def split: option.splits)


text \<open>A pass in which callbacks add only later timers ends, and its outcome is determined.\<close>

definition pass_rel :: "(int list \<Rightarrow> timer_call list) \<Rightarrow> int \<Rightarrow> int list \<Rightarrow> EpollTimerQueue \<Rightarrow> int list \<Rightarrow> EpollTimerQueue \<Rightarrow> rtree \<Rightarrow> bool" where
  "pass_rel calls now w q fired q' T' \<longleftrightarrow> book_inv q' T' {} \<and> rt_sentinel (tb_timers q') = rt_sentinel (tb_timers q) \<and>
     tb_sequence q \<le> tb_sequence q' \<and>
     (\<forall>i<tb_sequence q. timers_map q' i = after_pass now (pass_cancelled (timers_map q) calls w fired) fired (timers_map q) i) \<and>
     (\<forall>x\<in>set (inord T'). now < tb_exp q' x)"

lemma pass_rel_none:
  assumes "book_inv q T {}" "\<forall>x\<in>set (inord T). now < tb_exp q x"
  shows "pass_rel calls now w q (fires (timers_map q) calls w (due now q T)) q T" "due now q T = []"
proof -
  show "due now q T = []" using assms(2) by (simp add: due_def filter_empty_conv) (metis not_le)
  then show "pass_rel calls now w q (fires (timers_map q) calls w (due now q T)) q T"
    using assms by (simp add: pass_rel_def after_pass_def split: option.splits)
qed

lemma pass_rel_step:
  assumes inv: "book_inv q T {}" and "due now q T = i # is"
    and K: "K = cancelled_by (fired_calls (timers_map q) calls w i)"
    and step: "expired_rel now K i q q2 T2" "due now q2 T2 = filter (\<lambda>i. i \<notin> K) is"
    and rest: "pass_rel calls now (w @ [i]) q2 (fires (timers_map q2) calls (w @ [i]) (due now q2 T2)) q3 T3"
  defines "fired \<equiv> fires (timers_map q2) calls (w @ [i]) (due now q2 T2)"
  shows "fires (timers_map q) calls w (due now q T) = i # fired" and "pass_rel calls now w q (i # fired) q3 T3"
proof -
  have "i \<notin> set is" using due_distinct [OF inv, of now] assms(2) by simp
  have "timers_map q2 j = timers_map q j" if "j \<in> set (due now q2 T2)" for j
  proof -
    have "j \<in> set (due now q T)" "j \<notin> K" "j \<noteq> i" using that step(2) assms(2) \<open>i \<notin> set is\<close> by auto
    moreover from due_active [OF inv this(1)] obtain tm where "timers_map q j = Some tm" by blast
    ultimately show ?thesis using step(1) timers_map_bound [OF inv] by (auto simp: expired_rel_def after_pass_def)
  qed
  note same = this
  have sub: "set fired \<subseteq> set (due now q2 T2)" unfolding fired_def by (rule fires_subset)
  have "fires (timers_map q) calls (w @ [i]) (due now q2 T2) = fired"
    unfolding fired_def by (rule fires_cong) (simp add: same)
  then show "fires (timers_map q) calls w (due now q T) = i # fired"
    by (simp add: assms(2) K [symmetric] step(2))
  have "pass_cancelled (timers_map q2) calls (w @ [i]) fired = pass_cancelled (timers_map q) calls (w @ [i]) fired"
    by (rule pass_cancelled_cong) (use same sub in blast)
  moreover have "i \<notin> set fired" using sub step(2) \<open>i \<notin> set is\<close> by auto
  ultimately show "pass_rel calls now w q (i # fired) q3 T3"
    using rest step(1) after_pass_step [of "tb_sequence q" "timers_map q2" now K i "timers_map q" fired]
    unfolding fired_def [symmetric] by (simp add: pass_rel_def expired_rel_def K)
qed

lemma PopExpired_correct:
  fixes w :: "int list"
  assumes "book_inv q T {}" and "acquire_ok acquire (rt_sentinel (tb_timers q))" and calls: "\<forall>w. \<forall>c\<in>set (calls w). call_ok c"
    "\<forall>w. \<forall>c\<in>set (calls w). call_late now c"
  defines "fired \<equiv> fires (timers_map q) calls w (due now q T)"
  shows "\<exists>q' T'. TimerQueue_PopExpired acquire calls now q w = Some (q', w @ fired) \<and> pass_rel calls now w q fired q' T'"
  using assms(1,2) unfolding fired_def
proof (induction "length (due now q T)" arbitrary: q T w rule: less_induct)
  case less
  show ?case
  proof (cases "\<forall>x\<in>set (inord T). now < tb_exp q x")
    case True
    then have "TimerIndex_Empty (tb_timers q) \<or> \<not> tb_exp q (TimerIndex_Earliest (tb_timers q)) \<le> now"
      using book_earliest [OF less.prems(1)] by (cases "inord T") auto
    then show ?thesis
      using pass_rel_none [OF less.prems(1) True]
      by (intro exI [of _ q] exI [of _ T]) (subst TimerQueue_PopExpired.simps, auto)
  next
    case False
    then obtain x xs where x: "inord T = x # xs" by (cases "inord T") auto
    have e: "\<not> TimerIndex_Empty (tb_timers q)" "TimerIndex_Earliest (tb_timers q) = x" "tb_exp q x \<le> now"
      using book_earliest [OF less.prems(1)] book_earliest(4) [OF less.prems(1) x] x False by fastforce+
    define K where "K = cancelled_by (fired_calls (timers_map q) calls w (tb_seq q x))"
    obtain q1 q2 T2 where s: "book_erase_timer x q = Some (True, q1)"
      "TimerQueue_OnExpired acquire calls now x q1 w = Some (q2, w @ [tb_seq q x])" "expired_rel now K (tb_seq q x) q q2 T2"
      "due now q2 T2 = filter (\<lambda>i. i \<notin> K) (tl (due now q T))"
      using OnExpired_correct [OF less.prems(1) x e(3) less.prems(2) calls(1), of w] calls(2) unfolding K_def by blast
    have d: "due now q T = tb_seq q x # tl (due now q T)" using x e(3) by (simp add: due_def)
    then have "length (due now q2 T2) < length (due now q T)"
      unfolding s(4) by (metis length_Cons length_filter_le less_Suc_eq_le)
    moreover have "acquire_ok acquire (rt_sentinel (tb_timers q2))" "book_inv q2 T2 {}"
      using s(3) less.prems(2) by (simp_all add: expired_rel_def)
    ultimately obtain q3 T3 where r:
      "TimerQueue_PopExpired acquire calls now q2 (w @ [tb_seq q x]) =
         Some (q3, (w @ [tb_seq q x]) @ fires (timers_map q2) calls (w @ [tb_seq q x]) (due now q2 T2))"
      "pass_rel calls now (w @ [tb_seq q x]) q2 (fires (timers_map q2) calls (w @ [tb_seq q x]) (due now q2 T2)) q3 T3"
      using less.hyps by blast
    note f = pass_rel_step [OF less.prems(1) d K_def s(3,4) r(2)]
    have "TimerQueue_PopExpired acquire calls now q w =
        Some (q3, w @ tb_seq q x # fires (timers_map q2) calls (w @ [tb_seq q x]) (due now q2 T2))"
      using e s(1,2) r(1) by (subst TimerQueue_PopExpired.simps) simp
    then show ?thesis using f by (intro exI [of _ q3] exI [of _ T3]) simp
  qed
qed

lemma rearm_correct:
  assumes "book_inv q T {}" and "SetTimerfd_loop rs = Some ()"
  shows "\<exists>k. (if \<not> TimerIndex_Empty (tb_timers q) then ResetTimerfd (tb_exp q (TimerIndex_Earliest (tb_timers q))) now2 rs q else Some q) =
     Some (q\<lparr>etq_timerfd := k\<rparr>) \<and> armed now2 (q\<lparr>etq_timerfd := k\<rparr>) T"
proof (cases "inord T")
  case Nil
  then show ?thesis using book_earliest(1) [OF assms(1)] by (intro exI [of _ "etq_timerfd q"]) (simp add: armed_def)
next
  case (Cons x xs)
  obtain k where "ResetTimerfd (tb_exp q x) now2 rs q = Some (q\<lparr>etq_timerfd := Some k\<rparr>)" "k \<le> max (tb_exp q x) (now2 + 100000)"
    using ResetTimerfd_correct [OF assms(2)] by blast
  then show ?thesis
    using Cons book_earliest [OF assms(1)] by (intro exI [of _ "Some k"]) (auto simp: armed_def)
qed

lemma timers_map_timerfd [simp]: "timers_map (q\<lparr>etq_timerfd := k\<rparr>) = timers_map q"
  by (simp add: timers_map_def fun_eq_iff)


lemma HandleRead_correct:
  fixes w :: "int list"
  assumes "book_inv q T {}" and "acquire_ok acquire (rt_sentinel (tb_timers q))"
    and "\<forall>w. \<forall>c\<in>set (calls w). call_ok c" and "\<forall>w. \<forall>c\<in>set (calls w). call_late now c"
    and "ReadTimerfd reads = Some ()" "SetTimerfd_loop rs = Some ()"
  defines "fired \<equiv> fires (timers_map q) calls w (due now q T)"
  shows "\<exists>q' T'. TimerQueue_HandleRead acquire calls now reads now2 rs q w = Some (q', w @ fired) \<and> pass_rel calls now w q fired q' T'"
proof -
  obtain q1 T1 where p: "TimerQueue_PopExpired acquire calls now q w = Some (q1, w @ fired)" "pass_rel calls now w q fired q1 T1"
    using PopExpired_correct [OF assms(1-4)] unfolding fired_def by blast
  then obtain k where k: "(if \<not> TimerIndex_Empty (tb_timers q1) then ResetTimerfd (tb_exp q1 (TimerIndex_Earliest (tb_timers q1))) now2 rs q1 else Some q1) =
     Some (q1\<lparr>etq_timerfd := k\<rparr>)"
    using rearm_correct [OF _ assms(6)] by (force simp: pass_rel_def)
  then have "TimerQueue_HandleRead acquire calls now reads now2 rs q w = Some (q1\<lparr>etq_timerfd := k\<rparr>, w @ fired)"
    using p(1) assms(5) by (simp add: TimerQueue_HandleRead_def)
  then show ?thesis
    using p(2) by (intro exI [of _ "q1\<lparr>etq_timerfd := k\<rparr>"] exI [of _ T1]) (simp add: pass_rel_def)
qed

lemma destroy_correct:
  assumes "book_inv q T {}"
  shows "\<exists>q'. TimerQueue_destroy q = Some q' \<and> book_inv q' Leaf {} \<and> tb_live q' = {} \<and> tb_active q' = Map.empty"
  using assms
proof (induction "inord T" arbitrary: q T)
  case Nil
  then have "T = Leaf" by (cases T) auto
  then have "tb_live q = {}" "tb_active q = Map.empty" using Nil.prems by (auto simp: book_inv_def)
  then show ?case
    using Nil book_earliest(1) [OF Nil.prems] \<open>T = Leaf\<close>
    by (intro exI [of _ q]) (subst TimerQueue_destroy.simps, simp)
next
  case (Cons x xs)
  obtain store T1 where s: "book_erase_timer x q = Some (True, q\<lparr>tb_timers := store\<rparr>)" "tb_active q (tb_seq q x) = Some x"
    "book_inv (q\<lparr>tb_timers := store, tb_active := (tb_active q)(tb_seq q x := None)\<rparr>) T1 {x}" "inord T1 = remove1 x (inord T)"
    using book_erase [OF Cons.prems, of x] Cons.hyps(2) [symmetric] by auto
  define q2 where "q2 = q\<lparr>tb_timers := store, tb_active := (tb_active q)(tb_seq q x := None), tb_live := tb_live q - {x}\<rparr>"
  have "book_inv q2 T1 {}" using book_release [OF s(3), of x] by (simp add: q2_def)
  moreover have "xs = inord T1" using s(4) Cons.hyps(2) [symmetric] by simp
  ultimately obtain q' where "TimerQueue_destroy q2 = Some q'" "book_inv q' Leaf {}" "tb_live q' = {}" "tb_active q' = Map.empty"
    using Cons.hyps(1) by blast
  moreover have "TimerQueue_destroy q = TimerQueue_destroy q2"
    using s(1,2) book_earliest [OF Cons.prems] Cons.hyps(2) [symmetric]
    by (subst TimerQueue_destroy.simps) (simp add: q2_def)
  ultimately show ?case by auto
qed

lemma init_book: "s \<noteq> nullptr \<Longrightarrow> \<not> rb_linked h s \<Longrightarrow> book_inv (TimerQueue_init s h n) Leaf {}"
  by (simp add: book_inv_def TimerQueue_init_def Tree_init_inv)

section \<open>Runs of the queue\<close>












text \<open>
  C7. A readiness pass at time \<open>now\<close>, with system calls that succeed and callbacks that add only timers
  later than \<open>now\<close>, returns, and its outcome is determined. It runs the due timers in the order of deadline and
  sequence number, each once, except those that a callback run before them in the pass cancelled
  (\<open>fires\<close>). Of the timers known before the pass, those that a callback of the pass cancelled are gone,
  including a repeating timer cancelled from its own callback; a repeating timer that ran is armed again for
  \<open>now\<close> plus its interval; a one-shot timer that ran is gone; every other timer is unchanged. No due timer is
  left, and the object store holds exactly the timers of the index, which the table of active
  timers names, so every timer that is gone was released.
\<close>

theorem epoll_timer_pass:
  fixes w :: "int list"
  assumes "book_inv q T {}" and "acquire_ok acquire (rt_sentinel (tb_timers q))"
    and "\<forall>w. \<forall>c\<in>set (calls w). call_ok c" and "\<forall>w. \<forall>c\<in>set (calls w). call_late now c"
    and "ReadTimerfd reads = Some ()" and "SetTimerfd_loop rs = Some ()"
  defines "A \<equiv> timers_map q"
  defines "fired \<equiv> fires A calls w (due now q T)"
  shows "\<exists>q' T'. TimerQueue_HandleRead acquire calls now reads now2 rs q w = Some (q', w @ fired) \<and>
     (\<forall>i<tb_sequence q. timers_map q' i = after_pass now (pass_cancelled A calls w fired) fired A i) \<and>
     (\<forall>x\<in>set (inord T'). now < tb_exp q' x) \<and> tb_live q' = set (inord T') \<and> book_inv q' T' {}"
proof -
  obtain q' T' where "TimerQueue_HandleRead acquire calls now reads now2 rs q w = Some (q', w @ fired)" "pass_rel calls now w q fired q' T'"
    using HandleRead_correct [OF assms(1-6), where w = w and ?now2.0 = now2] unfolding fired_def A_def by blast
  moreover from this(2) have "tb_live q' = set (inord T')" by (simp add: pass_rel_def book_inv_def)
  ultimately show ?thesis unfolding A_def by (auto simp: pass_rel_def)
qed

theorem epoll_timer_pass_witness:
  "\<exists>q. TimerQueue_AddTimer next_addr (Some 0) 700 300 10 [0] (TimerQueue_init 1 empty_heap 0) = Some (0, q) \<and>
     (\<exists>q'. TimerQueue_HandleRead next_addr (\<lambda>w. [CallAdd (Some 0) 1900 0 40 [0]]) 800 [Read_bytes 8] 810 [0] q [] = Some (q', [0]) \<and>
       map_option tm_expiration (timers_map q' 0) = Some 1100)"
proof -
  have base: "book_inv (TimerQueue_init 1 empty_heap 0) Leaf {}"
    by (rule init_book) (simp_all add: empty_heap_def)
  have init: "rt_sentinel (tb_timers (TimerQueue_init 1 empty_heap 0)) = 1" "tb_sequence (TimerQueue_init 1 empty_heap 0) = 0"
    by (simp_all add: TimerQueue_init_def Tree_init_def)
  obtain t q T where q: "TimerQueue_AddTimer next_addr (Some 0) 700 300 10 [0] (TimerQueue_init 1 empty_heap 0) = Some (0, q)"
    "book_inv q T {}" "tb_pool q = (tb_pool (TimerQueue_init 1 empty_heap 0))(t := Timer_new (Some 0) 700 300 0)"
    "inord T = [t]" "rt_sentinel (tb_timers q) = 1" "tb_sequence q = 1"
    using AddTimer_correct [OF base, of next_addr "[0]" "Some 0" 700 300 10 0] next_addr_ok init
    by (auto simp: same_flags_def insert_after_Cons)
  let ?calls = "\<lambda>w :: int list. [CallAdd (Some 0) 1900 0 40 [0]]"
  have due: "due 800 q T = [0]" using q(3,4) by (simp add: due_def Timer_new_def)
  have A: "timers_map q 0 = Some (Timer_new (Some 0) 700 300 0)"
    using q(3,4) by (simp add: timers_map_iff [OF q(2)] Timer_new_def)
  have "\<exists>q' T'. TimerQueue_HandleRead next_addr ?calls 800 [Read_bytes 8] 810 [0] q [] = Some (q', [] @ [0]) \<and>
     (\<forall>i<tb_sequence q. timers_map q' i = after_pass 800 (pass_cancelled (timers_map q) ?calls [] [0]) [0] (timers_map q) i) \<and>
     (\<forall>x\<in>set (inord T'). 800 < tb_exp q' x) \<and> tb_live q' = set (inord T') \<and> book_inv q' T' {}"
    using epoll_timer_pass [OF q(2), where acquire = next_addr and calls = ?calls and now = 800 and reads = "[Read_bytes 8]" and rs = "[0]" and w = "[]" and ?now2.0 = 810] next_addr_ok q(5) due by simp
  then show ?thesis
    using q(1,6) A by (auto simp: after_pass_def fired_calls_def Timer_new_def Timer_Restart_def)
qed

end
