(* ===== verification/Coro_Work.thy ===== *)
theory Coro_Work
  imports Alyrn_Prelude
begin

text \<open>
  \<^verbatim>\<open>coro/work.h\<close>, \<^verbatim>\<open>detail/scheduler_continuation.h\<close> and the execution scope of \<^verbatim>\<open>coro/scheduler.h\<close>. A
  \<^verbatim>\<open>Work\<close> keeps either a function pointer or a coroutine handle in one 64-bit word, told apart by the
  high bit; addresses that are packed are words here. What a work item does when it runs is the value
  \<open>work_action\<close>; whether a coroutine is done is an argument.
\<close>

unbundle bit_operations_syntax

section \<open>Work\<close>

record Work =
  wk_action :: u64

definition kResumeTag :: u64 where
  "kResumeTag = push_bit 63 1"

datatype work_action = RunCallback u64 | ResumeCoroutine u64

definition Work_init :: Work where
  "Work_init = \<lparr>wk_action = 0\<rparr>"

definition Work_SetRun :: "u64 \<Rightarrow> Work \<Rightarrow> Work option" where
  "Work_SetRun run_fn w = do {
     check (run_fn \<noteq> 0);
     check (run_fn AND kResumeTag = 0);
     Some (w\<lparr>wk_action := run_fn\<rparr>)
   }"

definition Work_IsResume :: "Work \<Rightarrow> bool" where
  "Work_IsResume w \<longleftrightarrow> wk_action w AND kResumeTag \<noteq> 0"

definition Work_Run :: "(u64 \<Rightarrow> bool) \<Rightarrow> Work \<Rightarrow> work_action option" where
  "Work_Run handle_done w =
     (let action = wk_action w in
      if action AND kResumeTag \<noteq> 0 then do {
        let address = action AND NOT kResumeTag;
        check (address \<noteq> 0);
        check (\<not> handle_done address);
        Some (ResumeCoroutine address)
      } else do {
        check (action \<noteq> 0);
        Some (RunCallback action)
      })"

definition Work_SetHandle :: "u64 \<Rightarrow> Work \<Rightarrow> Work option" where
  "Work_SetHandle address w = do {
     check (address \<noteq> 0);
     check (address AND kResumeTag = 0);
     Some (w\<lparr>wk_action := address OR kResumeTag\<rparr>)
   }"

definition Work_HasHandle :: "Work \<Rightarrow> bool" where
  "Work_HasHandle w \<longleftrightarrow> Work_IsResume w \<and> wk_action w AND NOT kResumeTag \<noteq> 0"

definition Work_Handle :: "Work \<Rightarrow> u64 option" where
  "Work_Handle w = do {
     check (Work_HasHandle w);
     Some (wk_action w AND NOT kResumeTag)
   }"

definition Work_ClearHandle :: "Work \<Rightarrow> Work" where
  "Work_ClearHandle w = w\<lparr>wk_action := kResumeTag\<rparr>"

definition ResumeWork_init :: Work where
  "ResumeWork_init = Work_ClearHandle Work_init"

section \<open>SchedulerContinuation\<close>

record SchedulerContinuation =
  sc_scheduler :: addr
  sc_resume_work :: Work

definition SchedulerContinuation_init :: SchedulerContinuation where
  "SchedulerContinuation_init = \<lparr>sc_scheduler = nullptr, sc_resume_work = ResumeWork_init\<rparr>"

definition SchedulerContinuation_Bound :: "SchedulerContinuation \<Rightarrow> bool" where
  "SchedulerContinuation_Bound c \<longleftrightarrow> sc_scheduler c \<noteq> nullptr"

text \<open>\<open>current\<close> is \<^verbatim>\<open>Scheduler::TryCurrent()\<close>.\<close>

definition SchedulerContinuation_Bind :: "addr \<Rightarrow> u64 \<Rightarrow> SchedulerContinuation \<Rightarrow> SchedulerContinuation option" where
  "SchedulerContinuation_Bind current handle c = do {
     check (\<not> SchedulerContinuation_Bound c);
     check (handle \<noteq> 0);
     let c1 = c\<lparr>sc_scheduler := current\<rparr>;
     check (sc_scheduler c1 \<noteq> nullptr);
     w \<leftarrow> Work_SetHandle handle (sc_resume_work c1);
     Some (c1\<lparr>sc_resume_work := w\<rparr>)
   }"

text \<open>Both ways to schedule hand the captured scheduler and the work item to the dispatcher.\<close>

definition SchedulerContinuation_Schedule :: "SchedulerContinuation \<Rightarrow> (addr \<times> Work) option" where
  "SchedulerContinuation_Schedule c = do {
     check (sc_scheduler c \<noteq> nullptr);
     check (Work_HasHandle (sc_resume_work c));
     Some (sc_scheduler c, sc_resume_work c)
   }"

definition SchedulerContinuation_ScheduleWith ::
    "(addr \<Rightarrow> Work \<Rightarrow> 's \<Rightarrow> 's option) \<Rightarrow> SchedulerContinuation \<Rightarrow> 's \<Rightarrow> 's option" where
  "SchedulerContinuation_ScheduleWith dispatch c st = do {
     check (sc_scheduler c \<noteq> nullptr);
     check (Work_HasHandle (sc_resume_work c));
     dispatch (sc_scheduler c) (sc_resume_work c) st
   }"

section \<open>The execution scope\<close>

text \<open>
  The thread-local current scheduler and frame resource, with the frame resource that belongs to
  each scheduler. A scope saves what it replaces and restores it in reverse order.
\<close>

record ThreadContext =
  tc_scheduler :: addr
  tc_frame_resource :: addr

definition CurrentScope_enter :: "addr \<Rightarrow> ThreadContext \<Rightarrow> (addr \<times> bool) \<times> ThreadContext" where
  "CurrentScope_enter scheduler t =
     (let previous = tc_scheduler t; changed = (previous \<noteq> scheduler) in
      ((previous, changed), if changed then t\<lparr>tc_scheduler := scheduler\<rparr> else t))"

definition CurrentScope_leave :: "addr \<times> bool \<Rightarrow> ThreadContext \<Rightarrow> ThreadContext" where
  "CurrentScope_leave saved t = (if snd saved then t\<lparr>tc_scheduler := fst saved\<rparr> else t)"

definition Scheduler_RequireCurrent :: "ThreadContext \<Rightarrow> addr option" where
  "Scheduler_RequireCurrent t = do { check (tc_scheduler t \<noteq> nullptr); Some (tc_scheduler t) }"

text \<open>\<open>standard\<close> is the address of \<^verbatim>\<open>std::pmr::new_delete_resource()\<close>.\<close>

definition NormalizeFrameResource :: "addr \<Rightarrow> addr \<Rightarrow> addr" where
  "NormalizeFrameResource standard resource = (if resource \<noteq> nullptr then resource else standard)"

definition SetCurrentFrameResource :: "addr \<Rightarrow> addr \<Rightarrow> ThreadContext \<Rightarrow> ThreadContext" where
  "SetCurrentFrameResource standard resource t = t\<lparr>tc_frame_resource := NormalizeFrameResource standard resource\<rparr>"

definition FrameScope_enter :: "addr \<Rightarrow> addr \<Rightarrow> ThreadContext \<Rightarrow> (addr \<times> bool) \<times> ThreadContext" where
  "FrameScope_enter standard resource t =
     (let previous = tc_frame_resource t; changed = (previous \<noteq> NormalizeFrameResource standard resource) in
      ((previous, changed), if changed then SetCurrentFrameResource standard resource t else t))"

definition FrameScope_leave :: "addr \<Rightarrow> addr \<times> bool \<Rightarrow> ThreadContext \<Rightarrow> ThreadContext" where
  "FrameScope_leave standard saved t = (if snd saved then SetCurrentFrameResource standard (fst saved) t else t)"

record Scheduler =
  sd_self :: addr
  sd_frame_resource :: addr

definition ExecutionScope_enter ::
    "addr \<Rightarrow> Scheduler \<Rightarrow> ThreadContext \<Rightarrow> ((addr \<times> bool) \<times> (addr \<times> bool)) \<times> ThreadContext" where
  "ExecutionScope_enter standard scheduler t =
     (let (s1, t1) = CurrentScope_enter (sd_self scheduler) t;
          (s2, t2) = FrameScope_enter standard (sd_frame_resource scheduler) t1
      in ((s1, s2), t2))"

definition ExecutionScope_leave ::
    "addr \<Rightarrow> (addr \<times> bool) \<times> (addr \<times> bool) \<Rightarrow> ThreadContext \<Rightarrow> ThreadContext" where
  "ExecutionScope_leave standard saved t = CurrentScope_leave (fst saved) (FrameScope_leave standard (snd saved) t)"

definition CheckExecutionScope :: "addr \<Rightarrow> Scheduler \<Rightarrow> ThreadContext \<Rightarrow> unit option" where
  "CheckExecutionScope standard scheduler t = do {
     check (tc_scheduler t = sd_self scheduler);
     check (tc_frame_resource t = NormalizeFrameResource standard (sd_frame_resource scheduler))
   }"

section \<open>The word holds one action\<close>

lemma tag_bit: "bit kResumeTag n \<longleftrightarrow> n = 63"
proof -
  have "kResumeTag = 2 ^ 63" by (simp add: kResumeTag_def push_bit_eq_mult)
  then show ?thesis using bit_exp_iff [where 'a = u64, of 63 n] by auto
qed

lemmas action_bits = bit_eq_iff [where 'a = u64] tag_bit bit_and_iff bit_or_iff bit_not_iff

lemma tag_clear: "x AND kResumeTag = 0 \<longleftrightarrow> \<not> bit x 63"
proof -
  have "bit (x AND kResumeTag) n \<longleftrightarrow> n = 63 \<and> bit x 63" for n by (auto simp: bit_and_iff tag_bit)
  then show ?thesis by (metis bit_0_eq bot_apply bot_bool_def bit_eq_iff)
qed

lemma tagged_address:
  assumes "address AND kResumeTag = 0"
  shows "(address OR kResumeTag) AND NOT kResumeTag = address" "(address OR kResumeTag) AND kResumeTag \<noteq> 0"
  using assms unfolding tag_clear by (auto simp: action_bits dest: bit_imp_le_length)

lemma work_shape: "Work_SetHandle address w = Some w' \<Longrightarrow> Work_HasHandle w' \<and> Work_Handle w' = Some address"
  using tagged_address [of address]
  by (auto simp: Work_SetHandle_def Work_HasHandle_def Work_Handle_def Work_IsResume_def Option.bind_eq_Some_conv)

text \<open>
  C35. The word of a \<^verbatim>\<open>Work\<close> never confuses its two uses: an accepted handle reads back, reports
  \<^verbatim>\<open>HasHandle\<close> and is resumed by \<^verbatim>\<open>Run\<close>, an accepted callback is called by \<^verbatim>\<open>Run\<close> and is no handle,
  and a cleared item is no handle and aborts when run. A null or high-half address is refused.
\<close>

theorem work_roundtrip:
  "(case Work_SetHandle address w of
      None \<Rightarrow> address = 0 \<or> bit address 63
    | Some w' \<Rightarrow> Work_HasHandle w' \<and> Work_Handle w' = Some address \<and>
        Work_Run handle_done w' = (if handle_done address then None else Some (ResumeCoroutine address))) \<and>
   (case Work_SetRun address w of
      None \<Rightarrow> address = 0 \<or> bit address 63
    | Some w' \<Rightarrow> \<not> Work_HasHandle w' \<and> Work_Handle w' = None \<and> Work_Run handle_done w' = Some (RunCallback address)) \<and>
   \<not> Work_HasHandle (Work_ClearHandle w) \<and> Work_Run handle_done (Work_ClearHandle w) = None"
proof -
  have clear: "kResumeTag AND NOT kResumeTag = 0" by simp
  show ?thesis
  proof (cases "address \<noteq> 0 \<and> address AND kResumeTag = 0")
    case True
    then show ?thesis
      using tagged_address [of address] clear
      by (simp add: Work_SetHandle_def Work_SetRun_def Work_HasHandle_def Work_Handle_def Work_IsResume_def Work_Run_def
          Work_ClearHandle_def Let_def)
  next
    case False
    then show ?thesis
      using clear tag_bit [of 63] by (auto simp: Work_SetHandle_def Work_SetRun_def Work_HasHandle_def Work_IsResume_def Work_Run_def
          Work_ClearHandle_def Let_def tag_clear)
  qed
qed

lemma scope_restores:
  "CurrentScope_enter s t = (saved, t') \<Longrightarrow> tc_scheduler t' = s \<and> CurrentScope_leave saved t' = t"
  by (auto simp: CurrentScope_enter_def CurrentScope_leave_def Let_def split: if_splits)

lemma execution_scope:
  assumes "ExecutionScope_enter standard scheduler t = (saved, t1)" "tc_frame_resource t \<noteq> nullptr"
  shows "CheckExecutionScope standard scheduler t1 = Some ()" "ExecutionScope_leave standard saved t1 = t"
  using assms by (auto simp: ExecutionScope_enter_def ExecutionScope_leave_def CheckExecutionScope_def
      CurrentScope_enter_def CurrentScope_leave_def FrameScope_enter_def FrameScope_leave_def
      SetCurrentFrameResource_def NormalizeFrameResource_def Let_def split: if_splits prod.splits)

end
