(* ===== verification/Spawn_State.thy ===== *)
theory Spawn_State
  imports Coro_Work
begin

text \<open>
  \<^verbatim>\<open>coro/detail/spawn_state.h\<close> with the final awaiter of \<^verbatim>\<open>coro/detail/spawn_root.h\<close> and the
  \<^verbatim>\<open>JoinHandle\<close> of \<^verbatim>\<open>coro/spawn.h\<close>: the join state that lives inside the root coroutine frame and is
  shared by the thread that runs the root and the thread that holds the handle. Every atomic access of
  the phase word, and every access of another field between two of them, is one step; a run is any
  interleaving of the two threads. \<open>sy_destroyed\<close> counts destructions of the frame.
\<close>

section \<open>The shared state\<close>

datatype Phase = kRunningJoinable | kWaiterParked | kRunningDetached | kFinished | kCompletedWaiterScheduled

datatype FinishAction = kKeepRoot | kDestroyRoot

record 'v SpawnState =
  sp_root_work :: Work
  sp_result :: "'v option"
  sp_waiter_scheduler :: addr
  sp_waiter_resume :: Work
  sp_phase :: Phase

definition SpawnState_init :: "'v SpawnState" where
  "SpawnState_init =
     \<lparr>sp_root_work = ResumeWork_init, sp_result = None, sp_waiter_scheduler = nullptr,
      sp_waiter_resume = ResumeWork_init, sp_phase = kRunningJoinable\<rparr>"

definition SpawnState_SetRootHandle :: "u64 \<Rightarrow> 'v SpawnState \<Rightarrow> 'v SpawnState option" where
  "SpawnState_SetRootHandle handle s = do {
     check (handle \<noteq> 0);
     w \<leftarrow> Work_SetHandle handle (sp_root_work s);
     Some (s\<lparr>sp_root_work := w\<rparr>)
   }"

text \<open>\<^verbatim>\<open>ResultSlot::Set\<close> and \<^verbatim>\<open>ResultSlot::Take\<close>; taking moves out of the value and leaves it engaged.\<close>

definition SpawnState_StoreResult :: "'v \<Rightarrow> 'v SpawnState \<Rightarrow> 'v SpawnState option" where
  "SpawnState_StoreResult v s = do { check (sp_result s = None); Some (s\<lparr>sp_result := Some v\<rparr>) }"

definition SpawnState_TakeResult :: "'v SpawnState \<Rightarrow> 'v option" where
  "SpawnState_TakeResult s = do { check (sp_result s \<noteq> None); sp_result s }"

text \<open>The first access of \<^verbatim>\<open>Finish\<close>, a compare-exchange, and what it observed.\<close>

definition Finish_exchange :: "'v SpawnState \<Rightarrow> Phase \<times> 'v SpawnState" where
  "Finish_exchange s =
     (if sp_phase s = kRunningJoinable then (sp_phase s, s\<lparr>sp_phase := kFinished\<rparr>) else (sp_phase s, s))"

text \<open>The parked branch: the phase is stored first, then the waiter is handed to its scheduler.\<close>

definition Finish_publish :: "'v SpawnState \<Rightarrow> 'v SpawnState" where
  "Finish_publish s = s\<lparr>sp_phase := kCompletedWaiterScheduled\<rparr>"

definition Finish_schedule :: "'v SpawnState \<Rightarrow> (addr \<times> Work) option" where
  "Finish_schedule s = do {
     check (sp_waiter_scheduler s \<noteq> nullptr);
     Some (sp_waiter_scheduler s, sp_waiter_resume s)
   }"

definition SpawnState_IsFinished :: "'v SpawnState \<Rightarrow> bool" where
  "SpawnState_IsFinished s \<longleftrightarrow> sp_phase s = kFinished"

text \<open>\<^verbatim>\<open>TryParkWaiter\<close>: publish the waiter, exchange, and take the waiter back when the root was faster.\<close>

definition Park_write :: "addr \<Rightarrow> u64 \<Rightarrow> 'v SpawnState \<Rightarrow> 'v SpawnState option" where
  "Park_write scheduler waiter s = do {
     w \<leftarrow> Work_SetHandle waiter (sp_waiter_resume s);
     Some (s\<lparr>sp_waiter_scheduler := scheduler, sp_waiter_resume := w\<rparr>)
   }"

definition Park_exchange :: "'v SpawnState \<Rightarrow> bool \<times> 'v SpawnState" where
  "Park_exchange s =
     (if sp_phase s = kRunningJoinable then (True, s\<lparr>sp_phase := kWaiterParked\<rparr>)
      else (False, s\<lparr>sp_waiter_scheduler := nullptr, sp_waiter_resume := Work_ClearHandle (sp_waiter_resume s)\<rparr>))"

text \<open>
  The loop of \<^verbatim>\<open>Wait\<close>. A load either ends it, with the result or (\<open>None\<close>) with the abort, or says to
  wait. \<^verbatim>\<open>phase_.wait(old)\<close> compares the phase with \<open>old\<close> and blocks in one atomic step while they are equal; a blocked thread
  goes on only when it is notified.
\<close>

definition Wait_load :: "'v SpawnState \<Rightarrow> 'v option option" where
  "Wait_load s =
     (if sp_phase s = kRunningJoinable then Some None
      else do { check (sp_phase s = kFinished); v \<leftarrow> SpawnState_TakeResult s; Some (Some v) })"

definition Wait_blocks :: "'v SpawnState \<Rightarrow> bool" where
  "Wait_blocks s \<longleftrightarrow> sp_phase s = kRunningJoinable"

text \<open>\<^verbatim>\<open>ReleaseHandle\<close>: true when the caller has to destroy the root.\<close>

definition Release_exchange :: "'v SpawnState \<Rightarrow> (bool \<times> 'v SpawnState) option" where
  "Release_exchange s =
     (if sp_phase s = kRunningJoinable then Some (False, s\<lparr>sp_phase := kRunningDetached\<rparr>)
      else do {
        check (sp_phase s = kFinished \<or> sp_phase s = kCompletedWaiterScheduled);
        Some (True, s)
      })"

definition SpawnState_DestroyRoot :: "'v SpawnState \<Rightarrow> (u64 \<times> 'v SpawnState) option" where
  "SpawnState_DestroyRoot s = do {
     root \<leftarrow> Work_Handle (sp_root_work s);
     check (root \<noteq> 0);
     Some (root, s\<lparr>sp_root_work := Work_ClearHandle (sp_root_work s)\<rparr>)
   }"

definition SpawnState_ClearRootHandle :: "'v SpawnState \<Rightarrow> 'v SpawnState" where
  "SpawnState_ClearRootHandle s = s\<lparr>sp_root_work := Work_ClearHandle (sp_root_work s)\<rparr>"

section \<open>Two threads\<close>

text \<open>Where the thread that runs the root is, and where the owner of the handle is.\<close>

datatype producer = P_Running | P_Stored | P_Notify | P_Publish | P_Schedule | P_Destroy | P_Done

datatype consumer =
  C_Holding | C_Wait | C_Blocked | C_WaitLoad | C_Park | C_Exchange | C_Suspended | C_Resumed | C_Taken | C_Release | C_Destroy | C_Done

text \<open>
  \<open>sy_queued\<close>: the waiter is in its scheduler's queue. \<open>sy_touched\<close>: a step accessed the frame after its
  destruction; \<open>sy_late_notify\<close> is the same for \<^verbatim>\<open>phase_.notify_one()\<close>. The owner is at \<open>C_Wait\<close> before it
  calls \<^verbatim>\<open>phase_.wait\<close>, at \<open>C_Blocked\<close> while it is blocked there and at \<open>C_WaitLoad\<close> after it.
\<close>

record 'v SpawnSystem =
  sy_state :: "'v SpawnState"
  sy_producer :: producer
  sy_consumer :: consumer
  sy_queued :: bool
  sy_destroyed :: nat
  sy_taken :: "'v option"
  sy_aborted :: bool
  sy_touched :: bool
  sy_late_notify :: bool

definition SpawnSystem_init :: "u64 \<Rightarrow> 'v SpawnSystem option" where
  "SpawnSystem_init handle = do {
     s \<leftarrow> SpawnState_SetRootHandle handle SpawnState_init;
     Some \<lparr>sy_state = s, sy_producer = P_Running, sy_consumer = C_Holding, sy_queued = False, sy_destroyed = 0,
           sy_taken = None, sy_aborted = False, sy_touched = False, sy_late_notify = False\<rparr>
   }"

definition touch :: "'v SpawnSystem \<Rightarrow> 'v SpawnSystem" where
  "touch y = y\<lparr>sy_touched := sy_touched y \<or> 0 < sy_destroyed y\<rparr>"

definition abort :: "'v SpawnSystem \<Rightarrow> 'v SpawnSystem" where
  "abort y = y\<lparr>sy_aborted := True\<rparr>"

definition destroy_frame :: "'v SpawnSystem \<Rightarrow> 'v SpawnSystem" where
  "destroy_frame y = y\<lparr>sy_destroyed := sy_destroyed y + 1\<rparr>"

definition notify_one :: "'v SpawnSystem \<Rightarrow> 'v SpawnSystem" where
  "notify_one y = (if sy_consumer y = C_Blocked then y\<lparr>sy_consumer := C_WaitLoad\<rparr> else y)"

text \<open>The root stores its result, reaches the final suspension point and finishes.\<close>

fun producer_at :: "producer \<Rightarrow> 'v \<Rightarrow> 'v SpawnSystem \<Rightarrow> 'v SpawnSystem" where
  "producer_at P_Running v y =
     (case SpawnState_StoreResult v (sy_state y) of
        None \<Rightarrow> abort y | Some s \<Rightarrow> (touch y)\<lparr>sy_state := s, sy_producer := P_Stored\<rparr>)"
| "producer_at P_Stored v y =
     (let (observed, s) = Finish_exchange (sy_state y); y1 = (touch y)\<lparr>sy_state := s\<rparr> in
      case observed of
        kRunningJoinable \<Rightarrow> y1\<lparr>sy_producer := P_Notify\<rparr>
      | kWaiterParked \<Rightarrow> y1\<lparr>sy_producer := P_Publish\<rparr>
      | kRunningDetached \<Rightarrow> y1\<lparr>sy_producer := P_Destroy\<rparr>
      | kFinished \<Rightarrow> abort y1
      | kCompletedWaiterScheduled \<Rightarrow> abort y1)"
| "producer_at P_Notify v y =
     (notify_one y)\<lparr>sy_late_notify := sy_late_notify y \<or> 0 < sy_destroyed y, sy_producer := P_Done\<rparr>"
| "producer_at P_Publish v y = (touch y)\<lparr>sy_state := Finish_publish (sy_state y), sy_producer := P_Schedule\<rparr>"
| "producer_at P_Schedule v y =
     (case Finish_schedule (sy_state y) of
        None \<Rightarrow> abort y | Some _ \<Rightarrow> (touch y)\<lparr>sy_queued := True, sy_producer := P_Done\<rparr>)"
| "producer_at P_Destroy v y =
     destroy_frame ((touch y)\<lparr>sy_state := SpawnState_ClearRootHandle (sy_state y), sy_producer := P_Done\<rparr>)"
| "producer_at P_Done v y = y"

definition producer_step :: "'v \<Rightarrow> 'v SpawnSystem \<Rightarrow> 'v SpawnSystem" where
  "producer_step v y = producer_at (sy_producer y) v y"

text \<open>What the owner of the handle chooses to do with it.\<close>

datatype choice = Choose_Wait | Choose_Await | Choose_Release

definition wait_turn :: "'v SpawnSystem \<Rightarrow> 'v SpawnSystem" where
  "wait_turn y =
     (case Wait_load (sy_state y) of
        None \<Rightarrow> abort y
      | Some None \<Rightarrow> (touch y)\<lparr>sy_consumer := C_Wait\<rparr>
      | Some (Some v) \<Rightarrow> (touch y)\<lparr>sy_taken := Some v, sy_consumer := C_Taken\<rparr>)"

fun consumer_at :: "consumer \<Rightarrow> choice \<Rightarrow> addr \<Rightarrow> u64 \<Rightarrow> 'v SpawnSystem \<Rightarrow> 'v SpawnSystem" where
  "consumer_at C_Holding Choose_Wait scheduler waiter y = wait_turn y"
| "consumer_at C_Holding Choose_Await scheduler waiter y =
     (touch y)\<lparr>sy_consumer := (if SpawnState_IsFinished (sy_state y) then C_Resumed else C_Park)\<rparr>"
| "consumer_at C_Holding Choose_Release scheduler waiter y = y\<lparr>sy_consumer := C_Release\<rparr>"
| "consumer_at C_Wait c scheduler waiter y =
     (touch y)\<lparr>sy_consumer := (if Wait_blocks (sy_state y) then C_Blocked else C_WaitLoad)\<rparr>"
| "consumer_at C_Blocked c scheduler waiter y = y"
| "consumer_at C_WaitLoad c scheduler waiter y = wait_turn y"
| "consumer_at C_Park c scheduler waiter y =
     (case Park_write scheduler waiter (sy_state y) of
        None \<Rightarrow> abort y | Some s \<Rightarrow> (touch y)\<lparr>sy_state := s, sy_consumer := C_Exchange\<rparr>)"
| "consumer_at C_Exchange c scheduler waiter y =
     (let (parked, s) = Park_exchange (sy_state y) in
      (touch y)\<lparr>sy_state := s, sy_consumer := (if parked then C_Suspended else C_Resumed)\<rparr>)"
| "consumer_at C_Suspended c scheduler waiter y =
     (if sy_queued y then y\<lparr>sy_queued := False, sy_consumer := C_Resumed\<rparr> else y)"
| "consumer_at C_Resumed c scheduler waiter y =
     (case SpawnState_TakeResult (sy_state y) of
        None \<Rightarrow> abort y | Some v \<Rightarrow> (touch y)\<lparr>sy_taken := Some v, sy_consumer := C_Taken\<rparr>)"
| "consumer_at C_Taken c scheduler waiter y = y\<lparr>sy_consumer := C_Release\<rparr>"
| "consumer_at C_Release c scheduler waiter y =
     (case Release_exchange (sy_state y) of
        None \<Rightarrow> abort y
      | Some (mine, s) \<Rightarrow> (touch y)\<lparr>sy_state := s, sy_consumer := (if mine then C_Destroy else C_Done)\<rparr>)"
| "consumer_at C_Destroy c scheduler waiter y =
     (case SpawnState_DestroyRoot (sy_state y) of
        None \<Rightarrow> abort y | Some (root, s) \<Rightarrow> destroy_frame ((touch y)\<lparr>sy_state := s, sy_consumer := C_Done\<rparr>))"
| "consumer_at C_Done c scheduler waiter y = y"

definition consumer_step :: "choice \<Rightarrow> addr \<Rightarrow> u64 \<Rightarrow> 'v SpawnSystem \<Rightarrow> 'v SpawnSystem" where
  "consumer_step c scheduler waiter y = consumer_at (sy_consumer y) c scheduler waiter y"

text \<open>Interleavings: the root returns \<open>v\<close>, the owner may park \<open>waiter\<close> on \<open>scheduler\<close>.\<close>

inductive spawn_reach :: "u64 \<Rightarrow> 'v \<Rightarrow> addr \<Rightarrow> u64 \<Rightarrow> 'v SpawnSystem \<Rightarrow> bool"
  for handle :: u64 and v :: 'v and scheduler :: addr and waiter :: u64 where
  reach_init: "SpawnSystem_init handle = Some y \<Longrightarrow> spawn_reach handle v scheduler waiter y"
| reach_producer: "spawn_reach handle v scheduler waiter y \<Longrightarrow> spawn_reach handle v scheduler waiter (producer_step v y)"
| reach_consumer: "spawn_reach handle v scheduler waiter y \<Longrightarrow>
    spawn_reach handle v scheduler waiter (consumer_step c scheduler waiter y)"

section \<open>The invariant\<close>

fun pc_ok :: "Phase \<Rightarrow> producer \<Rightarrow> consumer \<Rightarrow> bool" where
  "pc_ok kRunningJoinable p c = (p \<in> {P_Running, P_Stored} \<and> c \<in> {C_Holding, C_Wait, C_Blocked, C_Park, C_Exchange, C_Release})"
| "pc_ok kWaiterParked p c = (p \<in> {P_Running, P_Stored, P_Publish} \<and> c = C_Suspended)"
| "pc_ok kRunningDetached p c = (p \<in> {P_Running, P_Stored, P_Destroy, P_Done} \<and> c = C_Done)"
| "pc_ok kFinished p c = (p \<in> {P_Notify, P_Done} \<and> c \<noteq> C_Suspended \<and> (c = C_Blocked \<longrightarrow> p = P_Notify))"
| "pc_ok kCompletedWaiterScheduled p c =
     (p = P_Schedule \<and> c = C_Suspended \<or> p = P_Done \<and> c \<in> {C_Suspended, C_Resumed, C_Taken, C_Release, C_Destroy, C_Done})"

definition gone :: "Phase \<Rightarrow> producer \<Rightarrow> consumer \<Rightarrow> bool" where
  "gone ph p c \<longleftrightarrow> (if ph = kRunningDetached then p = P_Done else c = C_Done)"

definition spawn_inv :: "u64 \<Rightarrow> 'v \<Rightarrow> addr \<Rightarrow> 'v SpawnSystem \<Rightarrow> bool" where
  "spawn_inv handle v scheduler y \<longleftrightarrow>
     (let s = sy_state y; ph = sp_phase s; p = sy_producer y; c = sy_consumer y in
      \<not> sy_aborted y \<and> \<not> sy_touched y \<and> pc_ok ph p c \<and>
      sp_result s = (if p = P_Running then None else Some v) \<and>
      (sy_queued y \<longleftrightarrow> ph = kCompletedWaiterScheduled \<and> p = P_Done \<and> c = C_Suspended) \<and>
      (ph = kWaiterParked \<or> p = P_Schedule \<or> c = C_Exchange \<longrightarrow> sp_waiter_scheduler s = scheduler) \<and>
      (sy_destroyed y = 0 \<longrightarrow> Work_Handle (sp_root_work s) = Some handle) \<and>
      sy_destroyed y = (if gone ph p c then 1 else 0) \<and> (sy_taken y = None \<or> sy_taken y = Some v) \<and>
      (c = C_Taken \<longrightarrow> sy_taken y = Some v))"

lemma spawn_init_inv:
  assumes "SpawnSystem_init handle = Some y"
  shows "spawn_inv handle v scheduler y"
proof -
  show ?thesis
    using assms work_shape by (auto simp: SpawnSystem_init_def SpawnState_SetRootHandle_def SpawnState_init_def spawn_inv_def gone_def
        Option.bind_eq_Some_conv split: option.splits)
qed

lemma producer_inv:
  assumes "spawn_inv handle v scheduler y" and "scheduler \<noteq> nullptr"
  shows "spawn_inv handle v scheduler (producer_step v y)"
  using assms
  by (cases "sy_producer y"; cases "sp_phase (sy_state y)")
    (auto simp: spawn_inv_def Let_def producer_step_def SpawnState_StoreResult_def Finish_exchange_def Finish_publish_def
      Finish_schedule_def SpawnState_ClearRootHandle_def touch_def abort_def destroy_frame_def gone_def notify_one_def)

lemmas consumer_defs = consumer_step_def wait_turn_def Wait_blocks_def Wait_load_def SpawnState_TakeResult_def SpawnState_IsFinished_def
  Park_write_def Park_exchange_def Release_exchange_def SpawnState_DestroyRoot_def touch_def abort_def destroy_frame_def gone_def

lemma consumer_inv:
  assumes inv: "spawn_inv handle v scheduler y" and "handle \<noteq> 0" and "Work_SetHandle waiter ResumeWork_init \<noteq> None"
  shows "spawn_inv handle v scheduler (consumer_step c scheduler waiter y)"
proof -
  obtain w where w: "Work_SetHandle waiter (sp_waiter_resume (sy_state y)) = Some w"
    using assms(3) by (auto simp: Work_SetHandle_def)
  show ?thesis
  proof (cases "sy_consumer y")
    case C_Holding
    then show ?thesis
      using inv by (cases c; cases "sp_phase (sy_state y)"; cases "sy_producer y") (simp_all add: spawn_inv_def Let_def consumer_defs)
  next
    case C_Wait
    then show ?thesis
      using inv by (cases "sp_phase (sy_state y)"; cases "sy_producer y") (simp_all add: spawn_inv_def Let_def consumer_defs)
  next
    case C_Blocked
    then show ?thesis
      using inv by (cases "sp_phase (sy_state y)"; cases "sy_producer y") (simp_all add: spawn_inv_def Let_def consumer_defs)
  next
    case C_WaitLoad
    then show ?thesis
      using inv by (cases "sp_phase (sy_state y)"; cases "sy_producer y") (simp_all add: spawn_inv_def Let_def consumer_defs)
  next
    case C_Park
    then show ?thesis
      using inv w by (cases "sp_phase (sy_state y)") (simp_all add: spawn_inv_def Let_def consumer_defs)
  next
    case C_Exchange
    then show ?thesis
      using inv by (cases "sp_phase (sy_state y)"; cases "sy_producer y") (simp_all add: spawn_inv_def Let_def consumer_defs)
  next
    case C_Suspended
    then show ?thesis
      using inv by (cases "sp_phase (sy_state y)"; cases "sy_producer y") (simp_all add: spawn_inv_def Let_def consumer_defs)
  next
    case C_Resumed
    then show ?thesis
      using inv by (cases "sp_phase (sy_state y)"; cases "sy_producer y") (simp_all add: spawn_inv_def Let_def consumer_defs)
  next
    case C_Taken
    then show ?thesis
      using inv by (cases "sp_phase (sy_state y)"; cases "sy_producer y") (simp_all add: spawn_inv_def Let_def consumer_defs)
  next
    case C_Release
    then show ?thesis
      using inv by (cases "sp_phase (sy_state y)"; cases "sy_producer y") (simp_all add: spawn_inv_def Let_def consumer_defs)
  next
    case C_Destroy
    then show ?thesis
      using inv assms(2) by (cases "sp_phase (sy_state y)"; cases "sy_producer y") (simp_all add: spawn_inv_def Let_def consumer_defs)
  next
    case C_Done
    then show ?thesis
      using inv by (simp add: consumer_step_def)
  qed
qed

lemma reach_handle: "spawn_reach handle v scheduler waiter y \<Longrightarrow> handle \<noteq> 0"
  by (induction rule: spawn_reach.induct) (auto simp: SpawnSystem_init_def SpawnState_SetRootHandle_def)

lemma reach_inv:
  assumes "spawn_reach handle v scheduler waiter y" and "scheduler \<noteq> nullptr" and "Work_SetHandle waiter ResumeWork_init \<noteq> None"
  shows "spawn_inv handle v scheduler y"
  using assms(1)
proof induction
  case (reach_init y)
  then show ?case by (rule spawn_init_inv)
next
  case (reach_producer y)
  then show ?case by (intro producer_inv assms(2))
next
  case (reach_consumer y c)
  then show ?case by (intro consumer_inv reach_handle [OF assms(1)] assms(3))
qed

text \<open>What is left to do for either side.\<close>

fun producer_rank :: "producer \<Rightarrow> nat" where
  "producer_rank P_Running = 4" | "producer_rank P_Stored = 3" | "producer_rank P_Notify = 2" | "producer_rank P_Publish = 2"
| "producer_rank P_Schedule = 1" | "producer_rank P_Destroy = 1" | "producer_rank P_Done = 0"

fun consumer_rank :: "consumer \<Rightarrow> nat" where
  "consumer_rank C_Holding = 9" | "consumer_rank C_Wait = 8" | "consumer_rank C_Blocked = 7" | "consumer_rank C_WaitLoad = 6"
| "consumer_rank C_Park = 8" | "consumer_rank C_Exchange = 7" | "consumer_rank C_Suspended = 6" | "consumer_rank C_Resumed = 5"
| "consumer_rank C_Taken = 4" | "consumer_rank C_Release = 3" | "consumer_rank C_Destroy = 2" | "consumer_rank C_Done = 0"

definition spawn_rank :: "'v SpawnSystem \<Rightarrow> nat" where
  "spawn_rank y = producer_rank (sy_producer y) + consumer_rank (sy_consumer y)"

lemma producer_moves:
  assumes "spawn_inv handle v scheduler y" "sy_producer y \<noteq> P_Done" "scheduler \<noteq> nullptr"
  shows "spawn_rank (producer_step v y) < spawn_rank y"
  using assms
  by (cases "sy_producer y"; cases "sp_phase (sy_state y)")
    (simp_all add: spawn_inv_def Let_def producer_step_def SpawnState_StoreResult_def Finish_exchange_def Finish_publish_def
      Finish_schedule_def SpawnState_ClearRootHandle_def touch_def abort_def destroy_frame_def notify_one_def spawn_rank_def)

lemma consumer_moves:
  assumes "spawn_inv handle v scheduler y" "sy_producer y = P_Done" "sy_consumer y \<noteq> C_Done" "handle \<noteq> 0"
    "Work_SetHandle waiter ResumeWork_init \<noteq> None"
  shows "spawn_rank (consumer_step c scheduler waiter y) < spawn_rank y"
proof -
  obtain w where w: "Work_SetHandle waiter (sp_waiter_resume (sy_state y)) = Some w"
    using assms(5) by (auto simp: Work_SetHandle_def)
  show ?thesis
    using assms(1-4) w
    by (cases "sy_consumer y"; cases c; cases "sp_phase (sy_state y)") (simp_all add: spawn_inv_def Let_def consumer_defs spawn_rank_def)
qed

section \<open>Ownership of the root frame\<close>

text \<open>
  C6. However the running root and the owner of its \<^verbatim>\<open>JoinHandle\<close> interleave (blocking wait, co_await with
  parking, detach), no check fails, the owner only ever sees the value the root returned, no step
  other than the notification touches the frame after its destruction, the frame is destroyed at most once, and
  exactly once when both sides are done.
\<close>

theorem spawn_ownership:
  assumes "spawn_reach handle v scheduler waiter y" and "scheduler \<noteq> nullptr" and "Work_SetHandle waiter ResumeWork_init \<noteq> None"
  shows "\<not> sy_aborted y \<and> \<not> sy_touched y \<and> sy_destroyed y \<le> 1 \<and>
     (sy_producer y = P_Done \<and> sy_consumer y = C_Done \<longrightarrow> sy_destroyed y = 1) \<and>
     (sy_taken y = None \<or> sy_taken y = Some v) \<and> (sy_consumer y = C_Taken \<longrightarrow> sy_taken y = Some v)"
  using reach_inv [OF assms] by (auto simp: spawn_inv_def Let_def gone_def)

definition spawn_run :: "(bool \<times> choice) list \<Rightarrow> unit SpawnSystem \<Rightarrow> unit SpawnSystem" where
  "spawn_run = fold (\<lambda>(p, c) y. if p then producer_step () y else consumer_step c 1 16 y)"

lemma spawn_run_reach:
  "spawn_reach handle () 1 16 y \<Longrightarrow> spawn_reach handle () 1 16 (spawn_run as y)"
proof (induction as arbitrary: y)
  case (Cons a as)
  then show ?case
    by (cases a) (auto simp: spawn_run_def intro: reach_producer reach_consumer)
qed (simp add: spawn_run_def)

definition spawn_start :: "unit SpawnSystem" where
  "spawn_start = the (SpawnSystem_init 8)"

lemma spawn_start: "SpawnSystem_init 8 = Some spawn_start"
  unfolding spawn_start_def by (simp add: SpawnSystem_init_def SpawnState_SetRootHandle_def Work_SetHandle_def kResumeTag_def)

lemma waiter_16: "Work_SetHandle 16 ResumeWork_init \<noteq> None"
  by (simp add: Work_SetHandle_def kResumeTag_def)

theorem spawn_ownership_witness:
  "let y = spawn_run [(False, Choose_Await), (False, Choose_Wait), (True, Choose_Wait), (False, Choose_Wait), (True, Choose_Wait),
     (True, Choose_Wait), (True, Choose_Wait), (False, Choose_Wait), (False, Choose_Wait)] spawn_start in
   spawn_reach 8 () 1 16 y \<and> (1 :: addr) \<noteq> nullptr \<and> Work_SetHandle 16 ResumeWork_init \<noteq> None \<and>
   \<not> sy_aborted y \<and> sy_taken y = Some ()"
proof -
  let ?y = "spawn_run [(False, Choose_Await), (False, Choose_Wait), (True, Choose_Wait), (False, Choose_Wait), (True, Choose_Wait),
     (True, Choose_Wait), (True, Choose_Wait), (False, Choose_Wait), (False, Choose_Wait)] spawn_start"
  have reach: "spawn_reach 8 () 1 16 ?y"
    by (rule spawn_run_reach) (rule reach_init [OF spawn_start])
  have "sy_consumer ?y = C_Taken" by code_simp
  then show ?thesis
    using reach waiter_16 spawn_ownership [OF reach _ waiter_16] by simp
qed

text \<open>
  C36. No wake-up is lost and nobody waits forever. As long as the root is not done, each of its steps
  brings the pair closer to the end. Once it is done, so does every step of the owner of the handle, whatever the owner
  chose: in particular it is never left blocked in \<^verbatim>\<open>phase_.wait\<close>, where only the notification of \<^verbatim>\<open>Finish\<close> releases it, nor suspended
  with its waiter in no queue.
\<close>

theorem spawn_no_deadlock:
  assumes "spawn_reach handle v scheduler waiter y" and "scheduler \<noteq> nullptr" and "Work_SetHandle waiter ResumeWork_init \<noteq> None"
  shows "(sy_producer y \<noteq> P_Done \<longrightarrow> spawn_rank (producer_step v y) < spawn_rank y) \<and>
     (sy_producer y = P_Done \<and> sy_consumer y \<noteq> C_Done \<longrightarrow>
        (\<forall>c. spawn_rank (consumer_step c scheduler waiter y) < spawn_rank y))"
  using producer_moves [OF reach_inv [OF assms] _ assms(2)]
    consumer_moves [OF reach_inv [OF assms] _ _ reach_handle [OF assms(1)] assms(3)] by blast

theorem spawn_no_deadlock_witness:
  "let y = spawn_run [(False, Choose_Wait), (False, Choose_Wait), (True, Choose_Wait), (True, Choose_Wait), (True, Choose_Wait)] spawn_start in
   spawn_reach 8 () 1 16 y \<and> (1 :: addr) \<noteq> nullptr \<and> Work_SetHandle 16 ResumeWork_init \<noteq> None \<and>
   sy_producer y = P_Done \<and> sy_consumer y = C_WaitLoad \<and> spawn_rank (consumer_step Choose_Wait 1 16 y) < spawn_rank y"
proof -
  let ?y = "spawn_run [(False, Choose_Wait), (False, Choose_Wait), (True, Choose_Wait), (True, Choose_Wait), (True, Choose_Wait)] spawn_start"
  have reach: "spawn_reach 8 () 1 16 ?y"
    by (rule spawn_run_reach) (rule reach_init [OF spawn_start])
  have "sy_producer ?y = P_Done" "sy_consumer ?y = C_WaitLoad" by code_simp+
  then show ?thesis
    using reach waiter_16 spawn_no_deadlock [OF reach _ waiter_16] by (simp add: Let_def)
qed

text \<open>
  C37. The notification of \<^verbatim>\<open>Finish\<close> can come too late: in a reachable interleaving the owner sees the
  finished phase, takes the result and destroys the frame, and only then the root's thread calls
  \<^verbatim>\<open>phase_.notify_one()\<close> on the destroyed object.
\<close>

theorem spawn_late_notify:
  "\<exists>y. spawn_reach 8 () 1 16 y \<and> sy_destroyed y = 1 \<and> sy_late_notify y"
proof -
  let ?y = "spawn_run [(True, Choose_Wait), (True, Choose_Wait), (False, Choose_Wait), (False, Choose_Wait), (False, Choose_Wait),
     (False, Choose_Wait), (True, Choose_Wait)] spawn_start"
  have "spawn_reach 8 () 1 16 ?y"
    by (rule spawn_run_reach) (rule reach_init [OF spawn_start])
  moreover have "sy_destroyed ?y = 1 \<and> sy_late_notify ?y" by code_simp
  ultimately show ?thesis by blast
qed

end
