(* ===== verification/Result_State.thy ===== *)
theory Result_State
  imports Alyrn_Prelude
begin

text \<open>
  The compact result holders: \<^verbatim>\<open>CqeResult\<close> of \<^verbatim>\<open>uring/detail/op.h\<close>, \<^verbatim>\<open>ResultStorage\<close> and
  \<^verbatim>\<open>ResultState<void>\<close> of \<^verbatim>\<open>uring/detail/result_state.h\<close>, \<^verbatim>\<open>CloseState\<close> and \<^verbatim>\<open>FdCloseConvergence\<close>,
  \<^verbatim>\<open>IoResultState\<close> of \<^verbatim>\<open>epoll/detail/result_state.h\<close>, and \<^verbatim>\<open>ValueResultState\<close> of
  \<^verbatim>\<open>backend/value_result_state.h\<close>. The first three encode "pending" as the least value of a signed
  word, so the encodings are two's-complement words here. The locale \<open>one_shot_result\<close> is what an awaiter
  relies on: a result can be set once, reads back as it was set, and cannot be taken before.
\<close>

unbundle bit_operations_syntax

section \<open>CqeResult\<close>

record CqeResult =
  cqe_encoded :: "32 word"

definition kEmpty :: "32 word" where
  "kEmpty = push_bit 31 1"

definition CqeResult_init :: CqeResult where
  "CqeResult_init = \<lparr>cqe_encoded = kEmpty\<rparr>"

definition CqeResult_HasValue :: "CqeResult \<Rightarrow> bool" where
  "CqeResult_HasValue r \<longleftrightarrow> cqe_encoded r \<noteq> kEmpty"

definition CqeResult_assign :: "32 word \<Rightarrow> CqeResult \<Rightarrow> CqeResult option" where
  "CqeResult_assign value r = do {
     check (value \<noteq> kEmpty);
     check (\<not> CqeResult_HasValue r);
     Some (r\<lparr>cqe_encoded := value\<rparr>)
   }"

definition CqeResult_read :: "CqeResult \<Rightarrow> (32 word) option" where
  "CqeResult_read r = do { check (CqeResult_HasValue r); Some (cqe_encoded r) }"

definition CqeResult_Clear :: "CqeResult \<Rightarrow> CqeResult" where
  "CqeResult_Clear r = r\<lparr>cqe_encoded := kEmpty\<rparr>"

section \<open>ResultStorage\<close>

text \<open>
  An \<^verbatim>\<open>Error\<close> is a \<^verbatim>\<open>std::error_code\<close>: a signed 32-bit value and the category it belongs to. \<^verbatim>\<open>Errno\<close> makes one
  of the system category.
\<close>

datatype ErrorCategory = system_category | other_category nat

record Error =
  er_value :: "32 word"
  er_category :: ErrorCategory

definition Errno :: "32 word \<Rightarrow> Error" where
  "Errno value = \<lparr>er_value = value, er_category = system_category\<rparr>"

record ResultStorage =
  rs_encoded :: "32 word"

definition kPending32 :: "32 word" where
  "kPending32 = push_bit 31 1"

definition ResultStorage_init :: ResultStorage where
  "ResultStorage_init = \<lparr>rs_encoded = kPending32\<rparr>"

definition ResultStorage_IsImmediate :: "ResultStorage \<Rightarrow> bool" where
  "ResultStorage_IsImmediate r \<longleftrightarrow> rs_encoded r \<noteq> kPending32"

definition ResultStorage_SetSuccess :: "ResultStorage \<Rightarrow> ResultStorage option" where
  "ResultStorage_SetSuccess r = do {
     check (\<not> ResultStorage_IsImmediate r);
     Some (r\<lparr>rs_encoded := 0\<rparr>)
   }"

definition ResultStorage_SetError :: "Error \<Rightarrow> ResultStorage \<Rightarrow> ResultStorage option" where
  "ResultStorage_SetError error r = do {
     check (\<not> ResultStorage_IsImmediate r);
     check (sint (er_value error) > 0 \<and> er_value error \<noteq> kPending32);
     Some (r\<lparr>rs_encoded := er_value error\<rparr>)
   }"

definition ResultStorage_SetResult :: "Error + 'a \<Rightarrow> ResultStorage \<Rightarrow> ResultStorage option" where
  "ResultStorage_SetResult result r =
     (case result of Inr _ \<Rightarrow> ResultStorage_SetSuccess r | Inl e \<Rightarrow> ResultStorage_SetError e r)"

definition ResultState_Take :: "ResultStorage \<Rightarrow> (Error + unit) option" where
  "ResultState_Take r = do {
     check (ResultStorage_IsImmediate r);
     if rs_encoded r = 0 then Some (Inr ()) else Some (Inl (Errno (rs_encoded r)))
   }"

section \<open>CloseState and FdCloseConvergence\<close>

record CloseState =
  cs_result :: ResultStorage
  cs_flags :: "8 word"

definition kCancelRequestTerminalBit :: "8 word" where
  "kCancelRequestTerminalBit = push_bit 0 1"

definition kCompletedBit :: "8 word" where
  "kCompletedBit = push_bit 1 1"

definition CloseState_init :: CloseState where
  "CloseState_init = \<lparr>cs_result = ResultStorage_init, cs_flags = 0\<rparr>"

definition CloseState_CancelRequestTerminal :: "CloseState \<Rightarrow> bool" where
  "CloseState_CancelRequestTerminal c \<longleftrightarrow> cs_flags c AND kCancelRequestTerminalBit \<noteq> 0"

definition CloseState_MarkCancelRequestTerminal :: "CloseState \<Rightarrow> CloseState" where
  "CloseState_MarkCancelRequestTerminal c = c\<lparr>cs_flags := cs_flags c OR kCancelRequestTerminalBit\<rparr>"

definition CloseState_Completed :: "CloseState \<Rightarrow> bool" where
  "CloseState_Completed c \<longleftrightarrow> cs_flags c AND kCompletedBit \<noteq> 0"

definition CloseState_MarkCompleted :: "CloseState \<Rightarrow> CloseState" where
  "CloseState_MarkCompleted c = c\<lparr>cs_flags := cs_flags c OR kCompletedBit\<rparr>"

definition CloseState_SetResult :: "Error + 'a \<Rightarrow> CloseState \<Rightarrow> CloseState option" where
  "CloseState_SetResult result c = do {
     r \<leftarrow> ResultStorage_SetResult result (cs_result c);
     Some (c\<lparr>cs_result := r\<rparr>)
   }"

definition CloseState_HasResult :: "CloseState \<Rightarrow> bool" where
  "CloseState_HasResult c = ResultStorage_IsImmediate (cs_result c)"

definition CloseState_TakeResult :: "CloseState \<Rightarrow> (Error + unit) option" where
  "CloseState_TakeResult c = ResultState_Take (cs_result c)"

record FdCloseConvergence =
  fc_state :: CloseState
  fc_continuation :: addr

definition FdClose_init :: FdCloseConvergence where
  "FdClose_init = \<lparr>fc_state = CloseState_init, fc_continuation = nullptr\<rparr>"

definition FdClose_SetResult :: "Error + 'a \<Rightarrow> FdCloseConvergence \<Rightarrow> FdCloseConvergence option" where
  "FdClose_SetResult result c = do { s \<leftarrow> CloseState_SetResult result (fc_state c); Some (c\<lparr>fc_state := s\<rparr>) }"

definition FdClose_HasResult :: "FdCloseConvergence \<Rightarrow> bool" where
  "FdClose_HasResult c = CloseState_HasResult (fc_state c)"

definition FdClose_TakeResult :: "FdCloseConvergence \<Rightarrow> (Error + unit) option" where
  "FdClose_TakeResult c = CloseState_TakeResult (fc_state c)"

definition FdClose_BeginWaiting :: "addr \<Rightarrow> FdCloseConvergence \<Rightarrow> FdCloseConvergence" where
  "FdClose_BeginWaiting continuation c = c\<lparr>fc_continuation := continuation\<rparr>"

definition FdClose_MarkCancelRequestTerminal :: "FdCloseConvergence \<Rightarrow> FdCloseConvergence" where
  "FdClose_MarkCancelRequestTerminal c = c\<lparr>fc_state := CloseState_MarkCancelRequestTerminal (fc_state c)\<rparr>"

definition FdClose_TryAuthorizeClose :: "bool \<Rightarrow> FdCloseConvergence \<Rightarrow> bool \<times> FdCloseConvergence" where
  "FdClose_TryAuthorizeClose operations_pending c =
     (if CloseState_Completed (fc_state c) \<or> \<not> CloseState_CancelRequestTerminal (fc_state c) \<or> operations_pending
      then (False, c)
      else (True, c\<lparr>fc_state := CloseState_MarkCompleted (fc_state c)\<rparr>))"

section \<open>IoResultState\<close>

record IoResultState =
  io_encoded :: "64 word"

definition kPending64 :: "64 word" where
  "kPending64 = push_bit 63 1"

definition IoResult_init :: IoResultState where
  "IoResult_init = \<lparr>io_encoded = kPending64\<rparr>"

definition IoResult_HasResult :: "IoResultState \<Rightarrow> bool" where
  "IoResult_HasResult r \<longleftrightarrow> io_encoded r \<noteq> kPending64"

definition IoResult_SetSuccess :: "64 word \<Rightarrow> IoResultState \<Rightarrow> IoResultState option" where
  "IoResult_SetSuccess bytes r = do {
     check (\<not> IoResult_HasResult r);
     check (unat bytes \<le> 2 ^ 63 - 1);
     Some (r\<lparr>io_encoded := bytes\<rparr>)
   }"

definition IoResult_SetError :: "Error \<Rightarrow> IoResultState \<Rightarrow> IoResultState option" where
  "IoResult_SetError error r = do {
     check (\<not> IoResult_HasResult r);
     check (er_category error = system_category);
     let value = er_value error;
     check (sint value > 0);
     Some (r\<lparr>io_encoded := - scast value\<rparr>)
   }"

definition IoResult_SetResult :: "Error + 64 word \<Rightarrow> IoResultState \<Rightarrow> IoResultState option" where
  "IoResult_SetResult result r =
     (case result of Inr bytes \<Rightarrow> IoResult_SetSuccess bytes r | Inl e \<Rightarrow> IoResult_SetError e r)"

definition IoResult_Take :: "IoResultState \<Rightarrow> ((Error + 64 word) \<times> IoResultState) option" where
  "IoResult_Take r = do {
     check (IoResult_HasResult r);
     let encoded = io_encoded r;
     let r1 = r\<lparr>io_encoded := kPending64\<rparr>;
     if sint encoded \<ge> 0 then Some (Inr encoded, r1)
     else Some (Inl (Errno (scast (- encoded))), r1)
   }"

section \<open>ValueResultState\<close>

datatype ('e, 'a) ValueResultState = VR_Pending | VR_Value 'a | VR_Error 'e

definition ValueResult_HasResult :: "('e, 'a) ValueResultState \<Rightarrow> bool" where
  "ValueResult_HasResult r \<longleftrightarrow> (case r of VR_Pending \<Rightarrow> False | _ \<Rightarrow> True)"

definition ValueResult_SetError :: "'e \<Rightarrow> ('e, 'a) ValueResultState \<Rightarrow> ('e, 'a) ValueResultState option" where
  "ValueResult_SetError error r = do { check (\<not> ValueResult_HasResult r); Some (VR_Error error) }"

definition ValueResult_SetResult :: "'e + 'a \<Rightarrow> ('e, 'a) ValueResultState \<Rightarrow> ('e, 'a) ValueResultState option" where
  "ValueResult_SetResult result r = do {
     check (\<not> ValueResult_HasResult r);
     case result of Inr v \<Rightarrow> Some (VR_Value v) | Inl e \<Rightarrow> Some (VR_Error e)
   }"

definition ValueResult_Take :: "('e, 'a) ValueResultState \<Rightarrow> (('e + 'a) \<times> ('e, 'a) ValueResultState) option" where
  "ValueResult_Take r = do {
     check (ValueResult_HasResult r);
     case r of VR_Error e \<Rightarrow> Some (Inl e, VR_Pending) | VR_Value v \<Rightarrow> Some (Inr v, VR_Pending) | VR_Pending \<Rightarrow> None
   }"

definition ValueResult_Reset :: "('e, 'a) ValueResultState \<Rightarrow> ('e, 'a) ValueResultState" where
  "ValueResult_Reset r = VR_Pending"

section \<open>The contract of a one-shot result\<close>

text \<open>
  \<open>seen v\<close> is what is read back when \<open>v\<close> was stored; \<open>reopens\<close> says that taking the result makes the holder
  pending again, otherwise it can be read again.
\<close>

locale one_shot_result =
  fixes fresh :: 's
    and has :: "'s \<Rightarrow> bool"
    and put :: "'v \<Rightarrow> 's \<Rightarrow> 's option"
    and get :: "'s \<Rightarrow> ('v \<times> 's) option"
    and encodable :: "'v \<Rightarrow> bool"
    and seen :: "'v \<Rightarrow> 'v"
    and reopens :: bool
  assumes fresh_pending: "\<not> has fresh"
    and put_read_back: "\<not> has s \<Longrightarrow> encodable v \<Longrightarrow>
      \<exists>s1 s2. put v s = Some s1 \<and> has s1 \<and> get s1 = Some (seen v, s2) \<and> (if reopens then \<not> has s2 else s2 = s1)"
    and put_refuses: "\<not> encodable v \<Longrightarrow> put v s = None"
    and put_twice: "has s \<Longrightarrow> put v s = None"
    and get_early: "\<not> has s \<Longrightarrow> get s = None"
begin

lemma put_ok_iff: "(\<exists>s1. put v s = Some s1) \<longleftrightarrow> \<not> has s \<and> encodable v"
  using put_read_back [of s v] put_refuses [of v s] put_twice [of s v] by force

lemma put_then_get:
  assumes "put v s = Some s1"
  shows "has s1 \<and> (\<exists>s2. get s1 = Some (seen v, s2) \<and> (if reopens then \<not> has s2 else s2 = s1)) \<and> (\<forall>w. put w s1 = None)"
proof -
  from assms have "\<not> has s" "encodable v" using put_ok_iff [of v s] by auto
  from put_read_back [OF this] obtain t s2 where t: "put v s = Some t" "has t" "get t = Some (seen v, s2)"
    "if reopens then \<not> has s2 else s2 = t" by blast
  with assms have "t = s1" by simp
  with t put_twice [of s1] show ?thesis by blast
qed

end

lemma sint32_less: "sint (e :: 32 word) < 2147483648"
  using sint_lt [of e] by simp

lemma sint_scast64: "sint (scast (e :: 32 word) :: 64 word) = sint e"
  using sint_lt [of e] sint_ge [of e] by (intro sint_up_scast) (simp add: is_up)

lemma scast_back32: "scast (scast e :: 64 word) = (e :: 32 word)"
  by (rule bit_word_eqI) (simp add: bit_simps)

lemma pending64_sint: "sint kPending64 = - (2 ^ 63)"
  by (simp only: kPending64_def) code_simp

lemma pending32_sint: "sint kPending32 = - (2 ^ 31)"
  by (simp only: kPending32_def) code_simp

lemma sint_minus64:
  assumes "sint (w :: 64 word) \<noteq> - (2 ^ 63)"
  shows "sint (- w) = - sint w"
proof -
  have b: "- (2 ^ 63) < sint w" "sint w < 2 ^ 63" using sint_ge [of w] sint_lt [of w] assms by auto
  have "- w = word_of_int (- sint w)" by simp
  then have "sint (- w) = signed_take_bit 63 (- sint w)" by (simp only: sint_sbintrunc') simp
  also have "\<dots> = - sint w" using b by (intro signed_take_bit_int_eq_self) auto
  finally show ?thesis .
qed

lemma shifted_mod:
  assumes "0 \<le> u" "u < 2 * (M :: int)"
  shows "0 \<le> (u + M) mod (2 * M) - M \<longleftrightarrow> u < M"
proof (cases "u < M")
  case True
  then have "(u + M) mod (2 * M) = u + M" using assms by (intro mod_pos_pos_trivial) linarith+
  then show ?thesis using True assms by simp
next
  case False
  have "u + M = (u - M) + 2 * M" by simp
  then have "(u + M) mod (2 * M) = (u - M) mod (2 * M)" by (simp only: mod_add_self2)
  also have "\<dots> = u - M" using False assms by (intro mod_pos_pos_trivial) linarith+
  finally show ?thesis using False assms by simp
qed

lemma sint64_shift: "sint (b :: 64 word) = (uint b + 2 ^ 63) mod 2 ^ 64 - 2 ^ 63"
proof -
  have "sint b = signed_take_bit 63 (uint b)" by (simp add: sint_uint)
  also have "\<dots> = take_bit (Suc 63) (uint b + 2 ^ 63) - 2 ^ 63" by (rule signed_take_bit_eq_take_bit_shift)
  moreover have "Suc 63 = 64" by simp
  ultimately show ?thesis by (simp only: take_bit_eq_mod)
qed

lemma nonneg64: "unat (b :: 64 word) \<le> 2 ^ 63 - 1 \<longleftrightarrow> 0 \<le> sint b"
proof -
  define M :: int where "M = 2 ^ 63"
  have M2: "2 ^ 64 = 2 * M" "nat M = 2 ^ 63" "0 < M" unfolding M_def by simp_all
  have u: "0 \<le> uint b" "uint b < 2 * M" using uint_lt2p [of b] unfolding M_def by simp_all
  have "0 \<le> sint b \<longleftrightarrow> uint b < M"
    using shifted_mod [OF u] unfolding sint64_shift M2(1) M_def [symmetric] .
  also have "\<dots> \<longleftrightarrow> unat b < nat M" unfolding unat_eq_nat_uint using u(1) M2(3) by (simp only: nat_less_eq_zless)
  also have "\<dots> \<longleftrightarrow> unat b \<le> nat M - 1" using M2(3) by auto
  finally show ?thesis unfolding M2(2) by (rule sym)
qed

definition io_encodable :: "Error + 64 word \<Rightarrow> bool" where
  "io_encodable result \<longleftrightarrow>
     (case result of Inr bytes \<Rightarrow> unat bytes \<le> 2 ^ 63 - 1
      | Inl e \<Rightarrow> er_category e = system_category \<and> 0 < sint (er_value e))"

definition rs_encodable :: "Error + unit \<Rightarrow> bool" where
  "rs_encodable result \<longleftrightarrow> (case result of Inr _ \<Rightarrow> True | Inl e \<Rightarrow> 0 < sint (er_value e))"

text \<open>The uring holder keeps only the value of an error.\<close>

definition rs_seen :: "Error + unit \<Rightarrow> Error + unit" where
  "rs_seen result = (case result of Inr _ \<Rightarrow> Inr () | Inl e \<Rightarrow> Inl (Errno (er_value e)))"

lemma io_success_read_back:
  assumes "\<not> IoResult_HasResult r" "unat b \<le> 2 ^ 63 - 1"
  shows "IoResult_SetSuccess b r = Some (r\<lparr>io_encoded := b\<rparr>) \<and> IoResult_HasResult (r\<lparr>io_encoded := b\<rparr>) \<and>
    IoResult_Take (r\<lparr>io_encoded := b\<rparr>) = Some (Inr b, r\<lparr>io_encoded := kPending64\<rparr>)"
proof -
  have p: "0 \<le> sint b" using assms(2) nonneg64 by blast
  then have "b \<noteq> kPending64" using pending64_sint by fastforce
  then show ?thesis using assms p by (simp add: IoResult_SetSuccess_def IoResult_HasResult_def IoResult_Take_def Let_def)
qed

lemma io_error_read_back:
  assumes "\<not> IoResult_HasResult r" "er_category e = system_category" "0 < sint (er_value e)"
  defines "r1 \<equiv> r\<lparr>io_encoded := - scast (er_value e)\<rparr>"
  shows "IoResult_SetError e r = Some r1 \<and> IoResult_HasResult r1 \<and>
    IoResult_Take r1 = Some (Inl e, r\<lparr>io_encoded := kPending64\<rparr>)"
proof -
  let ?e = "er_value e"
  have "sint (scast ?e :: 64 word) \<noteq> - (2 ^ 63)" using assms(3) by (simp add: sint_scast64)
  from sint_minus64 [OF this] have m: "sint (- scast ?e :: 64 word) = - sint ?e" by (simp only: sint_scast64)
  have "(- scast ?e :: 64 word) \<noteq> kPending64"
    using m pending64_sint sint32_less [of ?e] by fastforce
  moreover have "scast (- (- scast ?e :: 64 word)) = ?e" by (simp add: scast_back32)
  moreover have "Errno ?e = e" using assms(2) by (simp add: Errno_def)
  ultimately show ?thesis using assms m
    by (simp add: IoResult_SetError_def IoResult_HasResult_def IoResult_Take_def Let_def)
qed

interpretation io_result: one_shot_result IoResult_init IoResult_HasResult IoResult_SetResult IoResult_Take io_encodable
  "\<lambda>v. v" True
proof
  show "\<not> IoResult_HasResult IoResult_init" by (simp add: IoResult_init_def IoResult_HasResult_def)
next
  fix s :: IoResultState and v :: "Error + 64 word"
  assume "\<not> IoResult_HasResult s" "io_encodable v"
  then show "\<exists>s1 s2. IoResult_SetResult v s = Some s1 \<and> IoResult_HasResult s1 \<and> IoResult_Take s1 = Some (v, s2) \<and>
      (if True then \<not> IoResult_HasResult s2 else s2 = s1)"
    using io_success_read_back [of s] io_error_read_back [of s]
    by (cases v) (fastforce simp: io_encodable_def IoResult_SetResult_def IoResult_HasResult_def)+
next
  fix v :: "Error + 64 word" and s
  assume "\<not> io_encodable v"
  then show "IoResult_SetResult v s = None"
    by (auto simp: io_encodable_def IoResult_SetResult_def IoResult_SetSuccess_def IoResult_SetError_def
        split: sum.splits)
next
  fix s :: IoResultState and v :: "Error + 64 word"
  assume "IoResult_HasResult s"
  then show "IoResult_SetResult v s = None"
    by (simp add: IoResult_SetResult_def IoResult_SetSuccess_def IoResult_SetError_def split: sum.splits)
next
  fix s :: IoResultState
  assume "\<not> IoResult_HasResult s"
  then show "IoResult_Take s = None" by (simp add: IoResult_Take_def)
qed

interpretation uring_result: one_shot_result ResultStorage_init ResultStorage_IsImmediate ResultStorage_SetResult
  "\<lambda>r. map_option (\<lambda>v. (v, r)) (ResultState_Take r)" rs_encodable rs_seen False
proof
  show "\<not> ResultStorage_IsImmediate ResultStorage_init"
    by (simp add: ResultStorage_init_def ResultStorage_IsImmediate_def)
next
  fix s :: ResultStorage and v :: "Error + unit"
  assume s: "\<not> ResultStorage_IsImmediate s" "rs_encodable v"
  have "(0 :: 32 word) \<noteq> kPending32" using pending32_sint by fastforce
  moreover have "0 < sint e \<Longrightarrow> e \<noteq> kPending32 \<and> e \<noteq> 0" for e :: "32 word" using pending32_sint by fastforce
  ultimately show "\<exists>s1 s2. ResultStorage_SetResult v s = Some s1 \<and> ResultStorage_IsImmediate s1 \<and>
      map_option (\<lambda>v. (v, s1)) (ResultState_Take s1) = Some (rs_seen v, s2) \<and>
      (if False then \<not> ResultStorage_IsImmediate s2 else s2 = s1)"
    using s by (cases v) (auto simp: rs_encodable_def rs_seen_def ResultStorage_SetResult_def ResultStorage_SetSuccess_def
        ResultStorage_SetError_def ResultStorage_IsImmediate_def ResultState_Take_def)
next
  fix v :: "Error + unit" and s
  assume "\<not> rs_encodable v"
  then show "ResultStorage_SetResult v s = None"
    by (auto simp: rs_encodable_def rs_seen_def ResultStorage_SetResult_def ResultStorage_SetError_def split: sum.splits)
next
  fix s and v :: "Error + unit"
  assume "ResultStorage_IsImmediate s"
  then show "ResultStorage_SetResult v s = None"
    by (simp add: ResultStorage_SetResult_def ResultStorage_SetSuccess_def ResultStorage_SetError_def split: sum.splits)
next
  fix s assume "\<not> ResultStorage_IsImmediate s"
  then show "map_option (\<lambda>v. (v, s)) (ResultState_Take s) = None" by (simp add: ResultState_Take_def)
qed

interpretation value_result: one_shot_result VR_Pending ValueResult_HasResult ValueResult_SetResult ValueResult_Take
  "\<lambda>_. True" "\<lambda>v. v" True
  by unfold_locales
    (auto simp: ValueResult_HasResult_def ValueResult_SetResult_def ValueResult_Take_def
      split: ValueResultState.splits sum.splits)

text \<open>
  C38. The three result holders accept a result only while they are pending, refuse what they cannot encode, and
  give back what was stored. The epoll holder accepts a byte count below $2^{63}$ or a positive error of the
  system category, gives back exactly this result and is pending again afterwards, although it packs a 64-bit count, a 32-bit errno and
  "pending" into one signed word. The uring holder accepts a success or a positive error of any category,
  stays set, and gives back an error with the same value in the system category: the same error exactly when
  it was a system error. The value holder accepts any result, gives it back and is pending again.
\<close>

theorem result_roundtrip:
  "((\<exists>r1. IoResult_SetResult v r = Some r1) \<longleftrightarrow> \<not> IoResult_HasResult r \<and> io_encodable v) \<and>
   ((\<exists>s1. ResultStorage_SetResult w s = Some s1) \<longleftrightarrow> \<not> ResultStorage_IsImmediate s \<and> rs_encodable w) \<and>
   ((\<exists>t1. ValueResult_SetResult x t = Some t1) \<longleftrightarrow> \<not> ValueResult_HasResult t) \<and>
   (case IoResult_SetResult v r of None \<Rightarrow> True | Some r1 \<Rightarrow>
      map_option (\<lambda>(v', r2). (v', IoResult_HasResult r2)) (IoResult_Take r1) = Some (v, False) \<and> IoResult_SetResult v1 r1 = None) \<and>
   (case ResultStorage_SetResult w s of None \<Rightarrow> True | Some s1 \<Rightarrow>
      ResultState_Take s1 = Some (rs_seen w) \<and> ResultStorage_SetResult (w1 :: Error + unit) s1 = None) \<and>
   (rs_seen w = w \<longleftrightarrow> (case w of Inl e \<Rightarrow> er_category e = system_category | Inr _ \<Rightarrow> True)) \<and>
   (case ValueResult_SetResult x t of None \<Rightarrow> True | Some t1 \<Rightarrow>
      map_option (\<lambda>(x', t2). (x', ValueResult_HasResult t2)) (ValueResult_Take t1) = Some (x, False) \<and> ValueResult_SetResult x1 t1 = None)"
  (is "?A \<and> ?B \<and> ?C \<and> ?D \<and> ?E \<and> ?F \<and> ?G")
proof (intro conjI)
  show ?A by (rule io_result.put_ok_iff)
  show ?B by (rule uring_result.put_ok_iff)
  show ?C using value_result.put_ok_iff [of x t] by simp
  show ?D using io_result.put_then_get [of v r] by (auto split: option.splits)
  show ?E using uring_result.put_then_get [of w s] by (auto split: option.splits)
  have "Errno (er_value e) = e \<longleftrightarrow> er_category e = system_category" for e by (cases e) (auto simp: Errno_def)
  then show ?F by (auto simp: rs_seen_def split: sum.splits)
  show ?G using value_result.put_then_get [of x t] by (auto split: option.splits)
qed

end
