(* ===== verification/Uring_Op.thy ===== *)
theory Uring_Op
  imports Result_State Coro_Work Lifecycle
begin

text \<open>
  \<^verbatim>\<open>uring/detail/op.h\<close>, \<^verbatim>\<open>uring/detail/reusable_completion_slot.h\<close> and \<^verbatim>\<open>uring/detail/operation_submission.h\<close>:
  the operation record whose address is the user data of a submission, with its physical completion
  slot, its CQE result word and its coupled result lifecycle. The CQE flag bits are those of the io_uring
  interface; a CQE result is a signed 32-bit word.
\<close>

unbundle bit_operations_syntax

section \<open>Completion events\<close>

definition IORING_CQE_F_BUFFER :: "32 word" where "IORING_CQE_F_BUFFER = push_bit 0 1"
definition IORING_CQE_F_MORE :: "32 word" where "IORING_CQE_F_MORE = push_bit 1 1"
definition IORING_CQE_F_NOTIF :: "32 word" where "IORING_CQE_F_NOTIF = push_bit 3 1"
definition IORING_CQE_F_BUF_MORE :: "32 word" where "IORING_CQE_F_BUF_MORE = push_bit 4 1"
definition IORING_NOTIF_USAGE_ZC_COPIED :: "32 word" where "IORING_NOTIF_USAGE_ZC_COPIED = push_bit 31 1"

record CompletionEvent =
  ev_result :: "32 word"
  ev_flags :: "32 word"

definition Event_More :: "CompletionEvent \<Rightarrow> bool" where
  "Event_More e \<longleftrightarrow> ev_flags e AND IORING_CQE_F_MORE \<noteq> 0"

definition Event_Notification :: "CompletionEvent \<Rightarrow> bool" where
  "Event_Notification e \<longleftrightarrow> ev_flags e AND IORING_CQE_F_NOTIF \<noteq> 0"

definition Event_BufferMore :: "CompletionEvent \<Rightarrow> bool" where
  "Event_BufferMore e \<longleftrightarrow> ev_flags e AND IORING_CQE_F_BUF_MORE \<noteq> 0"

definition Event_HasSelectedBuffer :: "CompletionEvent \<Rightarrow> bool" where
  "Event_HasSelectedBuffer e \<longleftrightarrow> ev_flags e AND IORING_CQE_F_BUFFER \<noteq> 0"

definition Event_SelectedBufferId :: "CompletionEvent \<Rightarrow> 32 word" where
  "Event_SelectedBufferId e = drop_bit 16 (ev_flags e)"

definition Event_ZeroCopyWasCopied :: "CompletionEvent \<Rightarrow> bool" where
  "Event_ZeroCopyWasCopied e \<longleftrightarrow> ev_result e AND IORING_NOTIF_USAGE_ZC_COPIED \<noteq> 0"

section \<open>Kinds of operations\<close>

datatype CompletionModel = kSingleShot | kEventStream | kSplitRelease

record CompletionDisposition =
  kernel_request_terminal :: bool
  decrement_inflight :: bool
  resume_continuation :: bool

datatype OpKind =
  kNone | kAcceptComplete | kAcceptSourceComplete | kAcceptSourceCancelComplete | kRecvSourceComplete
  | kRecvSourceCancelComplete | kSendZeroCopyComplete | kListenerCloseComplete
  | kReadComplete | kRecvComplete | kRecvCopyComplete
  | kWriteComplete | kStreamCloseComplete | kStreamReadCancelComplete | kStreamWriteCancelComplete
  | kTimerDriverComplete | kTimerControlComplete
  | kConnect | kConnectCancelComplete | kWake | kCancelAll | kNop | kCount

fun CompletionModelFor :: "OpKind \<Rightarrow> CompletionModel" where
  "CompletionModelFor kAcceptSourceComplete = kEventStream"
| "CompletionModelFor kRecvSourceComplete = kEventStream"
| "CompletionModelFor kSendZeroCopyComplete = kSplitRelease"
| "CompletionModelFor _ = kSingleShot"

fun UsesCoupledSingleResultLifecycle :: "OpKind \<Rightarrow> bool" where
  "UsesCoupledSingleResultLifecycle kReadComplete = True"
| "UsesCoupledSingleResultLifecycle kRecvComplete = True"
| "UsesCoupledSingleResultLifecycle kRecvCopyComplete = True"
| "UsesCoupledSingleResultLifecycle kWriteComplete = True"
| "UsesCoupledSingleResultLifecycle kAcceptComplete = True"
| "UsesCoupledSingleResultLifecycle kConnect = True"
| "UsesCoupledSingleResultLifecycle _ = False"

fun CqeResultDirectlyPublishesLogicalResult :: "OpKind \<Rightarrow> bool" where
  "CqeResultDirectlyPublishesLogicalResult kReadComplete = True"
| "CqeResultDirectlyPublishesLogicalResult kRecvComplete = True"
| "CqeResultDirectlyPublishesLogicalResult kWriteComplete = True"
| "CqeResultDirectlyPublishesLogicalResult _ = False"

definition IsExpectedCancelCqeResult :: "32 word \<Rightarrow> bool" where
  "IsExpectedCancelCqeResult result \<longleftrightarrow>
     sint result \<ge> 0 \<or> sint result = - ENOENT \<or> sint result = - EALREADY \<or> sint result = - ECANCELED"

section \<open>ReusableCompletionSlot\<close>

record ReusableCompletionSlot =
  slot_gate :: CompletionGate

definition Slot_TryComplete :: "ReusableCompletionSlot \<Rightarrow> bool \<times> ReusableCompletionSlot" where
  "Slot_TryComplete s = (let (won, g) = CompletionGate_TryComplete (slot_gate s) in (won, s\<lparr>slot_gate := g\<rparr>))"

definition Slot_Completed :: "ReusableCompletionSlot \<Rightarrow> bool" where
  "Slot_Completed s = CompletionGate_Completed (slot_gate s)"

definition Slot_BeginNextRequest :: "ReusableCompletionSlot \<Rightarrow> ReusableCompletionSlot" where
  "Slot_BeginNextRequest s = s\<lparr>slot_gate := CompletionGate_Reset (slot_gate s)\<rparr>"

section \<open>Op\<close>

record Op =
  op_resume_work :: Work
  op_result :: CqeResult
  op_kind :: OpKind
  op_slot :: ReusableCompletionSlot
  op_lifecycle :: SingleResultLifecycle

definition Op_new :: "OpKind \<Rightarrow> Op" where
  "Op_new kind = \<lparr>op_resume_work = ResumeWork_init, op_result = CqeResult_init, op_kind = kind,
     op_slot = \<lparr>slot_gate = CompletionGate_init\<rparr>, op_lifecycle = SingleResult_init\<rparr>"

definition Op_TryRecordCqeCompletion :: "32 word \<Rightarrow> Op \<Rightarrow> (bool \<times> Op) option" where
  "Op_TryRecordCqeCompletion cqe_res op =
     (let (won, slot) = Slot_TryComplete (op_slot op) in
      if \<not> won then Some (False, op\<lparr>op_slot := slot\<rparr>)
      else do {
        let op1 = op\<lparr>op_slot := slot\<rparr>;
        r \<leftarrow> CqeResult_assign cqe_res (op_result op1);
        let op2 = op1\<lparr>op_result := r\<rparr>;
        if CqeResultDirectlyPublishesLogicalResult (op_kind op2) then do {
          let (authorized, l) = SingleResult_TryAuthorizeResult (op_lifecycle op2);
          check authorized;
          Some (True, op2\<lparr>op_lifecycle := l\<rparr>)
        } else Some (True, op2)
      })"

definition Op_TryMarkCompletionWithoutCqeResult :: "Op \<Rightarrow> bool \<times> Op" where
  "Op_TryMarkCompletionWithoutCqeResult op =
     (let (won, slot) = Slot_TryComplete (op_slot op) in (won, op\<lparr>op_slot := slot\<rparr>))"

definition Op_SetImmediateSuccess :: "Op \<Rightarrow> Op option" where
  "Op_SetImmediateSuccess op = do { r \<leftarrow> CqeResult_assign 0 (op_result op); Some (op\<lparr>op_result := r\<rparr>) }"

definition Op_SetImmediateError :: "32 word \<Rightarrow> Op \<Rightarrow> Op option" where
  "Op_SetImmediateError error op = do {
     check (sint error > 0);
     r \<leftarrow> CqeResult_assign (- error) (op_result op);
     Some (op\<lparr>op_result := r\<rparr>)
   }"

definition Op_CqeCompletionRecorded :: "Op \<Rightarrow> bool" where
  "Op_CqeCompletionRecorded op = Slot_Completed (op_slot op)"

definition Op_TryAuthorizeCoupledResult :: "Op \<Rightarrow> (bool \<times> Op) option" where
  "Op_TryAuthorizeCoupledResult op = do {
     check (UsesCoupledSingleResultLifecycle (op_kind op));
     let (ok, l) = SingleResult_TryAuthorizeResult (op_lifecycle op);
     Some (ok, op\<lparr>op_lifecycle := l\<rparr>)
   }"

definition Op_TryAuthorizeCoupledRelease :: "Op \<Rightarrow> (bool \<times> Op) option" where
  "Op_TryAuthorizeCoupledRelease op = do {
     check (UsesCoupledSingleResultLifecycle (op_kind op));
     let (ok, l) = SingleResult_TryAuthorizeRelease (op_lifecycle op);
     Some (ok, op\<lparr>op_lifecycle := l\<rparr>)
   }"

definition Op_TryAuthorizeCoupledContinuation :: "Op \<Rightarrow> (bool \<times> Op) option" where
  "Op_TryAuthorizeCoupledContinuation op = do {
     check (UsesCoupledSingleResultLifecycle (op_kind op));
     let (ok, l) = SingleResult_TryAuthorizeContinuation (op_lifecycle op);
     Some (ok, op\<lparr>op_lifecycle := l\<rparr>)
   }"

definition Op_BeginNextRequest :: "Op \<Rightarrow> Op" where
  "Op_BeginNextRequest op = op\<lparr>op_slot := Slot_BeginNextRequest (op_slot op),
     op_lifecycle := SingleResult_Reset (op_lifecycle op),
     op_result := CqeResult_Clear (op_result op),
     op_resume_work := Work_ClearHandle (op_resume_work op)\<rparr>"

lemmas Op_defs = Op_new_def Op_TryRecordCqeCompletion_def Op_TryMarkCompletionWithoutCqeResult_def
  Op_SetImmediateSuccess_def Op_SetImmediateError_def Op_CqeCompletionRecorded_def
  Op_TryAuthorizeCoupledResult_def Op_TryAuthorizeCoupledRelease_def Op_TryAuthorizeCoupledContinuation_def
  Op_BeginNextRequest_def Slot_TryComplete_def Slot_Completed_def Slot_BeginNextRequest_def

lemmas Op_all_defs = Op_defs CqeResult_init_def CqeResult_HasValue_def CqeResult_assign_def CqeResult_read_def
  CqeResult_Clear_def SingleResult_defs CompletionGate_defs

section \<open>Well-formed operations\<close>

text \<open>
  What a client may do with an operation between two requests. Immediate results are only stored into a
  request that was never submitted.
\<close>

datatype op_act =
  OA_Record "32 word" | OA_Mark | OA_Result | OA_Release | OA_Continuation | OA_Begin

fun op_step :: "op_act \<Rightarrow> Op \<Rightarrow> (bool \<times> Op) option" where
  "op_step (OA_Record res) op = Op_TryRecordCqeCompletion res op"
| "op_step OA_Mark op = Some (Op_TryMarkCompletionWithoutCqeResult op)"
| "op_step OA_Result op = Op_TryAuthorizeCoupledResult op"
| "op_step OA_Release op = Op_TryAuthorizeCoupledRelease op"
| "op_step OA_Continuation op = Op_TryAuthorizeCoupledContinuation op"
| "op_step OA_Begin op = Some (True, Op_BeginNextRequest op)"

fun op_run :: "op_act list \<Rightarrow> Op \<Rightarrow> (bool list \<times> Op) option" where
  "op_run [] op = Some ([], op)"
| "op_run (a # as) op = do { (b, op1) \<leftarrow> op_step a op; (bs, op2) \<leftarrow> op_run as op1; Some (b # bs, op2) }"

text \<open>
  A recorded CQE result implies the physical slot is settled; an operation whose CQE result is the logical
  result is ready as soon as a result is recorded; an operation without coupled lifecycle never leaves its
  initial lifecycle state.
\<close>

definition op_wf :: "Op \<Rightarrow> bool" where
  "op_wf op \<longleftrightarrow>
     (CqeResult_HasValue (op_result op) \<longrightarrow> Op_CqeCompletionRecorded op) \<and>
     (CqeResultDirectlyPublishesLogicalResult (op_kind op) \<and> CqeResult_HasValue (op_result op) \<longrightarrow>
        SingleResult_ResultReady (op_lifecycle op)) \<and>
     (\<not> UsesCoupledSingleResultLifecycle (op_kind op) \<longrightarrow> op_lifecycle op = SingleResult_init)"

lemma direct_coupled: "CqeResultDirectlyPublishesLogicalResult k \<Longrightarrow> UsesCoupledSingleResultLifecycle k"
  by (cases k) simp_all

lemma coupled_single_shot: "UsesCoupledSingleResultLifecycle k \<Longrightarrow> CompletionModelFor k = kSingleShot"
  by (cases k) simp_all

lemma op_wf_new: "op_wf (Op_new k)"
  by (simp add: op_wf_def Op_all_defs)

lemma op_step_kind: "op_step a op = Some (b, op1) \<Longrightarrow> op_kind op1 = op_kind op"
  by (cases a) (auto simp: Op_all_defs Let_def split: if_splits prod.splits)

lemma op_step_wf:
  assumes "op_wf op" "op_step a op = Some (b, op1)"
  shows "op_wf op1"
  using assms direct_coupled [of "op_kind op"]
  by (cases a) (auto simp: op_wf_def Op_all_defs SingleResult_ResultReady_def Let_def split: if_splits prod.splits)

text \<open>The settlements won since the last \<^verbatim>\<open>BeginNextRequest\<close>.\<close>

fun settle :: "op_act \<Rightarrow> bool \<Rightarrow> nat \<Rightarrow> nat" where
  "settle OA_Begin b n = 0"
| "settle (OA_Record _) b n = n + of_bool b"
| "settle OA_Mark b n = n + of_bool b"
| "settle _ b n = n"

fun settles :: "op_act list \<Rightarrow> bool list \<Rightarrow> nat \<Rightarrow> nat" where
  "settles (a # as) (b # bs) n = settles as bs (settle a b n)"
| "settles _ _ n = n"

lemma op_step_settle:
  assumes "op_step a op = Some (b, op1)"
  shows "of_bool (Op_CqeCompletionRecorded op1) = settle a b (of_bool (Op_CqeCompletionRecorded op))"
  using assms by (cases a) (auto simp: Op_all_defs Let_def split: if_splits prod.splits)

lemma op_run_inv:
  assumes "op_run as op = Some (bs, op1)" "op_wf op"
  shows "op_wf op1 \<and> op_kind op1 = op_kind op \<and> length bs = length as \<and>
    of_bool (Op_CqeCompletionRecorded op1) = settles as bs (of_bool (Op_CqeCompletionRecorded op))"
  using assms
proof (induction as arbitrary: op bs)
  case (Cons a as)
  then obtain b op2 cs where s: "op_step a op = Some (b, op2)" "op_run as op2 = Some (cs, op1)" "bs = b # cs"
    by (auto split: bind_splits)
  from Cons.IH [OF s(2) op_step_wf [OF Cons.prems(2) s(1)]] s op_step_kind [OF s(1)] op_step_settle [OF s(1)]
  show ?case by simp
qed simp

text \<open>
  C15. An operation keeps its type discipline over any sequence of CQE recordings, coupled authorizations and
  reuses that passes the assertions: its kind never changes; a recorded CQE result means that the physical slot
  is settled and, for the kinds whose CQE result is the awaited result, that the result is ready; a kind outside
  the coupled lifecycle never moves it; such kinds are single-shot; and between two reuses at most one
  settlement wins, exactly one if and only if the slot is marked settled.
\<close>
theorem op_discipline:
  assumes "op_run as (Op_new k) = Some (bs, op)"
  shows "op_wf op \<and> op_kind op = k \<and> settles as bs 0 = of_bool (Op_CqeCompletionRecorded op) \<and>
    (CqeResultDirectlyPublishesLogicalResult k \<longrightarrow> UsesCoupledSingleResultLifecycle k) \<and>
    (UsesCoupledSingleResultLifecycle k \<longrightarrow> CompletionModelFor k = kSingleShot)"
proof -
  have "\<not> Op_CqeCompletionRecorded (Op_new k)" by (simp add: Op_all_defs)
  moreover have "op_kind (Op_new k) = k" by (simp add: Op_new_def)
  ultimately show ?thesis using op_run_inv [OF assms op_wf_new] direct_coupled coupled_single_shot by simp
qed

theorem op_discipline_witness:
  "op_run [OA_Record 7, OA_Record 9, OA_Release, OA_Continuation, OA_Begin, OA_Record 0] (Op_new kReadComplete) =
     Some ([True, False, True, True, True, True],
       (Op_new kReadComplete)\<lparr>op_result := \<lparr>cqe_encoded = 0\<rparr>, op_slot := \<lparr>slot_gate = \<lparr>completed = True\<rparr>\<rparr>,
         op_lifecycle := \<lparr>sr_state = SR_ResultReady\<rparr>\<rparr>) \<and>
   op_wf ((Op_new kReadComplete)\<lparr>op_result := \<lparr>cqe_encoded = 0\<rparr>, op_slot := \<lparr>slot_gate = \<lparr>completed = True\<rparr>\<rparr>,
         op_lifecycle := \<lparr>sr_state = SR_ResultReady\<rparr>\<rparr>)"
  (is "?run \<and> _")
proof -
  have run: ?run by code_simp
  show ?thesis using run op_discipline [OF run] by blast
qed

end
