(* ===== verification/Uring_Loop.thy ===== *)
theory Uring_Loop
  imports Uring_Op
begin

text \<open>
  The io_uring dispatcher: \<^verbatim>\<open>uring/loop.h\<close>, \<^verbatim>\<open>src/uring/loop.cc\<close>, \<^verbatim>\<open>uring/detail/ring.h\<close> and
  \<^verbatim>\<open>src/uring/ring.cc\<close>. The state is the loop object, the ring it owns and the operation records it
  refers to.

  Kernel and other threads. Every system call consumes one \<open>answer\<close>: its return value, the completions
  the kernel posts meanwhile and what other threads call meanwhile (\<^verbatim>\<open>Post\<close> and \<^verbatim>\<open>RequestStop\<close>). The
  answers are an arbitrary function; \<open>kernel_may_post\<close> keeps of them what the io_uring interface
  allows: a completion belongs to a request that was submitted and has not had its last completion, and a
  completion announces further ones only for the multi-completion requests.

  Clients. What a completion handler, a resumed coroutine, a posted callback or a shutdown participant
  does to the loop is a list of \<open>loop_call\<close>s; the functions that give these lists are the parameter
  \<open>client\<close>. The work queues are lists; that the intrusive queue is one is shown for
  \<^verbatim>\<open>IntrusiveQueue\<close> in \<^verbatim>\<open>Intrusive_Containers\<close>.
\<close>

section \<open>State\<close>

datatype LoopState = kCreated | kRunning | kStopping | kStopped

record cqe =
  cqe_data :: addr
  cqe_event :: CompletionEvent

text \<open>
  The prepared submissions, the completions that can be reaped and, as the kernel's side, the
  submitted requests whose last completion was not posted.
\<close>

record Ring =
  rg_entries :: nat
  rg_sq :: "addr list"
  rg_cq :: "cqe list"
  rg_kernel :: "addr list"

datatype thread_call = TC_Post nat | TC_RequestStop

record answer =
  an_ret :: int
  an_cqes :: "cqe list"
  an_threads :: "thread_call list"

text \<open>
  \<open>lp_thread_loop\<close> is \<^verbatim>\<open>t_loop_in_this_thread\<close> of the running thread. The last three fields are history:
  the accepted and the started posted callbacks, and the resumed work with the queue it came from (\<open>True\<close>
  for the completion queue).
\<close>

record Loop =
  lp_scheduler :: Scheduler
  lp_thread_loop :: addr
  lp_standard_resource :: addr
  lp_context :: ThreadContext
  lp_ring :: Ring
  lp_ops :: "addr \<Rightarrow> Op"
  lp_ready :: "addr list"
  lp_completion_ready :: "addr list"
  lp_initialized :: bool
  lp_pending_submit :: nat
  lp_inflight :: nat
  lp_state :: LoopState
  lp_registry :: "addr list"
  lp_shutdown_started :: bool
  lp_wake_fd :: int
  lp_posted :: "nat list"
  lp_post_closed :: bool
  lp_wake_pending :: bool
  lp_wake_inflight :: bool
  lp_wake_op :: addr
  lp_cancel_all_pending :: bool
  lp_cancel_all_op :: addr
  lp_defer_task_run :: bool
  lp_answers :: "nat \<Rightarrow> answer"
  lp_calls :: nat
  lp_accepted :: "nat list"
  lp_ran :: "nat list"
  lp_executed :: "(bool \<times> addr) list"

definition kMaxCqesPerTurn :: nat where "kMaxCqesPerTurn = 256"
definition kMaxReadyWorkPerTurn :: nat where "kMaxReadyWorkPerTurn = 256"
definition kMaxCompletionWorkPerTurn :: nat where "kMaxCompletionWorkPerTurn = 64"

abbreviation lp_self :: "Loop \<Rightarrow> addr" where
  "lp_self l \<equiv> sd_self (lp_scheduler l)"

abbreviation op_at :: "Loop \<Rightarrow> addr \<Rightarrow> Op" where
  "op_at l a \<equiv> lp_ops l a"

definition set_op :: "addr \<Rightarrow> Op \<Rightarrow> Loop \<Rightarrow> Loop" where
  "set_op a op l = l\<lparr>lp_ops := (lp_ops l)(a := op)\<rparr>"

definition Loop_IsInLoopThread :: "Loop \<Rightarrow> bool" where
  "Loop_IsInLoopThread l \<longleftrightarrow> lp_thread_loop l = lp_self l"

definition HasReadyWork :: "Loop \<Rightarrow> bool" where
  "HasReadyWork l \<longleftrightarrow> lp_ready l \<noteq> [] \<or> lp_completion_ready l \<noteq> []"

text \<open>The counters stay below $2^{64}$; a difference of them is of type \<^verbatim>\<open>std::size_t\<close> and can wrap.\<close>

definition size_minus :: "nat \<Rightarrow> nat \<Rightarrow> nat" where
  "size_minus a b = (if b \<le> a then a - b else 2 ^ 64 - (b - a))"

definition PendingSubmitCount :: "Loop \<Rightarrow> nat" where
  "PendingSubmitCount l = size_minus (lp_pending_submit l) (if lp_wake_pending l then 1 else 0)"

definition InflightCount :: "Loop \<Rightarrow> nat" where
  "InflightCount l = size_minus (lp_inflight l) (if lp_wake_inflight l then 1 else 0)"

definition IsDrained :: "Loop \<Rightarrow> bool" where
  "IsDrained l \<longleftrightarrow> \<not> HasReadyWork l \<and> PendingSubmitCount l = 0 \<and> InflightCount l = 0"

section \<open>Waking and stopping, callable from any thread\<close>

definition take_answer :: "Loop \<Rightarrow> answer \<times> Loop" where
  "take_answer l = (lp_answers l (lp_calls l), l\<lparr>lp_calls := Suc (lp_calls l)\<rparr>)"

text \<open>The write of \<^verbatim>\<open>Wake\<close>: whether it needs no further action. A negative answer is the errno.\<close>

definition Wake_write :: "Loop \<Rightarrow> bool \<times> Loop" where
  "Wake_write l =
     (if lp_wake_fd l < 0 then (True, l)
      else let (a, l1) = take_answer l in
        (\<not> (an_ret a < 0 \<and> an_ret a \<noteq> - EAGAIN \<and> an_ret a \<noteq> - EINTR), l1))"

function Loop_RequestStop :: "Loop \<Rightarrow> Loop" where
  "Loop_RequestStop l =
     (if lp_state l = kCreated \<or> lp_state l = kRunning then
        let l1 = l\<lparr>lp_state := kStopping\<rparr>; (ok, l2) = Wake_write l1 in
        if ok then l2 else Loop_RequestStop l2
      else l)"
  by pat_completeness auto

definition Loop_Wake :: "Loop \<Rightarrow> Loop" where
  "Loop_Wake l = (let (ok, l1) = Wake_write l in if ok then l1 else Loop_RequestStop l1)"

definition Loop_Post :: "nat \<Rightarrow> Loop \<Rightarrow> unit result \<times> Loop" where
  "Loop_Post callback l =
     (if lp_post_closed l then (Err ECANCELED, l)
      else
        let wake = (lp_posted l = []);
            l1 = l\<lparr>lp_posted := lp_posted l @ [callback], lp_accepted := lp_accepted l @ [callback]\<rparr>
        in (Ok (), if wake then Loop_Wake l1 else l1))"

lemma Wake_write_state: "Wake_write l = (ok, l1) \<Longrightarrow> lp_state l1 = lp_state l"
  by (auto simp: Wake_write_def take_answer_def Let_def split: if_splits)

termination Loop_RequestStop
  by (relation "measure (\<lambda>l. if lp_state l = kCreated \<or> lp_state l = kRunning then 1 else 0)")
    (auto dest!: sym [of "(_, _)"] Wake_write_state)

declare Loop_RequestStop.simps [simp del]

fun thread_calls :: "thread_call list \<Rightarrow> Loop \<Rightarrow> Loop" where
  "thread_calls [] l = l"
| "thread_calls (TC_Post callback # cs) l = thread_calls cs (snd (Loop_Post callback l))"
| "thread_calls (TC_RequestStop # cs) l = thread_calls cs (Loop_RequestStop l)"

section \<open>The ring\<close>

abbreviation terminal :: "cqe \<Rightarrow> bool" where
  "terminal c \<equiv> \<not> Event_More (cqe_event c)"

definition kernel_may_post :: "Loop \<Rightarrow> cqe \<Rightarrow> bool" where
  "kernel_may_post l c \<longleftrightarrow>
     cqe_data c \<in> set (rg_kernel (lp_ring l)) \<and> ev_result (cqe_event c) \<noteq> kEmpty \<and>
     (CompletionModelFor (op_kind (op_at l (cqe_data c))) = kSingleShot \<longrightarrow> terminal c)"

definition kernel_post :: "cqe \<Rightarrow> Loop \<Rightarrow> Loop" where
  "kernel_post c l =
     (if kernel_may_post l c then
        let g = lp_ring l in
        l\<lparr>lp_ring := g\<lparr>rg_cq := rg_cq g @ [c],
          rg_kernel := (if terminal c then remove1 (cqe_data c) (rg_kernel g) else rg_kernel g)\<rparr>\<rparr>
      else l)"

definition kernel_call :: "Loop \<Rightarrow> int \<times> Loop" where
  "kernel_call l =
     (let (a, l1) = take_answer l in
      (an_ret a, thread_calls (an_threads a) (fold kernel_post (an_cqes a) l1)))"

definition Ring_GetSqe :: "Ring \<Rightarrow> bool" where
  "Ring_GetSqe g \<longleftrightarrow> length (rg_sq g) < rg_entries g"

text \<open>The kernel takes the submissions before it posts completions or returns.\<close>

definition Ring_Submit :: "Loop \<Rightarrow> nat result \<times> Loop" where
  "Ring_Submit l =
     (let n = nat (an_ret (fst (take_answer l))); g = lp_ring l;
          (ret, l1) = kernel_call (l\<lparr>lp_ring := g\<lparr>rg_sq := drop n (rg_sq g), rg_kernel := rg_kernel g @ take n (rg_sq g)\<rparr>\<rparr>)
      in if ret < 0 then (Err (- ret), l1) else (Ok (nat ret), l1))"

definition Ring_GetEvents :: "Loop \<Rightarrow> unit result \<times> Loop" where
  "Ring_GetEvents l = (let (ret, l1) = kernel_call l in if ret < 0 then (Err (- ret), l1) else (Ok (), l1))"

section \<open>Submission\<close>

function FlushSubmit_loop :: "Loop \<Rightarrow> unit result \<times> Loop" where
  "FlushSubmit_loop l =
     (if lp_pending_submit l > 0 then
        case Ring_Submit l of
          (Inl e, l1) \<Rightarrow> (Err e, l1)
        | (Inr submitted, l1) \<Rightarrow>
            if submitted = 0 then (Err EAGAIN, l1)
            else
              let count = min submitted (lp_pending_submit l1);
                  l2 = l1\<lparr>lp_pending_submit := lp_pending_submit l1 - count, lp_inflight := lp_inflight l1 + count\<rparr>;
                  l3 = (if lp_wake_pending l2 \<and> count > 0
                        then l2\<lparr>lp_wake_pending := False, lp_wake_inflight := True\<rparr> else l2)
              in FlushSubmit_loop l3
      else (Ok (), l))"
  by pat_completeness auto

section \<open>What other threads can change\<close>

text \<open>Posts are appended, a created or running loop may be told to stop; nothing else changes.\<close>

definition quiet :: "Loop \<Rightarrow> Loop \<Rightarrow> bool" where
  "quiet l l' \<longleftrightarrow> (\<exists>c s xs. l' = l\<lparr>lp_calls := c, lp_state := s, lp_posted := lp_posted l @ xs, lp_accepted := lp_accepted l @ xs\<rparr> \<and>
     (lp_post_closed l \<longrightarrow> xs = []) \<and> (s = lp_state l \<or> s = kStopping \<and> lp_state l \<in> {kCreated, kRunning}))"

lemma quietI:
  assumes "l' = l\<lparr>lp_calls := c, lp_state := s, lp_posted := lp_posted l @ xs, lp_accepted := lp_accepted l @ xs\<rparr>"
    and "lp_post_closed l \<Longrightarrow> xs = []" and "s = lp_state l \<or> s = kStopping \<and> lp_state l \<in> {kCreated, kRunning}"
  shows "quiet l l'"
  unfolding quiet_def using assms by blast

lemma quietE:
  assumes "quiet l l'"
  obtains c s xs where "l' = l\<lparr>lp_calls := c, lp_state := s, lp_posted := lp_posted l @ xs, lp_accepted := lp_accepted l @ xs\<rparr>"
    and "lp_post_closed l \<Longrightarrow> xs = []" and "s = lp_state l \<or> s = kStopping \<and> lp_state l \<in> {kCreated, kRunning}"
  using assms unfolding quiet_def by blast

lemma quiet_refl: "quiet l l"
  by (rule quietI [where c = "lp_calls l" and s = "lp_state l" and xs = "[]"]) simp_all

lemma quiet_trans: "quiet l1 l2 \<Longrightarrow> quiet l2 l3 \<Longrightarrow> quiet l1 l3"
proof (elim quietE)
  fix c s xs c' s' ys
  assume a: "l2 = l1\<lparr>lp_calls := c, lp_state := s, lp_posted := lp_posted l1 @ xs, lp_accepted := lp_accepted l1 @ xs\<rparr>"
    "lp_post_closed l1 \<Longrightarrow> xs = []" "s = lp_state l1 \<or> s = kStopping \<and> lp_state l1 \<in> {kCreated, kRunning}"
    "l3 = l2\<lparr>lp_calls := c', lp_state := s', lp_posted := lp_posted l2 @ ys, lp_accepted := lp_accepted l2 @ ys\<rparr>"
    "lp_post_closed l2 \<Longrightarrow> ys = []" "s' = lp_state l2 \<or> s' = kStopping \<and> lp_state l2 \<in> {kCreated, kRunning}"
  show "quiet l1 l3"
    by (rule quietI [where c = c' and s = s' and xs = "xs @ ys"]) (use a in auto)
qed

lemma quiet_calls: "quiet l (l\<lparr>lp_calls := c\<rparr>)"
  by (rule quietI [where c = c and s = "lp_state l" and xs = "[]"]) simp_all

lemma quiet_write: "Wake_write l = (ok, l1) \<Longrightarrow> quiet l l1"
  by (auto simp: Wake_write_def take_answer_def quiet_calls quiet_refl split: if_splits)

lemma quiet_stop_state: "lp_state l \<in> {kCreated, kRunning} \<Longrightarrow> quiet l (l\<lparr>lp_state := kStopping\<rparr>)"
  by (rule quietI [where c = "lp_calls l" and s = kStopping and xs = "[]"]) auto

lemma quiet_RequestStop: "quiet l (Loop_RequestStop l)"
proof (cases "lp_state l \<in> {kCreated, kRunning}")
  case False
  then show ?thesis by (simp add: Loop_RequestStop.simps [of l] quiet_refl)
next
  case True
  obtain ok l2 where w: "Wake_write (l\<lparr>lp_state := kStopping\<rparr>) = (ok, l2)" by fastforce
  have "lp_state l2 = kStopping" using Wake_write_state [OF w] by simp
  then have "Loop_RequestStop l2 = l2" by (simp add: Loop_RequestStop.simps [of l2])
  then have "Loop_RequestStop l = l2" using True w by (simp add: Loop_RequestStop.simps [of l] Let_def)
  then show ?thesis using quiet_trans [OF quiet_stop_state [OF True] quiet_write [OF w]] by simp
qed

lemma RequestStop_state: "lp_state (Loop_RequestStop l) \<noteq> kCreated \<and> lp_state (Loop_RequestStop l) \<noteq> kRunning"
proof (cases "lp_state l \<in> {kCreated, kRunning}")
  case True
  obtain ok l2 where w: "Wake_write (l\<lparr>lp_state := kStopping\<rparr>) = (ok, l2)" by fastforce
  have "lp_state l2 = kStopping" using Wake_write_state [OF w] by simp
  then have "Loop_RequestStop l = l2" using True w by (simp add: Loop_RequestStop.simps [of l] Loop_RequestStop.simps [of l2] Let_def)
  then show ?thesis using \<open>lp_state l2 = kStopping\<close> by simp
qed (auto simp: Loop_RequestStop.simps [of l])

lemma quiet_Wake: "quiet l (Loop_Wake l)"
proof -
  obtain ok l1 where w: "Wake_write l = (ok, l1)" by fastforce
  then show ?thesis
    using quiet_write [OF w] quiet_trans [OF quiet_write [OF w] quiet_RequestStop] by (simp add: Loop_Wake_def)
qed

lemma quiet_Post: "quiet l (snd (Loop_Post callback l))"
proof (cases "lp_post_closed l")
  case False
  have "quiet l (l\<lparr>lp_posted := lp_posted l @ [callback], lp_accepted := lp_accepted l @ [callback]\<rparr>)"
    by (rule quietI [where c = "lp_calls l" and s = "lp_state l" and xs = "[callback]"]) (use False in simp_all)
  with quiet_trans [OF this quiet_Wake] show ?thesis using False quiet_refl by (auto simp: Loop_Post_def Let_def)
qed (simp add: Loop_Post_def quiet_refl)

lemma quiet_threads: "quiet l (thread_calls cs l)"
  by (induction cs l rule: thread_calls.induct) (auto intro: quiet_refl quiet_trans quiet_Post quiet_RequestStop)

text \<open>A posted completion only moves a request between the kernel and the completion queue.\<close>

definition posts_only :: "Loop \<Rightarrow> Loop \<Rightarrow> bool" where
  "posts_only l l' \<longleftrightarrow> (\<exists>cq k. l' = l\<lparr>lp_ring := (lp_ring l)\<lparr>rg_cq := cq, rg_kernel := k\<rparr>\<rparr>)"

lemma posts_trans:
  assumes "posts_only l m" "posts_only m n"
  shows "posts_only l n"
proof -
  from assms(1) obtain cq k where m: "m = l\<lparr>lp_ring := (lp_ring l)\<lparr>rg_cq := cq, rg_kernel := k\<rparr>\<rparr>" unfolding posts_only_def by blast
  from assms(2) obtain cq' k' where "n = m\<lparr>lp_ring := (lp_ring m)\<lparr>rg_cq := cq', rg_kernel := k'\<rparr>\<rparr>" unfolding posts_only_def by blast
  then have "n = l\<lparr>lp_ring := (lp_ring l)\<lparr>rg_cq := cq', rg_kernel := k'\<rparr>\<rparr>" by (simp add: m)
  then show ?thesis unfolding posts_only_def by blast
qed

lemma posts_fold: "posts_only l (fold kernel_post cs l)"
proof (induction cs arbitrary: l)
  case Nil
  then show ?case by (auto simp: posts_only_def intro!: exI [of _ "rg_cq (lp_ring l)"] exI [of _ "rg_kernel (lp_ring l)"])
next
  case (Cons c cs)
  have "posts_only l (kernel_post c l)"
  proof (cases "kernel_may_post l c")
    case True
    then show ?thesis unfolding posts_only_def kernel_post_def Let_def 
      by (auto intro!: exI [of _ "rg_cq (lp_ring l) @ [c]"]
          exI [of _ "if terminal c then remove1 (cqe_data c) (rg_kernel (lp_ring l)) else rg_kernel (lp_ring l)"])
  next
    case False
    then show ?thesis unfolding posts_only_def kernel_post_def Let_def
      by (auto intro!: exI [of _ "rg_cq (lp_ring l)"] exI [of _ "rg_kernel (lp_ring l)"])
  qed
  then show ?case using posts_trans [OF _ Cons.IH] by simp
qed

lemma kernel_call_frame:
  assumes "kernel_call l = (ret, l')"
  obtains l1 where "posts_only (l\<lparr>lp_calls := Suc (lp_calls l)\<rparr>) l1" "quiet l1 l'"
proof (rule that)
  show "posts_only (l\<lparr>lp_calls := Suc (lp_calls l)\<rparr>)
      (fold kernel_post (an_cqes (lp_answers l (lp_calls l))) (l\<lparr>lp_calls := Suc (lp_calls l)\<rparr>))" by (rule posts_fold)
  show "quiet (fold kernel_post (an_cqes (lp_answers l (lp_calls l))) (l\<lparr>lp_calls := Suc (lp_calls l)\<rparr>)) l'"
    using assms quiet_threads by (auto simp: kernel_call_def take_answer_def)
qed

lemma kernel_call_counts:
  assumes "kernel_call l = (ret, l')"
  shows "lp_pending_submit l' = lp_pending_submit l" "lp_inflight l' = lp_inflight l"
    "rg_sq (lp_ring l') = rg_sq (lp_ring l)"
  by (rule kernel_call_frame [OF assms]; auto simp: posts_only_def elim!: quietE)+

lemma Submit_pending:
  assumes "Ring_Submit l = (r, l')"
  shows "lp_pending_submit l' = lp_pending_submit l"
proof -
  let ?n = "nat (an_ret (lp_answers l (lp_calls l)))"
  let ?l = "l\<lparr>lp_ring := (lp_ring l)\<lparr>rg_sq := drop ?n (rg_sq (lp_ring l)),
      rg_kernel := rg_kernel (lp_ring l) @ take ?n (rg_sq (lp_ring l))\<rparr>\<rparr>"
  obtain ret l1 where k: "kernel_call ?l = (ret, l1)" by fastforce
  with assms have "l' = l1" by (auto simp: Ring_Submit_def take_answer_def Let_def split: if_splits)
  with kernel_call_counts(1) [OF k] show ?thesis by simp
qed

termination FlushSubmit_loop
  by (relation "measure lp_pending_submit") (auto simp: Let_def dest!: Submit_pending [OF sym])

declare FlushSubmit_loop.simps [simp del]

definition Loop_FlushSubmit :: "Loop \<Rightarrow> (unit result \<times> Loop) option" where
  "Loop_FlushSubmit l = do { check (Loop_IsInLoopThread l); Some (FlushSubmit_loop l) }"

text \<open>\<open>prep\<close> only fills the submission entry; \<open>a\<close> is the operation, stored as the user data.\<close>

definition Loop_SubmitOp :: "addr \<Rightarrow> Loop \<Rightarrow> (unit result \<times> Loop) option" where
  "Loop_SubmitOp a l = do {
     check (Loop_IsInLoopThread l);
     if \<not> lp_initialized l then Some (Err EBADF, l)
     else if a = nullptr then Some (Err EINVAL, l)
     else
       let kind = op_kind (op_at l a);
           is_stream_deadline_cancel = (kind = kStreamReadCancelComplete \<or> kind = kStreamWriteCancelComplete)
       in if (lp_state l = kStopping \<or> lp_state l = kStopped) \<and> a \<noteq> lp_cancel_all_op l \<and> a \<noteq> lp_wake_op l \<and>
            \<not> is_stream_deadline_cancel
       then Some (Err ECANCELED, l)
       else do {
         let prepare = (\<lambda>l. l\<lparr>lp_ring := (lp_ring l)\<lparr>rg_sq := rg_sq (lp_ring l) @ [a]\<rparr>,
           lp_pending_submit := lp_pending_submit l + 1\<rparr>);
         if Ring_GetSqe (lp_ring l) then Some (Ok (), prepare l)
         else do {
           (flushed, l1) \<leftarrow> Loop_FlushSubmit l;
           case flushed of
             Inl e \<Rightarrow> Some (Err e, l1)
           | Inr _ \<Rightarrow>
               if Ring_GetSqe (lp_ring l1) then Some (Ok (), prepare l1)
               else Some (Err ENOSPC, l1)
         }
       }
   }"

section \<open>Scheduling\<close>

text \<open>\<^verbatim>\<open>WorkQueue::PushBack\<close> refuses a null item and one that is linked.\<close>

definition queue_accepts :: "addr \<Rightarrow> Loop \<Rightarrow> bool" where
  "queue_accepts work l \<longleftrightarrow> work \<noteq> nullptr \<and> work \<notin> set (lp_ready l) \<and> work \<notin> set (lp_completion_ready l)"

definition Loop_Schedule :: "addr \<Rightarrow> Loop \<Rightarrow> Loop option" where
  "Loop_Schedule work l = do {
     check (Loop_IsInLoopThread l);
     Some (if queue_accepts work l then l\<lparr>lp_ready := lp_ready l @ [work]\<rparr> else l)
   }"

definition Loop_ScheduleCompletion :: "addr \<Rightarrow> Loop \<Rightarrow> Loop option" where
  "Loop_ScheduleCompletion work l = do {
     check (Loop_IsInLoopThread l);
     Some (if queue_accepts work l then l\<lparr>lp_completion_ready := lp_completion_ready l @ [work]\<rparr> else l)
   }"

definition Loop_RegisterShutdownParticipant :: "addr \<Rightarrow> Loop \<Rightarrow> Loop option" where
  "Loop_RegisterShutdownParticipant p l = do {
     check (Loop_IsInLoopThread l);
     check (p \<noteq> nullptr \<and> p \<notin> set (lp_registry l));
     Some (l\<lparr>lp_registry := lp_registry l @ [p]\<rparr>)
   }"

definition Loop_UnregisterShutdownParticipant :: "addr \<Rightarrow> Loop \<Rightarrow> Loop option" where
  "Loop_UnregisterShutdownParticipant p l = do {
     check (Loop_IsInLoopThread l);
     check (p \<in> set (lp_registry l));
     Some (l\<lparr>lp_registry := remove1 p (lp_registry l)\<rparr>)
   }"

section \<open>Clients\<close>

datatype loop_call =
    LC_Submit addr | LC_Schedule addr | LC_ScheduleCompletion addr | LC_Post nat | LC_RequestStop
  | LC_Op addr op_act | LC_SetHandle addr u64 | LC_Register addr | LC_Unregister addr

fun Loop_call :: "loop_call \<Rightarrow> Loop \<Rightarrow> Loop option" where
  "Loop_call (LC_Submit a) l = map_option snd (Loop_SubmitOp a l)"
| "Loop_call (LC_Schedule w) l = Loop_Schedule w l"
| "Loop_call (LC_ScheduleCompletion w) l = Loop_ScheduleCompletion w l"
| "Loop_call (LC_Post callback) l = Some (snd (Loop_Post callback l))"
| "Loop_call LC_RequestStop l = Some (Loop_RequestStop l)"
| "Loop_call (LC_Op a act) l = do { (_, op) \<leftarrow> op_step act (op_at l a); Some (set_op a op l) }"
| "Loop_call (LC_SetHandle a handle) l = do {
     w \<leftarrow> Work_SetHandle handle (op_resume_work (op_at l a));
     Some (set_op a ((op_at l a)\<lparr>op_resume_work := w\<rparr>) l) }"
| "Loop_call (LC_Register p) l = Loop_RegisterShutdownParticipant p l"
| "Loop_call (LC_Unregister p) l = Loop_UnregisterShutdownParticipant p l"

fun Loop_calls :: "loop_call list \<Rightarrow> Loop \<Rightarrow> Loop option" where
  "Loop_calls [] l = Some l"
| "Loop_calls (c # cs) l = do { l1 \<leftarrow> Loop_call c l; Loop_calls cs l1 }"

record client =
  cl_complete :: "addr \<Rightarrow> CompletionEvent \<Rightarrow> Loop \<Rightarrow> loop_call list \<times> CompletionDisposition"
  cl_work :: "addr \<Rightarrow> Loop \<Rightarrow> loop_call list"
  cl_posted :: "nat \<Rightarrow> Loop \<Rightarrow> loop_call list"
  cl_participant :: "addr \<Rightarrow> Loop \<Rightarrow> loop_call list"
  cl_discard :: "Loop \<Rightarrow> loop_call list"

section \<open>Completions\<close>

text \<open>The kinds whose handler returns the disposition itself.\<close>

fun returns_disposition :: "OpKind \<Rightarrow> bool" where
  "returns_disposition kStreamReadCancelComplete = True"
| "returns_disposition kStreamWriteCancelComplete = True"
| "returns_disposition kConnectCancelComplete = True"
| "returns_disposition kAcceptSourceComplete = True"
| "returns_disposition kRecvSourceComplete = True"
| "returns_disposition kSendZeroCopyComplete = True"
| "returns_disposition _ = False"

fun has_handler :: "OpKind \<Rightarrow> bool" where
  "has_handler kNone = False"
| "has_handler kWake = False"
| "has_handler kCancelAll = False"
| "has_handler kNop = False"
| "has_handler kCount = False"
| "has_handler _ = True"

definition DispatchCompletion :: "client \<Rightarrow> addr \<Rightarrow> CompletionEvent \<Rightarrow> Loop \<Rightarrow> (CompletionDisposition \<times> Loop) option" where
  "DispatchCompletion cl a event l = do {
     check (a \<noteq> nullptr);
     let kind = op_kind (op_at l a);
     let (calls, disposition) = cl_complete cl a event l;
     l1 \<leftarrow> (if has_handler kind then Loop_calls calls l else Some l);
     if returns_disposition kind then Some (disposition, l1)
     else Some (\<lparr>kernel_request_terminal = True, decrement_inflight = True,
       resume_continuation = Work_HasHandle (op_resume_work (op_at l1 a))\<rparr>, l1)
   }"

definition resume_after_completion :: "addr \<Rightarrow> Loop \<Rightarrow> Loop option" where
  "resume_after_completion a l = do {
     l1 \<leftarrow> (if UsesCoupledSingleResultLifecycle (op_kind (op_at l a)) then do {
              (authorized, op) \<leftarrow> Op_TryAuthorizeCoupledContinuation (op_at l a);
              check authorized;
              Some (set_op a op l)
            } else Some l);
     let (resume_gate_won, l2) =
       (if Op_CqeCompletionRecorded (op_at l1 a) then (True, l1)
        else let (won, op) = Op_TryMarkCompletionWithoutCqeResult (op_at l1 a) in (won, set_op a op l1));
     if resume_gate_won \<and> Work_HasHandle (op_resume_work (op_at l2 a)) then Loop_ScheduleCompletion a l2
     else Some l2
   }"

definition apply_disposition :: "addr \<Rightarrow> CompletionDisposition \<Rightarrow> Loop \<Rightarrow> Loop option" where
  "apply_disposition a d l = do {
     check (kernel_request_terminal d \<longrightarrow> decrement_inflight d);
     l1 \<leftarrow> (if decrement_inflight d then do {
              check (lp_inflight l > 0);
              Some (l\<lparr>lp_inflight := lp_inflight l - 1\<rparr>)
            } else Some l);
     if resume_continuation d then resume_after_completion a l1 else Some l1
   }"

definition Loop_ArmWakePoll :: "Loop \<Rightarrow> (unit result \<times> Loop) option" where
  "Loop_ArmWakePoll l = do {
     check (Loop_IsInLoopThread l);
     if lp_wake_fd l < 0 then Some (Err EBADF, l)
     else do {
       let op = op_at l (lp_wake_op l);
       let l1 = set_op (lp_wake_op l) (op\<lparr>op_kind := kWake, op_resume_work := Work_ClearHandle (op_resume_work op)\<rparr>) l;
       (submitted, l2) \<leftarrow> Loop_SubmitOp (lp_wake_op l1) l1;
       Some (submitted, case submitted of Inr _ \<Rightarrow> l2\<lparr>lp_wake_pending := True\<rparr> | Inl _ \<Rightarrow> l2)
     }
   }"

text \<open>Every read that returns the eight bytes of the counter is followed by another one.\<close>

partial_function (option) Loop_DrainWakeFd :: "Loop \<Rightarrow> Loop option" where
  "Loop_DrainWakeFd l =
     (if lp_wake_fd l < 0 then Some l
      else let (a, l1) = take_answer l in
        if an_ret a = 8 then Loop_DrainWakeFd l1 else Some l1)"

fun run_batch :: "client \<Rightarrow> nat list \<Rightarrow> Loop \<Rightarrow> Loop option" where
  "run_batch cl [] l = Some l"
| "run_batch cl (callback # rest) l = do {
     let l1 = l\<lparr>lp_ran := lp_ran l @ [callback]\<rparr>;
     l2 \<leftarrow> Loop_calls (cl_posted cl callback l1) l1;
     run_batch cl rest l2
   }"

definition Loop_RunPosted :: "client \<Rightarrow> Loop \<Rightarrow> Loop option" where
  "Loop_RunPosted cl l = run_batch cl (lp_posted l) (l\<lparr>lp_posted := []\<rparr>)"

definition HandleWake :: "client \<Rightarrow> Loop \<Rightarrow> Loop option" where
  "HandleWake cl l = do {
     l1 \<leftarrow> apply_disposition (lp_wake_op l)
       \<lparr>kernel_request_terminal = True, decrement_inflight = True, resume_continuation = False\<rparr> l;
     let l2 = l1\<lparr>lp_wake_inflight := False\<rparr>;
     l3 \<leftarrow> Loop_DrainWakeFd l2;
     l4 \<leftarrow> Loop_RunPosted cl l3;
     if lp_state l4 = kRunning then do {
       let l5 = set_op (lp_wake_op l4) (Op_BeginNextRequest (op_at l4 (lp_wake_op l4))) l4;
       (armed, l6) \<leftarrow> Loop_ArmWakePoll l5;
       Some (case armed of Inr _ \<Rightarrow> l6 | Inl _ \<Rightarrow> Loop_RequestStop l6)
     } else Some l4
   }"

definition HandleCqe :: "client \<Rightarrow> cqe \<Rightarrow> Loop \<Rightarrow> Loop option" where
  "HandleCqe cl c l = do {
     check (Loop_IsInLoopThread l);
     let a = cqe_data c;
     let event = cqe_event c;
     if a = nullptr then Some (if lp_inflight l > 0 then l\<lparr>lp_inflight := lp_inflight l - 1\<rparr> else l)
     else if a = lp_wake_op l then HandleWake cl l
     else if a = lp_cancel_all_op l then do {
       let l1 = l\<lparr>lp_cancel_all_pending := False\<rparr>;
       (_, op) \<leftarrow> Op_TryRecordCqeCompletion (ev_result event) (op_at l1 a);
       (d, l2) \<leftarrow> DispatchCompletion cl a event (set_op a op l1);
       apply_disposition a d l2
     }
     else if CompletionModelFor (op_kind (op_at l a)) = kSingleShot then do {
       (won, op) \<leftarrow> Op_TryRecordCqeCompletion (ev_result event) (op_at l a);
       if \<not> won then Some (set_op a op l)
       else do {
         (d, l2) \<leftarrow> DispatchCompletion cl a event (set_op a op l);
         apply_disposition a d l2
       }
     }
     else do {
       (d, l2) \<leftarrow> DispatchCompletion cl a event l;
       apply_disposition a d l2
     }
   }"

section \<open>Turns of the dispatcher\<close>

definition in_scope :: "(Loop \<Rightarrow> Loop option) \<Rightarrow> Loop \<Rightarrow> Loop option" where
  "in_scope body l = do {
     let (saved, t) = ExecutionScope_enter (lp_standard_resource l) (lp_scheduler l) (lp_context l);
     l1 \<leftarrow> body (l\<lparr>lp_context := t\<rparr>);
     Some (l1\<lparr>lp_context := ExecutionScope_leave (lp_standard_resource l1) saved (lp_context l1)\<rparr>)
   }"

definition check_scope :: "Loop \<Rightarrow> unit option" where
  "check_scope l = CheckExecutionScope (lp_standard_resource l) (lp_scheduler l) (lp_context l)"

definition Loop_RunOnOwner :: "loop_call list \<Rightarrow> Loop \<Rightarrow> Loop option" where
  "Loop_RunOnOwner calls l = do { check (Loop_IsInLoopThread l); in_scope (Loop_calls calls) l }"

definition run_work :: "client \<Rightarrow> bool \<Rightarrow> addr \<Rightarrow> Loop \<Rightarrow> Loop option" where
  "run_work cl from_completion w l =
     (let l1 = l\<lparr>lp_executed := lp_executed l @ [(from_completion, w)]\<rparr> in Loop_calls (cl_work cl w l1) l1)"

text \<open>\<open>n\<close> is what remains of the budget, \<^verbatim>\<open>kMaxCompletionWorkPerTurn - resumed\<close>.\<close>

fun DrainCompletion_loop :: "client \<Rightarrow> nat \<Rightarrow> Loop \<Rightarrow> Loop option" where
  "DrainCompletion_loop cl 0 l = Some l"
| "DrainCompletion_loop cl (Suc n) l =
     (case lp_completion_ready l of
        [] \<Rightarrow> Some l
      | w # rest \<Rightarrow> do {
          l1 \<leftarrow> run_work cl True w (l\<lparr>lp_completion_ready := rest\<rparr>);
          DrainCompletion_loop cl n l1
        })"

definition DrainCompletionReady :: "client \<Rightarrow> Loop \<Rightarrow> Loop option" where
  "DrainCompletionReady cl l = do {
     check (Loop_IsInLoopThread l);
     if lp_completion_ready l = [] then Some l
     else in_scope (\<lambda>l. do { check_scope l; DrainCompletion_loop cl kMaxCompletionWorkPerTurn l }) l
   }"

definition OnCqeHandled :: "client \<Rightarrow> Loop \<Rightarrow> Loop option" where
  "OnCqeHandled cl l = do {
     (flushed, l1) \<leftarrow> Loop_FlushSubmit l;
     case flushed of Inl _ \<Rightarrow> Some (Loop_RequestStop l1) | Inr _ \<Rightarrow> DrainCompletionReady cl l1
   }"

text \<open>\<open>n\<close> is \<^verbatim>\<open>kMaxReadyWorkPerTurn - resumed\<close>.\<close>

fun RunReady_loop :: "client \<Rightarrow> nat \<Rightarrow> nat \<Rightarrow> Loop \<Rightarrow> Loop option" where
  "RunReady_loop cl 0 completion_resumed l = Some l"
| "RunReady_loop cl (Suc n) completion_resumed l =
     (case (lp_completion_ready l, lp_ready l) of
        ([], []) \<Rightarrow> Some l
      | (w # rest, ready) \<Rightarrow>
          if ready = [] \<or> completion_resumed < kMaxCompletionWorkPerTurn then do {
            l1 \<leftarrow> run_work cl True w (l\<lparr>lp_completion_ready := rest\<rparr>);
            RunReady_loop cl n (Suc completion_resumed) l1
          } else do {
            l1 \<leftarrow> run_work cl False (hd ready) (l\<lparr>lp_ready := tl ready\<rparr>);
            RunReady_loop cl n completion_resumed l1
          }
      | ([], w # rest) \<Rightarrow> do {
          l1 \<leftarrow> run_work cl False w (l\<lparr>lp_ready := rest\<rparr>);
          RunReady_loop cl n completion_resumed l1
        })"

definition Loop_RunReady :: "client \<Rightarrow> Loop \<Rightarrow> Loop option" where
  "Loop_RunReady cl l = do {
     check (Loop_IsInLoopThread l);
     in_scope (\<lambda>l. do { check_scope l; RunReady_loop cl kMaxReadyWorkPerTurn 0 l }) l
   }"

text \<open>A reaped completion leaves the queue when it is handled; \<open>n\<close> is what remains of \<^verbatim>\<open>max_count\<close>.\<close>

fun Reap_loop :: "client \<Rightarrow> nat \<Rightarrow> nat \<Rightarrow> Loop \<Rightarrow> (nat \<times> Loop) option" where
  "Reap_loop cl 0 count l = Some (count, l)"
| "Reap_loop cl (Suc n) count l =
     (case rg_cq (lp_ring l) of
        [] \<Rightarrow> Some (count, l)
      | c # rest \<Rightarrow> do {
          l1 \<leftarrow> HandleCqe cl c (l\<lparr>lp_ring := (lp_ring l)\<lparr>rg_cq := rest\<rparr>\<rparr>);
          l2 \<leftarrow> OnCqeHandled cl l1;
          Reap_loop cl n (Suc count) l2
        })"

definition Ring_Reap :: "client \<Rightarrow> nat \<Rightarrow> Loop \<Rightarrow> (nat result \<times> Loop) option" where
  "Ring_Reap cl max_count l = do {
     let (ret, l1) = kernel_call l;
     let r = (if ret < 0 then ret else if rg_cq (lp_ring l1) = [] then - EAGAIN else 0);
     if r = - EAGAIN then Some (Ok 0, l1)
     else if r < 0 then Some (Err (- r), l1)
     else do { (count, l2) \<leftarrow> Reap_loop cl max_count 0 l1; Some (Ok count, l2) }
   }"

definition Loop_PollCompletions :: "client \<Rightarrow> Loop \<Rightarrow> (nat result \<times> Loop) option" where
  "Loop_PollCompletions cl l = do {
     check (Loop_IsInLoopThread l);
     (flushed, l1) \<leftarrow> Loop_FlushSubmit l;
     case flushed of Inl e \<Rightarrow> Some (Err e, l1) | Inr _ \<Rightarrow> Ring_Reap cl kMaxCqesPerTurn l1
   }"

text \<open>The timeout only bounds how long the kernel may take to answer.\<close>

definition Loop_WaitCompletionsFor :: "client \<Rightarrow> Loop \<Rightarrow> (nat result \<times> Loop) option" where
  "Loop_WaitCompletionsFor cl l = do {
     check (Loop_IsInLoopThread l);
     (flushed, l1) \<leftarrow> Loop_FlushSubmit l;
     case flushed of
       Inl e \<Rightarrow> Some (Err e, l1)
     | Inr _ \<Rightarrow>
         let (r, l2) = kernel_call l1 in
         if r < 0 then Some (Err (- r), l2) else Ring_Reap cl kMaxCqesPerTurn l2
   }"

section \<open>Shutdown\<close>

text \<open>
  \<^verbatim>\<open>LoopShutdownRegistry::RequestStop\<close> walks the live list: the successor is read before the participant is called, and
  participants may register and unregister meanwhile. A successor that was unregistered in between has its
  hook cleared, so the walk runs off the list; it does not return here. \<^verbatim>\<open>Intrusive_Containers\<close> has the pointer
  version of this walk.
\<close>

definition registry_next :: "addr \<Rightarrow> addr list \<Rightarrow> addr" where
  "registry_next p ps = (case tl (dropWhile (\<lambda>q. q \<noteq> p) ps) of [] \<Rightarrow> nullptr | q # _ \<Rightarrow> q)"

partial_function (option) stop_participants :: "client \<Rightarrow> addr \<Rightarrow> Loop \<Rightarrow> Loop option" where
  "stop_participants cl cur l =
     (if cur = nullptr then Some l
      else do {
        check (cur \<in> set (lp_registry l));
        let next = registry_next cur (lp_registry l);
        l1 \<leftarrow> Loop_calls (cl_participant cl cur l) l;
        stop_participants cl next l1
      })"

definition Loop_BeginShutdown :: "client \<Rightarrow> Loop \<Rightarrow> Loop option" where
  "Loop_BeginShutdown cl l = do {
     check (Loop_IsInLoopThread l);
     if lp_shutdown_started l then Some l
     else stop_participants cl (case lp_registry l of [] \<Rightarrow> nullptr | p # _ \<Rightarrow> p) (l\<lparr>lp_shutdown_started := True\<rparr>)
   }"

definition Loop_CancelPendingOperations :: "Loop \<Rightarrow> (unit result \<times> Loop) option" where
  "Loop_CancelPendingOperations l = do {
     check (Loop_IsInLoopThread l);
     if lp_cancel_all_pending l \<or> PendingSubmitCount l = 0 \<and> InflightCount l = 0 then Some (Ok (), l)
     else do {
       let a = lp_cancel_all_op l;
       (submitted, l1) \<leftarrow> Loop_SubmitOp a (set_op a (Op_BeginNextRequest (op_at l a)) l);
       Some (submitted, case submitted of Inr _ \<Rightarrow> l1\<lparr>lp_cancel_all_pending := True\<rparr> | Inl _ \<Rightarrow> l1)
     }
   }"

definition drain_wait :: "client \<Rightarrow> Loop \<Rightarrow> Loop option" where
  "drain_wait cl l = do {
     let l1 = (if lp_defer_task_run l then snd (Ring_GetEvents l) else l);
     (completed, l2) \<leftarrow> Loop_WaitCompletionsFor cl l1;
     Some l2
   }"

partial_function (option) DrainStopped_loop :: "client \<Rightarrow> Loop \<Rightarrow> Loop option" where
  "DrainStopped_loop cl l =
     (if IsDrained l then Some l
      else do {
        l1 \<leftarrow> Loop_RunReady cl l;
        if IsDrained l1 then Some l1
        else do {
          (cancelled, l2) \<leftarrow> Loop_CancelPendingOperations l1;
          if (case cancelled of Inl _ \<Rightarrow> False | Inr _ \<Rightarrow> PendingSubmitCount l2 = 0 \<and> InflightCount l2 = 0)
          then DrainStopped_loop cl l2
          else do { l3 \<leftarrow> drain_wait cl l2; DrainStopped_loop cl l3 }
        }
      })"

definition Loop_DrainStoppedOperations :: "client \<Rightarrow> Loop \<Rightarrow> Loop option" where
  "Loop_DrainStoppedOperations cl l = do {
     check (Loop_IsInLoopThread l);
     l1 \<leftarrow> DrainStopped_loop cl l;
     Loop_RunReady cl l1
   }"

partial_function (option) drain_ready :: "client \<Rightarrow> Loop \<Rightarrow> Loop option" where
  "drain_ready cl l =
     (if HasReadyWork l then do { l1 \<leftarrow> Loop_RunReady cl l; drain_ready cl l1 } else Some l)"

partial_function (option) Loop_DrainPostedAndClose :: "client \<Rightarrow> Loop \<Rightarrow> Loop option" where
  "Loop_DrainPostedAndClose cl l =
     (if lp_posted l = [] then Some (l\<lparr>lp_post_closed := True\<rparr>)
      else do {
        l1 \<leftarrow> run_batch cl (lp_posted l) (l\<lparr>lp_posted := []\<rparr>);
        l2 \<leftarrow> drain_ready cl l1;
        Loop_DrainPostedAndClose cl l2
      })"

section \<open>The loop\<close>

partial_function (option) Run_loop :: "client \<Rightarrow> Loop \<Rightarrow> Loop option" where
  "Run_loop cl l =
     (if lp_state l \<noteq> kRunning then Some l
      else do {
        (completed, l1) \<leftarrow> Loop_PollCompletions cl l;
        case completed of
          Inl _ \<Rightarrow> Some (Loop_RequestStop l1)
        | Inr count \<Rightarrow>
            if lp_state l1 \<noteq> kRunning then Some l1
            else do {
              l2 \<leftarrow> Loop_RunReady cl l1;
              if count = 0 \<and> \<not> HasReadyWork l2 \<and> lp_inflight l2 > 0 then do {
                (completed, l3) \<leftarrow> Loop_WaitCompletionsFor cl l2;
                if (case completed of Inl e \<Rightarrow> e \<noteq> ETIME | Inr _ \<Rightarrow> False) then Some (Loop_RequestStop l3)
                else Run_loop cl l3
              } else Run_loop cl l2
            }
      })"

definition Run_body :: "client \<Rightarrow> bool \<Rightarrow> Loop \<Rightarrow> Loop option" where
  "Run_body cl token_stopped l = do {
     let l1 = (if token_stopped then Loop_RequestStop l else l);
     l2 \<leftarrow> Loop_RunPosted cl l1;
     l3 \<leftarrow> Run_loop cl l2;
     l4 \<leftarrow> (if lp_state l3 = kStopping then do {
              l4 \<leftarrow> Loop_BeginShutdown cl l3;
              l5 \<leftarrow> Loop_DrainStoppedOperations cl l4;
              Loop_calls (cl_discard cl l5) l5
            } else Some l3);
     l6 \<leftarrow> Loop_DrainPostedAndClose cl l4;
     Some (l6\<lparr>lp_state := kStopped\<rparr>)
   }"

definition Loop_Run :: "client \<Rightarrow> bool \<Rightarrow> Loop \<Rightarrow> Loop option" where
  "Loop_Run cl token_stopped l = do {
     check (Loop_IsInLoopThread l);
     if \<not> lp_initialized l then Some l
     else if lp_state l = kCreated then in_scope (Run_body cl token_stopped) (l\<lparr>lp_state := kRunning\<rparr>)
     else if lp_state l \<noteq> kStopping then Some l
     else in_scope (Run_body cl token_stopped) l
   }"

text \<open>The constructor, and the initialization with the answers of ring setup and eventfd.\<close>

definition Loop_new :: "addr \<Rightarrow> addr \<Rightarrow> addr \<Rightarrow> addr \<Rightarrow> addr \<Rightarrow> ThreadContext \<Rightarrow> (nat \<Rightarrow> answer) \<Rightarrow> Loop" where
  "Loop_new self frame_resource standard wake_op cancel_all_op context answers =
     \<lparr>lp_scheduler = \<lparr>sd_self = self, sd_frame_resource = frame_resource\<rparr>, lp_thread_loop = self,
      lp_standard_resource = standard, lp_context = context,
      lp_ring = \<lparr>rg_entries = 0, rg_sq = [], rg_cq = [], rg_kernel = []\<rparr>,
      lp_ops = (\<lambda>a. Op_new (if a = wake_op then kWake else if a = cancel_all_op then kCancelAll else kNone)),
      lp_ready = [], lp_completion_ready = [], lp_initialized = False, lp_pending_submit = 0, lp_inflight = 0,
      lp_state = kCreated, lp_registry = [], lp_shutdown_started = False, lp_wake_fd = -1, lp_posted = [],
      lp_post_closed = False, lp_wake_pending = False, lp_wake_inflight = False, lp_wake_op = wake_op,
      lp_cancel_all_pending = False, lp_cancel_all_op = cancel_all_op, lp_defer_task_run = False,
      lp_answers = answers, lp_calls = 0, lp_accepted = [], lp_ran = [], lp_executed = []\<rparr>"

definition Loop_Init :: "nat result \<Rightarrow> int \<Rightarrow> bool \<Rightarrow> Loop \<Rightarrow> (unit result \<times> Loop) option" where
  "Loop_Init ring eventfd deferred l = do {
     check (Loop_IsInLoopThread l);
     if lp_initialized l then Some (Err EALREADY, l)
     else case ring of
       Inl e \<Rightarrow> Some (Err e, l)
     | Inr entries \<Rightarrow> do {
         let l1 = l\<lparr>lp_ring := \<lparr>rg_entries = entries, rg_sq = [], rg_cq = [], rg_kernel = []\<rparr>, lp_wake_fd := eventfd\<rparr>;
         if eventfd < 0 then Some (Err (- eventfd), l1)
         else do {
           let l2 = l1\<lparr>lp_pending_submit := 0, lp_inflight := 0, lp_wake_pending := False, lp_wake_inflight := False,
             lp_cancel_all_pending := False, lp_defer_task_run := deferred\<rparr>;
           let l3 = set_op (lp_cancel_all_op l2) (Op_BeginNextRequest (op_at l2 (lp_cancel_all_op l2))) l2;
           (armed, l4) \<leftarrow> Loop_ArmWakePoll (l3\<lparr>lp_initialized := True\<rparr>);
           case armed of
             Inl e \<Rightarrow> Some (Err e, l4\<lparr>lp_initialized := False, lp_wake_fd := -1\<rparr>)
           | Inr _ \<Rightarrow> Some (Ok (), l4)
         }
       }
   }"

definition Loop_destroy :: "Loop \<Rightarrow> unit option" where
  "Loop_destroy l = do {
     check (Loop_IsInLoopThread l);
     check (lp_initialized l \<longrightarrow> IsDrained l);
     check (lp_registry l = [])
   }"

end
