(* ===== verification/Uring_Loop_Inv.thy ===== *)
theory Uring_Loop_Inv
  imports Uring_Loop "HOL-Library.Multiset"
begin

text \<open>
  The accounting of the io_uring dispatcher. Every request is prepared, in the kernel, or has its last
  completion waiting in the ring; the two counters of the loop agree with these places at every point,
  also while completion handlers submit further requests; posted callbacks run in the order in which they
  were accepted. One preservation lemma per operation leads to the properties of \<^verbatim>\<open>Run\<close>.
\<close>

section \<open>The accounting invariant\<close>

definition completed_cq :: "Ring \<Rightarrow> addr list" where
  "completed_cq g = map cqe_data (filter terminal (rg_cq g))"

text \<open>Every request that is prepared, in the kernel, or has its last completion waiting.\<close>

definition outstanding :: "Loop \<Rightarrow> addr list" where
  "outstanding l = rg_sq (lp_ring l) @ rg_kernel (lp_ring l) @ completed_cq (lp_ring l)"

definition single_shot :: "Loop \<Rightarrow> addr \<Rightarrow> bool" where
  "single_shot l a \<longleftrightarrow> CompletionModelFor (op_kind (op_at l a)) = kSingleShot"

definition internal_ops :: "Loop \<Rightarrow> bool" where
  "internal_ops l \<longleftrightarrow> lp_wake_op l \<noteq> nullptr \<and> lp_cancel_all_op l \<noteq> nullptr \<and> lp_wake_op l \<noteq> lp_cancel_all_op l \<and>
     op_kind (op_at l (lp_wake_op l)) = kWake \<and> op_kind (op_at l (lp_cancel_all_op l)) = kCancelAll"

definition requests_ok :: "Loop \<Rightarrow> bool" where
  "requests_ok l \<longleftrightarrow> distinct (outstanding l) \<and> nullptr \<notin> set (outstanding l) \<and>
     (\<forall>c \<in> set (rg_cq (lp_ring l)). cqe_data c \<noteq> nullptr \<and> (single_shot l (cqe_data c) \<longrightarrow> terminal c)) \<and>
     (\<forall>a \<in> set (outstanding l). a \<noteq> lp_wake_op l \<and> a \<noteq> lp_cancel_all_op l \<and> single_shot l a \<longrightarrow>
        \<not> Op_CqeCompletionRecorded (op_at l a)) \<and>
     (lp_cancel_all_op l \<in> set (outstanding l) \<longrightarrow> lp_cancel_all_pending l)"

definition wake_ok :: "nat \<Rightarrow> Loop \<Rightarrow> bool" where
  "wake_ok k l \<longleftrightarrow>
     (lp_wake_op l \<in> set (outstanding l) \<longleftrightarrow> lp_wake_pending l \<or> lp_wake_inflight l) \<and>
     \<not> (lp_wake_pending l \<and> lp_wake_inflight l) \<and>
     (k = 0 \<and> lp_wake_pending l \<longrightarrow> lp_wake_op l \<in> set (rg_sq (lp_ring l)))"

datatype progress = Progress (pg_batch: "nat list") (pg_states: "LoopState set")

definition posts_ok :: "progress \<Rightarrow> Loop \<Rightarrow> bool" where
  "posts_ok b l \<longleftrightarrow> lp_accepted l = lp_ran l @ pg_batch b @ lp_posted l \<and> (lp_post_closed l \<longrightarrow> lp_posted l = []) \<and>
     kStopping \<in> pg_states b \<and> lp_state l \<in> pg_states b"

text \<open>
  \<open>d\<close> is one while a request's last completion is being handled and the count not yet lowered, \<open>k\<close> the requests
  the kernel took and the loop did not yet count, \<open>b\<close> the rest of the batch of
  posted callbacks being run together with the states
  the loop can be in at this point.
\<close>

definition counts_ok :: "nat \<Rightarrow> nat \<Rightarrow> Loop \<Rightarrow> bool" where
  "counts_ok d k l \<longleftrightarrow>
     lp_pending_submit l = length (rg_sq (lp_ring l)) + k \<and>
     lp_inflight l + k = length (rg_kernel (lp_ring l)) + length (completed_cq (lp_ring l)) + d"

definition loop_inv :: "nat \<Rightarrow> nat \<Rightarrow> progress \<Rightarrow> Loop \<Rightarrow> bool" where
  "loop_inv d k b l \<longleftrightarrow> counts_ok d k l \<and> requests_ok l \<and> internal_ops l \<and> posts_ok b l"

definition loop_ok :: "nat \<Rightarrow> nat \<Rightarrow> progress \<Rightarrow> Loop \<Rightarrow> bool" where
  "loop_ok d k b l \<longleftrightarrow> loop_inv d k b l \<and> wake_ok k l"

lemmas loop_ok_defs = loop_ok_def loop_inv_def counts_ok_def requests_ok_def wake_ok_def internal_ops_def posts_ok_def
  outstanding_def completed_cq_def single_shot_def

lemma quiet_ok: "quiet l l' \<Longrightarrow> loop_ok d k b l \<Longrightarrow> loop_ok d k b l'"
  by (elim quietE) (auto simp: loop_ok_defs)

text \<open>What submitting leaves alone; requests only move between the three places.\<close>

definition flush_frame :: "Loop \<Rightarrow> Loop \<Rightarrow> bool" where
  "flush_frame l l' \<longleftrightarrow> lp_ops l' = lp_ops l \<and> set (outstanding l') = set (outstanding l) \<and>
     lp_wake_op l' = lp_wake_op l \<and> lp_cancel_all_op l' = lp_cancel_all_op l \<and>
     lp_cancel_all_pending l' = lp_cancel_all_pending l \<and> lp_scheduler l' = lp_scheduler l \<and>
     lp_thread_loop l' = lp_thread_loop l \<and> lp_ran l' = lp_ran l \<and>
     (lp_state l = kStopping \<longrightarrow> lp_state l' = kStopping)"

lemma flush_frame_refl: "flush_frame l l"
  by (simp add: flush_frame_def)

lemma flush_frame_trans: "flush_frame l m \<Longrightarrow> flush_frame m n \<Longrightarrow> flush_frame l n"
  by (simp add: flush_frame_def)

lemma quiet_frame: "quiet l l' \<Longrightarrow> flush_frame l l'"
  by (elim quietE) (auto simp: flush_frame_def outstanding_def)

lemma kernel_post_outstanding:
  assumes "requests_ok l"
  shows "mset (outstanding (kernel_post c l)) = mset (outstanding l)"
  by (auto simp: kernel_post_def kernel_may_post_def outstanding_def completed_cq_def Let_def)

lemma mset_distinct: "mset xs = mset ys \<Longrightarrow> distinct xs = distinct ys"
  by (rule mset_eq_imp_distinct_iff)

lemma kernel_post_ok:
  assumes "loop_ok d k b l"
  shows "loop_ok d k b (kernel_post c l) \<and> flush_frame l (kernel_post c l)"
proof (cases "kernel_may_post l c")
  case True
  let ?l = "kernel_post c l"
  have r: "requests_ok l" using assms by (simp add: loop_ok_def loop_inv_def)
  have m: "mset (outstanding ?l) = mset (outstanding l)" by (rule kernel_post_outstanding [OF r])
  then have s: "set (outstanding ?l) = set (outstanding l)" "distinct (outstanding ?l) = distinct (outstanding l)"
    using mset_eq_setD mset_distinct by blast+
  have f: "lp_ops ?l = lp_ops l" "lp_wake_op ?l = lp_wake_op l" "lp_cancel_all_op ?l = lp_cancel_all_op l"
    "lp_cancel_all_pending ?l = lp_cancel_all_pending l" "rg_sq (lp_ring ?l) = rg_sq (lp_ring l)"
    "rg_cq (lp_ring ?l) = rg_cq (lp_ring l) @ [c]" "lp_scheduler ?l = lp_scheduler l" "lp_thread_loop ?l = lp_thread_loop l"
    "lp_ran ?l = lp_ran l" "lp_posted ?l = lp_posted l" "lp_accepted ?l = lp_accepted l" "lp_post_closed ?l = lp_post_closed l"
    "lp_wake_pending ?l = lp_wake_pending l" "lp_wake_inflight ?l = lp_wake_inflight l"
    "lp_pending_submit ?l = lp_pending_submit l" "lp_inflight ?l = lp_inflight l" "lp_state ?l = lp_state l"
    using True by (simp_all add: kernel_post_def Let_def)
  have k: "cqe_data c \<in> set (rg_kernel (lp_ring l))" "single_shot l (cqe_data c) \<Longrightarrow> terminal c"
    using True by (simp_all add: kernel_may_post_def single_shot_def)
  then have k0: "cqe_data c \<noteq> nullptr" using r by (auto simp: requests_ok_def outstanding_def)
  have len: "length (rg_kernel (lp_ring ?l)) + length (completed_cq (lp_ring ?l)) =
      length (rg_kernel (lp_ring l)) + length (completed_cq (lp_ring l))"
    using arg_cong [OF m, of size] f(5) by (simp add: outstanding_def)
  have "requests_ok ?l" using r k k0 unfolding requests_ok_def s single_shot_def f by auto
  then show ?thesis using assms s len
    unfolding loop_ok_def loop_inv_def counts_ok_def wake_ok_def internal_ops_def posts_ok_def flush_frame_def f by simp
qed (use assms in \<open>simp add: kernel_post_def flush_frame_refl\<close>)

lemma kernel_posts_ok:
  "loop_ok d k b l \<Longrightarrow> loop_ok d k b (fold kernel_post cs l) \<and> flush_frame l (fold kernel_post cs l)"
proof (induction cs arbitrary: l)
  case (Cons c cs)
  from kernel_post_ok [OF Cons.prems] have "loop_ok d k b (kernel_post c l)" "flush_frame l (kernel_post c l)" by simp_all
  with Cons.IH [of "kernel_post c l"] flush_frame_trans show ?case by auto
qed (simp add: flush_frame_refl)

lemma kernel_call_ok:
  assumes "kernel_call l = (ret, l')" "loop_ok d k b l"
  shows "loop_ok d k b l' \<and> flush_frame l l'"
proof -
  let ?l1 = "l\<lparr>lp_calls := Suc (lp_calls l)\<rparr>"
  let ?l2 = "fold kernel_post (an_cqes (lp_answers l (lp_calls l))) ?l1"
  have q: "quiet l ?l1" by (rule quiet_calls)
  have p: "loop_ok d k b ?l2" "flush_frame ?l1 ?l2" using kernel_posts_ok [OF quiet_ok [OF q assms(2)]] by simp_all
  have l': "l' = thread_calls (an_threads (lp_answers l (lp_calls l))) ?l2"
    using assms(1) by (auto simp: kernel_call_def take_answer_def)
  have t: "quiet ?l2 l'" unfolding l' by (rule quiet_threads)
  show ?thesis
    using quiet_ok [OF t p(1)] flush_frame_trans [OF quiet_frame [OF q] flush_frame_trans [OF p(2) quiet_frame [OF t]]] by simp
qed

section \<open>Submission\<close>

definition take_submissions :: "nat \<Rightarrow> Loop \<Rightarrow> Loop" where
  "take_submissions n l = (let g = lp_ring l in
     l\<lparr>lp_ring := g\<lparr>rg_sq := drop n (rg_sq g), rg_kernel := rg_kernel g @ take n (rg_sq g)\<rparr>\<rparr>)"

lemma take_submissions_ok:
  assumes "loop_ok d 0 b l"
  shows "loop_ok d (min n (length (rg_sq (lp_ring l)))) b (take_submissions n l) \<and> flush_frame l (take_submissions n l)"
proof -
  let ?l = "take_submissions n l"
  have "mset (rg_sq (lp_ring l)) = mset (take n (rg_sq (lp_ring l))) + mset (drop n (rg_sq (lp_ring l)))"
    by (metis append_take_drop_id mset_append)
  then have m: "mset (outstanding ?l) = mset (outstanding l)"
    by (simp add: outstanding_def completed_cq_def take_submissions_def Let_def)
  then have s: "set (outstanding ?l) = set (outstanding l)" "distinct (outstanding ?l) = distinct (outstanding l)"
    using mset_eq_setD mset_distinct by blast+
  have z: "min n (length (rg_sq (lp_ring l))) = 0 \<Longrightarrow> rg_sq (lp_ring ?l) = rg_sq (lp_ring l)"
    by (auto simp: take_submissions_def Let_def min_def split: if_splits)
  have len: "length (rg_sq (lp_ring ?l)) + min n (length (rg_sq (lp_ring l))) = length (rg_sq (lp_ring l))"
    "length (rg_kernel (lp_ring ?l)) = length (rg_kernel (lp_ring l)) + min n (length (rg_sq (lp_ring l)))"
    by (simp_all add: take_submissions_def Let_def min_def)
  have f: "lp_ops ?l = lp_ops l" "lp_wake_op ?l = lp_wake_op l" "lp_cancel_all_op ?l = lp_cancel_all_op l"
    "lp_cancel_all_pending ?l = lp_cancel_all_pending l" "completed_cq (lp_ring ?l) = completed_cq (lp_ring l)"
    "rg_cq (lp_ring ?l) = rg_cq (lp_ring l)" "lp_scheduler ?l = lp_scheduler l" "lp_thread_loop ?l = lp_thread_loop l"
    "lp_ran ?l = lp_ran l" "lp_posted ?l = lp_posted l" "lp_accepted ?l = lp_accepted l" "lp_post_closed ?l = lp_post_closed l"
    "lp_wake_pending ?l = lp_wake_pending l" "lp_wake_inflight ?l = lp_wake_inflight l"
    "lp_pending_submit ?l = lp_pending_submit l" "lp_inflight ?l = lp_inflight l" "lp_state ?l = lp_state l"
    by (simp_all add: take_submissions_def Let_def completed_cq_def)
  have r: "requests_ok ?l" using assms unfolding loop_ok_def loop_inv_def requests_ok_def s single_shot_def f by auto
  have w: "wake_ok (min n (length (rg_sq (lp_ring l)))) ?l"
    using assms z unfolding loop_ok_def wake_ok_def s f by auto
  have c: "counts_ok d (min n (length (rg_sq (lp_ring l)))) ?l"
    using assms len unfolding loop_ok_def loop_inv_def counts_ok_def f by linarith
  show ?thesis using assms r w c s unfolding loop_ok_def loop_inv_def internal_ops_def posts_ok_def flush_frame_def f by simp
qed

lemma Ring_Submit_ok:
  assumes "Ring_Submit l = (r, l1)" "loop_ok d 0 b l"
  obtains n where "loop_ok d (min n (length (rg_sq (lp_ring l)))) b l1" "flush_frame l l1" "n = (case r of Inl _ \<Rightarrow> 0 | Inr s \<Rightarrow> s)"
proof -
  let ?n = "nat (an_ret (lp_answers l (lp_calls l)))"
  obtain ret l2 where k: "kernel_call (take_submissions ?n l) = (ret, l2)" by fastforce
  have "ret = an_ret (lp_answers l (lp_calls l))"
    using k by (auto simp: kernel_call_def take_answer_def take_submissions_def Let_def)
  moreover have "r = (if ret < 0 then Inl (- ret) else Inr (nat ret)) \<and> l1 = l2"
    using assms(1) k by (auto simp: Ring_Submit_def take_answer_def take_submissions_def Let_def split: if_splits)
  ultimately have "?n = (case r of Inl _ \<Rightarrow> 0 | Inr s \<Rightarrow> s)" "l1 = l2" by auto
  moreover note take_submissions_ok [OF assms(2), of ?n]
  ultimately show ?thesis
    using that [of ?n] kernel_call_ok [OF k] flush_frame_trans by blast
qed

definition count_submitted :: "nat \<Rightarrow> Loop \<Rightarrow> Loop" where
  "count_submitted n l =
     (let l2 = l\<lparr>lp_pending_submit := lp_pending_submit l - n, lp_inflight := lp_inflight l + n\<rparr>
      in if lp_wake_pending l2 \<and> n > 0 then l2\<lparr>lp_wake_pending := False, lp_wake_inflight := True\<rparr> else l2)"

lemma count_submitted_ok:
  assumes "loop_ok d k b l" "k > 0"
  shows "loop_ok d 0 b (count_submitted k l) \<and> flush_frame l (count_submitted k l)"
  using assms by (auto simp: count_submitted_def Let_def loop_ok_defs flush_frame_def)

lemma FlushSubmit_ok:
  assumes "FlushSubmit_loop l = (r, l')" "loop_ok d 0 b l"
  shows "loop_ok d 0 b l' \<and> flush_frame l l' \<and> (r = Inr () \<longrightarrow> lp_pending_submit l' = 0)"
  using assms
proof (induction "lp_pending_submit l" arbitrary: l rule: less_induct)
  case less
  note 1 = less(1) less(2) less(3)
  show ?case
  proof (cases "lp_pending_submit l > 0")
    case False
    with 1 show ?thesis by (simp add: FlushSubmit_loop.simps [of l] flush_frame_refl)
  next
    case p: True
    obtain s l1 where sub: "Ring_Submit l = (s, l1)" by fastforce
    from Ring_Submit_ok [OF sub 1(3)] obtain n where n: "loop_ok d (min n (length (rg_sq (lp_ring l)))) b l1"
      "flush_frame l l1" "n = (case s of Inl _ \<Rightarrow> 0 | Inr s \<Rightarrow> s)" by blast
    have len: "lp_pending_submit l = length (rg_sq (lp_ring l))" using 1(3) by (simp add: loop_ok_def loop_inv_def counts_ok_def)
    show ?thesis
    proof (cases "n = 0")
      case True
      then have "FlushSubmit_loop l = (case s of Inl e \<Rightarrow> Inl e | Inr _ \<Rightarrow> Inl EAGAIN, l1)"
        using p sub n(3) by (simp add: FlushSubmit_loop.simps [of l] split: sum.splits)
      with 1(2) n True show ?thesis by (auto split: sum.splits)
    next
      case False
      then have s: "s = Inr n" using n(3) by (cases s) auto
      let ?k = "min n (lp_pending_submit l1)"
      have k: "?k = min n (length (rg_sq (lp_ring l)))" using Submit_pending [OF sub] len by simp
      have k0: "?k > 0" using k False p len by simp
      from count_submitted_ok [OF n(1) [folded k] k0] have c: "loop_ok d 0 b (count_submitted ?k l1)" "flush_frame l1 (count_submitted ?k l1)" by simp_all
      have "FlushSubmit_loop l = FlushSubmit_loop (count_submitted ?k l1)"
        by (subst FlushSubmit_loop.simps) (simp only: p sub s False count_submitted_def Let_def prod.case sum.case if_True if_False)
      with 1(2) have run: "FlushSubmit_loop (count_submitted ?k l1) = (r, l')" by simp
      have "loop_ok d 0 b l' \<and> flush_frame (count_submitted ?k l1) l' \<and> (r = Inr () \<longrightarrow> lp_pending_submit l' = 0)"
      proof (rule less(1) [OF _ run c(1)])
        show "lp_pending_submit (count_submitted ?k l1) < lp_pending_submit l"
          using k0 p Submit_pending [OF sub] by (simp add: count_submitted_def Let_def)
      qed
      then show ?thesis using flush_frame_trans [OF n(2) flush_frame_trans [OF c(2)]] by blast
    qed
  qed
qed

lemma loop_ok_indep [simp]:
  "loop_ok d k b (l\<lparr>lp_ready := x\<rparr>) = loop_ok d k b l"
  "loop_ok d k b (l\<lparr>lp_completion_ready := x\<rparr>) = loop_ok d k b l"
  "loop_ok d k b (l\<lparr>lp_registry := x\<rparr>) = loop_ok d k b l"
  "loop_ok d k b (l\<lparr>lp_context := ctx\<rparr>) = loop_ok d k b l"
  "loop_ok d k b (l\<lparr>lp_executed := ex\<rparr>) = loop_ok d k b l"
  "loop_ok d k b (l\<lparr>lp_shutdown_started := f\<rparr>) = loop_ok d k b l"
  "loop_ok d k b (l\<lparr>lp_calls := n\<rparr>) = loop_ok d k b l"
  by (simp_all add: loop_ok_defs)

definition prepare :: "addr \<Rightarrow> Loop \<Rightarrow> Loop" where
  "prepare a l = l\<lparr>lp_ring := (lp_ring l)\<lparr>rg_sq := rg_sq (lp_ring l) @ [a]\<rparr>,
     lp_pending_submit := lp_pending_submit l + 1\<rparr>"

lemma SubmitOp_cases:
  assumes "Loop_SubmitOp a l = Some (r, l')" "loop_ok d 0 b l"
  obtains (refused) e where "r = Inl e" "loop_ok d 0 b l'" "flush_frame l l'"
    | (prepared) l1 where "r = Inr ()" "a \<noteq> nullptr" "loop_ok d 0 b l1" "flush_frame l l1" "l' = prepare a l1"
proof (cases "Ring_GetSqe (lp_ring l)")
  case True
  with assms that flush_frame_refl [of l] show ?thesis
    by (auto simp: Loop_SubmitOp_def prepare_def Let_def split: if_splits)
next
  case False
  obtain f l1 where f: "FlushSubmit_loop l = (f, l1)" by fastforce
  note ok = FlushSubmit_ok [OF f assms(2)]
  from assms(1) False f consider "\<exists>e. r = Inl e" "l' = l" | "\<exists>e. r = Inl e" "l' = l1" | "r = Inr ()" "a \<noteq> nullptr" "l' = prepare a l1"
    by (auto simp: Loop_SubmitOp_def Loop_FlushSubmit_def prepare_def Let_def split: if_splits sum.splits)
  then show ?thesis using that ok assms(2) flush_frame_refl [of l] by cases auto
qed

lemma prepare_fields [simp]:
  "outstanding (prepare a l) = rg_sq (lp_ring l) @ a # rg_kernel (lp_ring l) @ completed_cq (lp_ring l)"
  "lp_ops (prepare a l) = lp_ops l" "lp_wake_op (prepare a l) = lp_wake_op l" "lp_cancel_all_op (prepare a l) = lp_cancel_all_op l"
  by (simp_all add: prepare_def outstanding_def completed_cq_def)

lemma prepare_inv:
  assumes "loop_inv d 0 b l" "a \<noteq> nullptr" "a \<notin> set (outstanding l)"
    and "a \<noteq> lp_wake_op l \<Longrightarrow> a \<noteq> lp_cancel_all_op l \<Longrightarrow> single_shot l a \<Longrightarrow> \<not> Op_CqeCompletionRecorded (op_at l a)"
    and "a = lp_cancel_all_op l \<Longrightarrow> lp_cancel_all_pending l"
  shows "loop_inv d 0 b (prepare a l)"
proof -
  have "requests_ok (prepare a l)"
    using assms unfolding loop_inv_def requests_ok_def
    by (auto simp: single_shot_def outstanding_def prepare_def completed_cq_def)
  then show ?thesis using assms(1)
    by (simp add: loop_inv_def counts_ok_def internal_ops_def posts_ok_def prepare_def completed_cq_def)
qed

lemma prepare_ok:
  assumes "loop_ok d 0 b l" "a \<noteq> nullptr" "a \<notin> set (outstanding l)" "a \<noteq> lp_wake_op l" "a \<noteq> lp_cancel_all_op l"
    and "single_shot l a \<Longrightarrow> \<not> Op_CqeCompletionRecorded (op_at l a)"
  shows "loop_ok d 0 b (prepare a l)"
proof -
  have "wake_ok 0 (prepare a l)"
    using assms(1,4) by (auto simp: loop_ok_def wake_ok_def prepare_def outstanding_def completed_cq_def)
  moreover have "loop_inv d 0 b (prepare a l)" using assms by (intro prepare_inv) (auto simp: loop_ok_def)
  ultimately show ?thesis by (simp add: loop_ok_def)
qed

lemma set_op_ok:
  assumes "loop_ok d k b l" "op_kind op = op_kind (op_at l a)"
    and "a \<in> set (outstanding l) \<Longrightarrow> a \<noteq> lp_wake_op l \<Longrightarrow> a \<noteq> lp_cancel_all_op l \<Longrightarrow> single_shot l a \<Longrightarrow>
      \<not> Op_CqeCompletionRecorded op"
  shows "loop_ok d k b (set_op a op l)"
proof -
  have f: "outstanding (set_op a op l) = outstanding l" by (simp add: set_op_def outstanding_def)
  have s: "single_shot (set_op a op l) = single_shot l" using assms(2) by (intro ext) (simp add: single_shot_def set_op_def)
  have "requests_ok (set_op a op l)"
    using assms unfolding loop_ok_def loop_inv_def requests_ok_def f s by (auto simp: set_op_def)
  then show ?thesis using assms(1,2) unfolding loop_ok_def loop_inv_def wake_ok_def f
    by (auto simp: set_op_def counts_ok_def internal_ops_def posts_ok_def)
qed

lemma set_op_fields [simp]:
  "outstanding (set_op a op l) = outstanding l" "lp_wake_op (set_op a op l) = lp_wake_op l"
  "lp_cancel_all_op (set_op a op l) = lp_cancel_all_op l" "op_at (set_op a op l) a = op"
  "lp_wake_pending (set_op a op l) = lp_wake_pending l" "lp_wake_inflight (set_op a op l) = lp_wake_inflight l"
  "lp_cancel_all_pending (set_op a op l) = lp_cancel_all_pending l"
  by (simp_all add: set_op_def outstanding_def)

section \<open>Client calls\<close>

text \<open>
  What the components that use the loop keep to. A request is submitted only while it is not outstanding and,
  for the single-shot kinds, with an open completion slot; the completion slot of an outstanding request is
  left to the loop; the loop's own two operations are not touched.
\<close>

fun call_ok :: "loop_call \<Rightarrow> Loop \<Rightarrow> bool" where
  "call_ok (LC_Submit a) l \<longleftrightarrow> a \<noteq> lp_wake_op l \<and> a \<noteq> lp_cancel_all_op l \<and> a \<notin> set (outstanding l) \<and>
     (single_shot l a \<longrightarrow> \<not> Op_CqeCompletionRecorded (op_at l a))"
| "call_ok (LC_Op a act) l \<longleftrightarrow> a \<noteq> lp_wake_op l \<and> a \<noteq> lp_cancel_all_op l \<and>
     (a \<in> set (outstanding l) \<and> single_shot l a \<longrightarrow> (case act of OA_Record _ \<Rightarrow> False | OA_Mark \<Rightarrow> False | _ \<Rightarrow> True))"
| "call_ok _ l \<longleftrightarrow> True"

fun calls_ok :: "loop_call list \<Rightarrow> Loop \<Rightarrow> bool" where
  "calls_ok [] l \<longleftrightarrow> True"
| "calls_ok (c # cs) l \<longleftrightarrow> call_ok c l \<and> (case Loop_call c l of None \<Rightarrow> True | Some l1 \<Rightarrow> calls_ok cs l1)"

lemma op_step_slot:
  assumes "op_step act op = Some (r, op1)" "case act of OA_Record _ \<Rightarrow> False | OA_Mark \<Rightarrow> False | _ \<Rightarrow> True"
    and "\<not> Op_CqeCompletionRecorded op"
  shows "\<not> Op_CqeCompletionRecorded op1"
  using assms by (cases act) (auto simp: Op_all_defs Let_def split: if_splits prod.splits)

lemma call_submit_ok:
  assumes "call_ok (LC_Submit a) l" "Loop_SubmitOp a l = Some (r, l')" "loop_ok d 0 b l"
  shows "loop_ok d 0 b l'"
  using assms(2,3)
proof (cases rule: SubmitOp_cases)
  case (prepared l1)
  then show ?thesis using assms(1) unfolding prepared
    by (intro prepare_ok) (auto simp: flush_frame_def single_shot_def)
qed

lemma call_preserves:
  assumes "call_ok c l" "Loop_call c l = Some l'" "loop_ok d 0 b l"
  shows "loop_ok d 0 b l'"
proof (cases c)
  case (LC_Submit a)
  then show ?thesis using assms call_submit_ok by (auto simp del: call_ok.simps)
next
  case (LC_Post callback)
  then show ?thesis using assms quiet_ok [OF quiet_Post] by auto
next
  case LC_RequestStop
  then show ?thesis using assms quiet_ok [OF quiet_RequestStop] by auto
next
  case (LC_Op a act)
  then obtain r op where s: "op_step act (op_at l a) = Some (r, op)" "l' = set_op a op l"
    using assms(2) by (auto split: bind_splits)
  show ?thesis unfolding s(2)
  proof (rule set_op_ok [OF assms(3) op_step_kind [OF s(1)]])
    assume a: "a \<in> set (outstanding l)" "a \<noteq> lp_wake_op l" "a \<noteq> lp_cancel_all_op l" "single_shot l a"
    then have "\<not> Op_CqeCompletionRecorded (op_at l a)" using assms(3) by (auto simp: loop_ok_def loop_inv_def requests_ok_def)
    then show "\<not> Op_CqeCompletionRecorded op" using op_step_slot [OF s(1)] assms(1) a LC_Op by auto
  qed
next
  case (LC_SetHandle a h)
  then obtain w where w: "l' = set_op a ((op_at l a)\<lparr>op_resume_work := w\<rparr>) l" using assms(2) by (auto split: bind_splits)
  show ?thesis unfolding w
    by (rule set_op_ok [OF assms(3)])
      (use assms(3) in \<open>auto simp: loop_ok_def loop_inv_def requests_ok_def Op_CqeCompletionRecorded_def\<close>)
next
  case (LC_Schedule w)
  then show ?thesis using assms by (auto simp: Loop_Schedule_def)
next
  case (LC_ScheduleCompletion w)
  then show ?thesis using assms by (auto simp: Loop_ScheduleCompletion_def)
next
  case (LC_Register p)
  then show ?thesis using assms by (auto simp: Loop_RegisterShutdownParticipant_def)
next
  case (LC_Unregister p)
  then show ?thesis using assms by (auto simp: Loop_UnregisterShutdownParticipant_def)
qed

lemma calls_preserve:
  "calls_ok cs l \<Longrightarrow> Loop_calls cs l = Some l' \<Longrightarrow> loop_ok d 0 b l \<Longrightarrow> loop_ok d 0 b l'"
proof (induction cs arbitrary: l)
  case (Cons c cs)
  then obtain l1 where "Loop_call c l = Some l1" "Loop_calls cs l1 = Some l'" by (auto split: bind_splits)
  with Cons call_preserves [of c l l1] show ?case by auto
qed simp

text \<open>The calls of a client neither arm nor complete the wake poll.\<close>

definition wake_frame :: "Loop \<Rightarrow> Loop \<Rightarrow> bool" where
  "wake_frame l l' \<longleftrightarrow> lp_wake_op l' = lp_wake_op l \<and>
     (lp_wake_op l \<in> set (outstanding l') \<longleftrightarrow> lp_wake_op l \<in> set (outstanding l))"

lemma flush_wake_frame: "flush_frame l l' \<Longrightarrow> wake_frame l l'"
  by (simp add: flush_frame_def wake_frame_def)

lemma wake_frame_indep [simp]:
  "wake_frame l (l\<lparr>lp_ready := x\<rparr>)" "wake_frame l (l\<lparr>lp_completion_ready := x\<rparr>)" "wake_frame l (l\<lparr>lp_registry := x\<rparr>)"
  "wake_frame l (set_op a op l)" "wake_frame l l"
  by (simp_all add: wake_frame_def outstanding_def set_op_def)

lemma call_wake_frame:
  assumes "call_ok c l" "Loop_call c l = Some l'" "loop_ok d 0 b l"
  shows "wake_frame l l'"
proof (cases c)
  case (LC_Submit a)
  then obtain r where "Loop_SubmitOp a l = Some (r, l')" using assms(2) by auto
  from this assms(3) show ?thesis
  proof (cases rule: SubmitOp_cases)
    case (refused e)
    then show ?thesis by (simp add: flush_wake_frame)
  next
    case (prepared l1)
    have "wake_frame l l1" using prepared(4) by (rule flush_wake_frame)
    moreover have "a \<noteq> lp_wake_op l1" using prepared(4) assms(1) LC_Submit by (simp add: flush_frame_def)
    moreover have "set (outstanding (prepare a l1)) = insert a (set (outstanding l1))" by (auto simp: outstanding_def [of l1])
    ultimately show ?thesis unfolding prepared(5) by (simp add: wake_frame_def)
  qed
next
  case (LC_Post callback)
  then show ?thesis using assms flush_wake_frame [OF quiet_frame [OF quiet_Post]] by auto
next
  case LC_RequestStop
  then show ?thesis using assms flush_wake_frame [OF quiet_frame [OF quiet_RequestStop]] by auto
next
  case (LC_Op a act)
  then show ?thesis using assms(2) by (auto split: bind_splits)
next
  case (LC_SetHandle a h)
  then show ?thesis using assms(2) by (auto split: bind_splits)
qed (use assms in \<open>auto simp: Loop_Schedule_def Loop_ScheduleCompletion_def Loop_RegisterShutdownParticipant_def
    Loop_UnregisterShutdownParticipant_def split: if_splits\<close>)

lemma calls_wake_frame:
  "calls_ok cs l \<Longrightarrow> Loop_calls cs l = Some l' \<Longrightarrow> loop_ok d 0 b l \<Longrightarrow> wake_frame l l'"
proof (induction cs arbitrary: l)
  case (Cons c cs)
  then obtain l1 where l1: "Loop_call c l = Some l1" "Loop_calls cs l1 = Some l'" by (auto split: bind_splits)
  have ok: "call_ok c l" "calls_ok cs l1" using Cons.prems(1) l1(1) by auto
  have "wake_frame l l1" by (rule call_wake_frame [OF ok(1) l1(1) Cons.prems(3)])
  moreover have "wake_frame l1 l'" by (rule Cons.IH [OF ok(2) l1(2) call_preserves [OF ok(1) l1(1) Cons.prems(3)]])
  ultimately show ?case by (simp add: wake_frame_def)
qed (simp add: wake_frame_def)

section \<open>Completions\<close>

text \<open>
  The contract of the client, required only in states of the loop. A handler that returns the disposition
  itself asks to lower the count exactly at the last completion; whoever asks for the continuation to be
  resumed has not submitted the same request again.
\<close>

definition handled_ok :: "addr \<Rightarrow> CompletionEvent \<Rightarrow> CompletionDisposition \<Rightarrow> Loop \<Rightarrow> Loop \<Rightarrow> bool" where
  "handled_ok a event disposition l l1 \<longleftrightarrow>
     (if returns_disposition (op_kind (op_at l a))
      then (decrement_inflight disposition \<longleftrightarrow> \<not> Event_More event) \<and>
        (resume_continuation disposition \<and> single_shot l1 a \<longrightarrow> a \<notin> set (outstanding l1))
      else Work_HasHandle (op_resume_work (op_at l1 a)) \<longrightarrow> a \<notin> set (outstanding l1))"

definition completes_ok :: "client \<Rightarrow> addr \<Rightarrow> CompletionEvent \<Rightarrow> Loop \<Rightarrow> bool" where
  "completes_ok cl a event l \<longleftrightarrow>
     (case cl_complete cl a event l of (calls, disposition) \<Rightarrow> calls_ok calls l \<and>
        (case Loop_calls calls l of None \<Rightarrow> True | Some l1 \<Rightarrow> handled_ok a event disposition l l1))"

definition client_ok :: "client \<Rightarrow> bool" where
  "client_ok cl \<longleftrightarrow> (\<forall>l d b. loop_ok d 0 b l \<longrightarrow>
     (\<forall>w. calls_ok (cl_work cl w l) l) \<and> (\<forall>p. calls_ok (cl_posted cl p l) l) \<and>
     (\<forall>p. calls_ok (cl_participant cl p l) l) \<and> calls_ok (cl_discard cl l) l \<and>
     (\<forall>a event. (\<not> Event_More event \<longrightarrow> a \<notin> set (outstanding l)) \<longrightarrow> (single_shot l a \<longrightarrow> \<not> Event_More event) \<longrightarrow>
        completes_ok cl a event l))"

lemma client_okD:
  assumes "client_ok cl" "loop_ok d 0 b l"
  shows "calls_ok (cl_work cl w l) l" "calls_ok (cl_posted cl p l) l" "calls_ok (cl_participant cl q l) l"
    "calls_ok (cl_discard cl l) l"
    "(\<not> Event_More event \<Longrightarrow> a \<notin> set (outstanding l)) \<Longrightarrow> (single_shot l a \<Longrightarrow> \<not> Event_More event) \<Longrightarrow> completes_ok cl a event l"
  using assms unfolding client_ok_def by blast+

lemma record_kind: "Op_TryRecordCqeCompletion res op = Some (won, op1) \<Longrightarrow> op_kind op1 = op_kind op"
  using op_step_kind [of "OA_Record res"] by simp

lemma resume_ok:
  assumes "resume_after_completion a l = Some l'" "loop_ok d 0 b l"
    and "\<not> (a \<in> set (outstanding l) \<and> a \<noteq> lp_wake_op l \<and> a \<noteq> lp_cancel_all_op l \<and> single_shot l a)"
  shows "loop_ok d 0 b l'"
proof -
  have set: "loop_ok d 0 b (set_op a op m)"
    if "loop_ok d 0 b m" "op_kind op = op_kind (op_at m a)" "op_kind (op_at m a) = op_kind (op_at l a)"
      "outstanding m = outstanding l" "lp_wake_op m = lp_wake_op l" "lp_cancel_all_op m = lp_cancel_all_op l" for m op
    using that assms(3) by (intro set_op_ok) (auto simp: single_shot_def)
  define coupled where "coupled = (if UsesCoupledSingleResultLifecycle (op_kind (op_at l a)) then do {
              (authorized, op) \<leftarrow> Op_TryAuthorizeCoupledContinuation (op_at l a);
              check authorized;
              Some (set_op a op l)
            } else Some l)"
  obtain m where m: "coupled = Some m" using assms(1) unfolding resume_after_completion_def coupled_def [symmetric] by (cases coupled) auto
  have mok: "loop_ok d 0 b m \<and> op_kind (op_at m a) = op_kind (op_at l a) \<and> outstanding m = outstanding l \<and>
      lp_wake_op m = lp_wake_op l \<and> lp_cancel_all_op m = lp_cancel_all_op l"
    using m assms(2) set [OF assms(2)] op_step_kind [of OA_Continuation "op_at l a"]
    by (auto simp: coupled_def split: if_splits bind_splits)
  define g where "g = (if Op_CqeCompletionRecorded (op_at m a) then (True, m)
        else let (won, op) = Op_TryMarkCompletionWithoutCqeResult (op_at m a) in (won, set_op a op m))"
  obtain won n where n: "g = (won, n)" by fastforce
  have nok: "loop_ok d 0 b n"
    using n mok set [of m] op_step_kind [of OA_Mark "op_at m a"] by (auto simp: g_def split: if_splits prod.splits)
  have "(if won \<and> Work_HasHandle (op_resume_work (op_at n a)) then Loop_ScheduleCompletion a n else Some n) = Some l'"
    using assms(1) m n unfolding resume_after_completion_def coupled_def [symmetric] by (simp add: g_def [symmetric])
  then show ?thesis using nok by (auto simp: Loop_ScheduleCompletion_def split: if_splits)
qed

lemma decrement_ok: "loop_ok (Suc d) 0 b l \<Longrightarrow> loop_ok d 0 b (l\<lparr>lp_inflight := lp_inflight l - 1\<rparr>)"
  by (simp add: loop_ok_defs)

lemma apply_disposition_ok:
  assumes "apply_disposition a disposition l = Some l'" "loop_ok (of_bool (decrement_inflight disposition)) 0 b l"
    and "resume_continuation disposition \<Longrightarrow>
      \<not> (a \<in> set (outstanding l) \<and> a \<noteq> lp_wake_op l \<and> a \<noteq> lp_cancel_all_op l \<and> single_shot l a)"
  shows "loop_ok 0 0 b l'"
proof -
  define m where "m = (if decrement_inflight disposition then l\<lparr>lp_inflight := lp_inflight l - 1\<rparr> else l)"
  have m: "loop_ok 0 0 b m" using assms(2) decrement_ok [of 0 b l] by (auto simp: m_def)
  have f: "outstanding m = outstanding l" "lp_wake_op m = lp_wake_op l" "lp_cancel_all_op m = lp_cancel_all_op l"
    "single_shot m = single_shot l" by (auto simp: m_def outstanding_def single_shot_def fun_eq_iff)
  have "(if resume_continuation disposition then resume_after_completion a m else Some m) = Some l'"
    using assms(1) by (auto simp: apply_disposition_def m_def split: if_splits)
  then show ?thesis using resume_ok [OF _ m, of a l'] assms(3) m by (auto simp: f split: if_splits)
qed

lemma dispatch_ok:
  assumes "DispatchCompletion cl a event l = Some (disposition, l')" "loop_ok (of_bool (\<not> Event_More event)) 0 b l" "client_ok cl"
    and "\<not> Event_More event \<Longrightarrow> a \<notin> set (outstanding l)" "single_shot l a \<Longrightarrow> \<not> Event_More event"
  shows "loop_ok (of_bool (decrement_inflight disposition)) 0 b l' \<and>
    (resume_continuation disposition \<longrightarrow> \<not> (a \<in> set (outstanding l') \<and> single_shot l' a)) \<and>
    (\<not> Event_More event \<longrightarrow> decrement_inflight disposition)"
proof -
  obtain calls d0 where c: "cl_complete cl a event l = (calls, d0)" by fastforce
  have "completes_ok cl a event l" by (rule client_okD(5) [OF assms(3,2,4,5)])
  then have co: "calls_ok calls l" "\<And>l1. Loop_calls calls l = Some l1 \<Longrightarrow> handled_ok a event d0 l l1"
    by (auto simp: completes_ok_def c)
  have run: "(if has_handler (op_kind (op_at l a)) then Loop_calls calls l else Some l) = Some l'"
    using assms(1) by (auto simp: DispatchCompletion_def c split: if_splits bind_splits)
  have ok: "loop_ok (of_bool (\<not> Event_More event)) 0 b l'"
    using run calls_preserve [OF co(1) _ assms(2)] assms(2) by (auto split: if_splits)
  have ss: "\<not> returns_disposition (op_kind (op_at l a)) \<Longrightarrow> single_shot l a"
    "returns_disposition (op_kind (op_at l a)) \<Longrightarrow> has_handler (op_kind (op_at l a))"
    by (cases "op_kind (op_at l a)"; simp add: single_shot_def)+
  show ?thesis
  proof (cases "returns_disposition (op_kind (op_at l a))")
    case True
    then have "disposition = d0" "Loop_calls calls l = Some l'" using assms(1) run ss(2) by (auto simp: DispatchCompletion_def c split: bind_splits)
    then show ?thesis using co(2) [of l'] True ok by (auto simp: handled_ok_def)
  next
    case False
    then have d: "decrement_inflight disposition" "resume_continuation disposition = Work_HasHandle (op_resume_work (op_at l' a))"
      using assms(1) by (auto simp: DispatchCompletion_def c split: bind_splits)
    have t: "\<not> Event_More event" using assms(5) ss(1) False by blast
    have "Work_HasHandle (op_resume_work (op_at l' a)) \<longrightarrow> a \<notin> set (outstanding l')"
      using run co(2) [of l'] False assms(4) [OF t] by (auto simp: handled_ok_def split: if_splits)
    then show ?thesis using ok d t by auto
  qed
qed

definition pop_cqe :: "cqe list \<Rightarrow> Loop \<Rightarrow> Loop" where
  "pop_cqe rest l = l\<lparr>lp_ring := (lp_ring l)\<lparr>rg_cq := rest\<rparr>\<rparr>"

lemma pop_outstanding:
  assumes "rg_cq (lp_ring l) = c # rest"
  shows "mset (outstanding l) = (if terminal c then {#cqe_data c#} else {#}) + mset (outstanding (pop_cqe rest l))"
    "length (completed_cq (lp_ring l)) = of_bool (terminal c) + length (completed_cq (lp_ring (pop_cqe rest l)))"
  using assms by (simp_all add: outstanding_def completed_cq_def pop_cqe_def)

lemma pop_fields:
  "lp_ops (pop_cqe rest l) = lp_ops l" "lp_wake_op (pop_cqe rest l) = lp_wake_op l"
  "lp_cancel_all_op (pop_cqe rest l) = lp_cancel_all_op l" "lp_cancel_all_pending (pop_cqe rest l) = lp_cancel_all_pending l"
  "rg_sq (lp_ring (pop_cqe rest l)) = rg_sq (lp_ring l)" "rg_kernel (lp_ring (pop_cqe rest l)) = rg_kernel (lp_ring l)"
  "rg_cq (lp_ring (pop_cqe rest l)) = rest" "lp_pending_submit (pop_cqe rest l) = lp_pending_submit l"
  "lp_inflight (pop_cqe rest l) = lp_inflight l" "single_shot (pop_cqe rest l) = single_shot l"
  "lp_wake_pending (pop_cqe rest l) = lp_wake_pending l" "lp_wake_inflight (pop_cqe rest l) = lp_wake_inflight l"
  "posts_ok b (pop_cqe rest l) = posts_ok b l" "internal_ops (pop_cqe rest l) = internal_ops l"
  by (simp_all add: pop_cqe_def single_shot_def fun_eq_iff posts_ok_def internal_ops_def)

lemma pop_sets:
  assumes "loop_ok 0 0 b l" "rg_cq (lp_ring l) = c # rest"
  shows "distinct (outstanding (pop_cqe rest l))" "terminal c \<Longrightarrow> cqe_data c \<notin> set (outstanding (pop_cqe rest l))"
    "set (outstanding l) = (if terminal c then {cqe_data c} else {}) \<union> set (outstanding (pop_cqe rest l))"
proof -
  have "mset (outstanding l) = mset ((if terminal c then [cqe_data c] else []) @ outstanding (pop_cqe rest l))"
    using pop_outstanding(1) [OF assms(2)] by simp
  from mset_distinct [OF this] mset_eq_setD [OF this] assms(1)
  show "distinct (outstanding (pop_cqe rest l))" "terminal c \<Longrightarrow> cqe_data c \<notin> set (outstanding (pop_cqe rest l))"
    "set (outstanding l) = (if terminal c then {cqe_data c} else {}) \<union> set (outstanding (pop_cqe rest l))"
    by (auto simp: loop_ok_def loop_inv_def requests_ok_def split: if_splits)
qed

lemma pop_inv:
  assumes "loop_ok 0 0 b l" "rg_cq (lp_ring l) = c # rest"
  defines "l0 \<equiv> pop_cqe rest l"
  shows "loop_inv (of_bool (terminal c)) 0 b l0" "terminal c \<Longrightarrow> cqe_data c \<notin> set (outstanding l0)"
    "cqe_data c \<noteq> nullptr" "single_shot l0 (cqe_data c) \<Longrightarrow> terminal c"
    "terminal c \<Longrightarrow> cqe_data c \<noteq> lp_wake_op l0 \<Longrightarrow> cqe_data c \<noteq> lp_cancel_all_op l0 \<Longrightarrow> single_shot l0 (cqe_data c) \<Longrightarrow>
      \<not> Op_CqeCompletionRecorded (op_at l0 (cqe_data c))"
proof -
  have r: "requests_ok l" "counts_ok 0 0 l" "internal_ops l" "posts_ok b l" using assms(1) by (simp_all add: loop_ok_def loop_inv_def)
  note s = pop_sets [OF assms(1,2)]
  have "requests_ok l0" using r(1) s(1) unfolding requests_ok_def l0_def pop_fields s(3) assms(2) by auto
  moreover have "counts_ok (of_bool (terminal c)) 0 l0"
    using r(2) pop_outstanding(2) [OF assms(2)] unfolding counts_ok_def l0_def pop_fields by linarith
  ultimately show "loop_inv (of_bool (terminal c)) 0 b l0" using r(3,4) by (simp add: loop_inv_def l0_def pop_fields)
  show "terminal c \<Longrightarrow> cqe_data c \<notin> set (outstanding l0)" using s(2) by (simp add: l0_def)
  show "cqe_data c \<noteq> nullptr" "single_shot l0 (cqe_data c) \<Longrightarrow> terminal c"
    using r(1) unfolding requests_ok_def assms(2) l0_def pop_fields by auto
  show "\<not> Op_CqeCompletionRecorded (op_at l0 (cqe_data c))" if "terminal c" "cqe_data c \<noteq> lp_wake_op l0"
    "cqe_data c \<noteq> lp_cancel_all_op l0" "single_shot l0 (cqe_data c)"
    using r(1) that unfolding requests_ok_def s(3) l0_def pop_fields by auto
qed

lemma pop_wake:
  assumes "loop_ok 0 0 b l" "rg_cq (lp_ring l) = c # rest"
  defines "l0 \<equiv> pop_cqe rest l"
  shows "cqe_data c \<noteq> lp_wake_op l \<or> \<not> terminal c \<Longrightarrow> wake_ok 0 l0"
    "cqe_data c = lp_wake_op l \<Longrightarrow> terminal c \<and> lp_wake_op l0 \<notin> set (outstanding l0) \<and> \<not> lp_wake_pending l0"
proof -
  have w: "wake_ok 0 l" "requests_ok l" "internal_ops l" using assms(1) by (simp_all add: loop_ok_def loop_inv_def)
  note s = pop_sets [OF assms(1,2)]
  show "wake_ok 0 l0" if "cqe_data c \<noteq> lp_wake_op l \<or> \<not> terminal c"
    using w(1) that unfolding wake_ok_def l0_def pop_fields s(3) by (auto split: if_splits)
  assume c: "cqe_data c = lp_wake_op l"
  have t: "terminal c" using w(2,3) c unfolding requests_ok_def internal_ops_def assms(2) by (auto simp: single_shot_def)
  have "\<not> lp_wake_pending l"
  proof
    assume "lp_wake_pending l"
    then have "lp_wake_op l \<in> set (outstanding l0)" using w(1) by (auto simp: wake_ok_def l0_def outstanding_def pop_fields)
    with s(2) [OF t] c show False by (simp add: l0_def)
  qed
  then show "terminal c \<and> lp_wake_op l0 \<notin> set (outstanding l0) \<and> \<not> lp_wake_pending l0"
    using s(2) [OF t] t c by (simp add: l0_def pop_fields)
qed

lemma DrainWakeFd_quiet: "Loop_DrainWakeFd l = Some l' \<Longrightarrow> quiet l l'"
proof (rule Loop_DrainWakeFd.raw_induct [where P = quiet])
  fix f l l'
  assume ih: "\<And>m m'. f m = Some m' \<Longrightarrow> quiet m m'"
    and eq: "(if lp_wake_fd l < 0 then Some l else let (a, l1) = take_answer l in if an_ret a = 8 then f l1 else Some l1) = Some l'"
  have q: "quiet l (snd (take_answer l))" by (simp add: take_answer_def quiet_calls)
  show "quiet l l'"
    using eq quiet_refl q quiet_trans [OF q ih] by (auto simp: Let_def take_answer_def split: if_splits)
qed

lemma batch_ok:
  assumes "run_batch cl batch l = Some l'" "loop_ok 0 0 (Progress batch states) l" "client_ok cl"
  shows "loop_ok 0 0 (Progress [] states) l' \<and> wake_frame l l'"
  using assms(1,2)
proof (induction batch arbitrary: l)
  case (Cons p batch)
  let ?l = "l\<lparr>lp_ran := lp_ran l @ [p]\<rparr>"
  obtain m where m: "Loop_calls (cl_posted cl p ?l) ?l = Some m" "run_batch cl batch m = Some l'"
    using Cons.prems(1) by (auto simp: Let_def split: bind_splits)
  have ok: "loop_ok 0 0 (Progress batch states) ?l" using Cons.prems(2) by (simp add: loop_ok_defs)
  have w: "wake_frame l ?l" by (simp add: wake_frame_def outstanding_def)
  note co = client_okD(2) [OF assms(3) ok]
  show ?case
    using Cons.IH [OF m(2) calls_preserve [OF co m(1) ok]] calls_wake_frame [OF co m(1) ok] w by (simp add: wake_frame_def)
qed (simp add: wake_frame_def)

lemma RunPosted_ok:
  assumes "Loop_RunPosted cl l = Some l'" "loop_ok 0 0 (Progress [] states) l" "client_ok cl"
  shows "loop_ok 0 0 (Progress [] states) l' \<and> wake_frame l l'"
proof -
  have "loop_ok 0 0 (Progress (lp_posted l) states) (l\<lparr>lp_posted := []\<rparr>)" using assms(2) by (simp add: loop_ok_defs)
  from batch_ok [OF assms(1) [unfolded Loop_RunPosted_def] this assms(3)] show ?thesis
    by (simp add: wake_frame_def outstanding_def)
qed

lemma wake_clear:
  assumes "loop_ok d 0 b l" "lp_wake_op l \<notin> set (outstanding l)"
  shows "\<not> lp_wake_pending l" "\<not> lp_wake_inflight l"
  using assms by (auto simp: loop_ok_def wake_ok_def)

lemma ArmWakePoll_ok:
  assumes "Loop_ArmWakePoll l = Some (r, l')" "loop_ok d 0 b l" "lp_wake_op l \<notin> set (outstanding l)"
  shows "loop_ok d 0 b l'"
proof (cases "lp_wake_fd l < 0")
  case True
  then show ?thesis using assms by (auto simp: Loop_ArmWakePoll_def)
next
  case False
  let ?op = "op_at l (lp_wake_op l)"
  let ?m = "set_op (lp_wake_op l) (?op\<lparr>op_kind := kWake, op_resume_work := Work_ClearHandle (op_resume_work ?op)\<rparr>) l"
  obtain m where m: "Loop_SubmitOp (lp_wake_op l) ?m = Some (r, m)" "l' = (case r of Inr _ \<Rightarrow> m\<lparr>lp_wake_pending := True\<rparr> | Inl _ \<Rightarrow> m)"
    using assms(1) False by (auto simp: Loop_ArmWakePoll_def Let_def split: bind_splits)
  have "loop_ok d 0 b ?m" using assms(2) by (intro set_op_ok) (auto simp: loop_ok_def loop_inv_def internal_ops_def)
  from m(1) this show ?thesis
  proof (cases rule: SubmitOp_cases)
    case (refused e)
    then show ?thesis using m(2) by simp
  next
    case (prepared n)
    have f: "lp_wake_op n = lp_wake_op l" "lp_wake_op n \<notin> set (outstanding n)" using prepared(4) assms(3) by (auto simp: flush_frame_def)
    then have "loop_inv d 0 b (prepare (lp_wake_op l) n)"
      using prepared(2,3) by (intro prepare_inv) (auto simp: loop_ok_def loop_inv_def internal_ops_def)
    then show ?thesis using wake_clear [OF prepared(3) f(2)] m(2) f
      by (simp add: prepared loop_ok_defs prepare_def)
  qed
qed

lemma HandleWake_ok:
  assumes "HandleWake cl l = Some l'" "loop_inv 1 0 (Progress [] states) l" "lp_wake_op l \<notin> set (outstanding l)" "\<not> lp_wake_pending l" "client_ok cl"
  shows "loop_ok 0 0 (Progress [] states) l'"
proof -
  let ?l2 = "l\<lparr>lp_inflight := lp_inflight l - 1, lp_wake_inflight := False\<rparr>"
  obtain l3 l4 where s: "Loop_DrainWakeFd ?l2 = Some l3" "Loop_RunPosted cl l3 = Some l4"
    and fin: "(if lp_state l4 = kRunning then do {
       let l5 = set_op (lp_wake_op l4) (Op_BeginNextRequest (op_at l4 (lp_wake_op l4))) l4;
       (armed, l6) \<leftarrow> Loop_ArmWakePoll l5;
       Some (case armed of Inr _ \<Rightarrow> l6 | Inl _ \<Rightarrow> Loop_RequestStop l6)
     } else Some l4) = Some l'"
    using assms(1) by (auto simp: HandleWake_def apply_disposition_def split: bind_splits)
  have ok2: "loop_ok 0 0 (Progress [] states) ?l2" using assms(2-4) by (simp add: loop_ok_defs)
  have q: "quiet ?l2 l3" by (rule DrainWakeFd_quiet [OF s(1)])
  note ok4 = RunPosted_ok [OF s(2) quiet_ok [OF q ok2] assms(5)]
  have "wake_frame ?l2 l4" using ok4 flush_wake_frame [OF quiet_frame [OF q]] by (simp add: wake_frame_def)
  then have w: "lp_wake_op l4 \<notin> set (outstanding l4)" using assms(3) by (simp add: wake_frame_def outstanding_def)
  show ?thesis
  proof (cases "lp_state l4 = kRunning")
    case True
    let ?l5 = "set_op (lp_wake_op l4) (Op_BeginNextRequest (op_at l4 (lp_wake_op l4))) l4"
    obtain r l6 where a: "Loop_ArmWakePoll ?l5 = Some (r, l6)" "l' = (case r of Inr _ \<Rightarrow> l6 | Inl _ \<Rightarrow> Loop_RequestStop l6)"
      using fin True by (auto split: bind_splits)
    have "loop_ok 0 0 (Progress [] states) ?l5" using ok4 by (intro set_op_ok) (auto simp: Op_BeginNextRequest_def)
    then have "loop_ok 0 0 (Progress [] states) l6" using ArmWakePoll_ok [OF a(1)] w by simp
    then show ?thesis using a(2) quiet_ok [OF quiet_RequestStop] by (auto split: sum.splits)
  qed (use fin ok4 in auto)
qed

lemma record_wins: "Op_TryRecordCqeCompletion res op = Some (won, op1) \<Longrightarrow> \<not> Op_CqeCompletionRecorded op \<Longrightarrow> won"
  by (auto simp: Op_all_defs Let_def split: if_splits prod.splits)

lemma clear_cancel:
  assumes "loop_ok d k b l" "lp_cancel_all_op l \<notin> set (outstanding l)"
  shows "loop_ok d k b (l\<lparr>lp_cancel_all_pending := f\<rparr>)"
proof -
  have f: "outstanding (l\<lparr>lp_cancel_all_pending := f\<rparr>) = outstanding l" "single_shot (l\<lparr>lp_cancel_all_pending := f\<rparr>) = single_shot l"
    by (simp_all add: outstanding_def single_shot_def fun_eq_iff)
  show ?thesis using assms unfolding loop_ok_def loop_inv_def requests_ok_def wake_ok_def f
    by (simp add: counts_ok_def internal_ops_def posts_ok_def)
qed

lemma HandleCqe_ok:
  assumes "HandleCqe cl c (pop_cqe rest l) = Some l'" "loop_ok 0 0 (Progress [] states) l" "rg_cq (lp_ring l) = c # rest" "client_ok cl"
  shows "loop_ok 0 0 (Progress [] states) l'"
proof -
  let ?l0 = "pop_cqe rest l"
  let ?a = "cqe_data c"
  note pop = pop_inv [OF assms(2,3)] and wake = pop_wake [OF assms(2,3)]
  have kinds: "op_kind (op_at ?l0 (lp_wake_op ?l0)) = kWake" "op_kind (op_at ?l0 (lp_cancel_all_op ?l0)) = kCancelAll"
    "lp_cancel_all_op ?l0 \<noteq> lp_wake_op ?l0"
    using pop(1) by (auto simp: loop_inv_def internal_ops_def)
  have wop: "lp_wake_op ?l0 = lp_wake_op l" "lp_cancel_all_op ?l0 = lp_cancel_all_op l" by (simp_all add: pop_cqe_def)
  have finish: "loop_ok 0 0 (Progress [] states) l'"
    if "DispatchCompletion cl ?a (cqe_event c) m = Some (disp, m')" "apply_disposition ?a disp m' = Some l'"
      "loop_ok (of_bool (terminal c)) 0 (Progress [] states) m" "terminal c \<Longrightarrow> ?a \<notin> set (outstanding m)" "single_shot m ?a \<Longrightarrow> terminal c" for m m' disp
    using dispatch_ok [OF that(1,3) assms(4) that(4,5)] apply_disposition_ok [OF that(2), of "(Progress [] states)"] by blast
  consider (wk) "?a = lp_wake_op ?l0" | (cancel) "?a = lp_cancel_all_op ?l0" "?a \<noteq> lp_wake_op ?l0"
    | (single) "?a \<noteq> lp_cancel_all_op ?l0" "?a \<noteq> lp_wake_op ?l0" "single_shot ?l0 ?a"
    | (multi) "?a \<noteq> lp_cancel_all_op ?l0" "?a \<noteq> lp_wake_op ?l0" "\<not> single_shot ?l0 ?a" by blast
  then show ?thesis
  proof cases
    case wk
    then have "HandleWake cl ?l0 = Some l'" using assms(1) pop(3) by (simp add: HandleCqe_def Let_def)
    then show ?thesis using HandleWake_ok [OF _ _ _ _ assms(4)] wake(2) pop(1) wk wop by simp
  next
    case cancel
    let ?l1 = "?l0\<lparr>lp_cancel_all_pending := False\<rparr>"
    have t: "terminal c" using pop(4) kinds cancel by (simp add: single_shot_def)
    obtain won op disp m' where s: "Op_TryRecordCqeCompletion (ev_result (cqe_event c)) (op_at ?l1 ?a) = Some (won, op)"
      "DispatchCompletion cl ?a (cqe_event c) (set_op ?a op ?l1) = Some (disp, m')" "apply_disposition ?a disp m' = Some l'"
      using assms(1) pop(3) cancel by (auto simp: HandleCqe_def Let_def split: bind_splits)
    have "loop_ok (of_bool (terminal c)) 0 (Progress [] states) ?l1"
      using clear_cancel [of "of_bool (terminal c)" 0 "(Progress [] states)" ?l0] pop(1) pop(2) [OF t] wake(1) cancel wop by (simp add: loop_ok_def)
    then have "loop_ok (of_bool (terminal c)) 0 (Progress [] states) (set_op ?a op ?l1)"
      using record_kind [OF s(1)] cancel by (intro set_op_ok) auto
    then show ?thesis
      by (rule finish [OF s(2,3)]) (use pop(2) t in \<open>auto simp: outstanding_def set_op_def\<close>)
  next
    case single
    have t: "terminal c" using pop(4) single by simp
    have ok0: "loop_ok (of_bool (terminal c)) 0 (Progress [] states) ?l0" using pop(1) wake(1) single wop by (simp add: loop_ok_def)
    obtain won op where r: "Op_TryRecordCqeCompletion (ev_result (cqe_event c)) (op_at ?l0 ?a) = Some (won, op)"
      using assms(1) pop(3) single by (auto simp: HandleCqe_def single_shot_def Let_def split: bind_splits)
    have "won" by (rule record_wins [OF r pop(5) [OF t single(2,1,3)]])
    then obtain disp m' where s: "DispatchCompletion cl ?a (cqe_event c) (set_op ?a op ?l0) = Some (disp, m')"
      "apply_disposition ?a disp m' = Some l'"
      using assms(1) pop(3) single r by (auto simp: HandleCqe_def single_shot_def Let_def split: bind_splits)
    have "loop_ok (of_bool (terminal c)) 0 (Progress [] states) (set_op ?a op ?l0)"
      using record_kind [OF r] pop(2) [OF t] by (intro set_op_ok [OF ok0]) auto
    then show ?thesis by (rule finish [OF s]) (use pop(2) t in auto)
  next
    case multi
    have ok0: "loop_ok (of_bool (terminal c)) 0 (Progress [] states) ?l0" using pop(1) wake(1) multi wop by (simp add: loop_ok_def)
    obtain disp m' where s: "DispatchCompletion cl ?a (cqe_event c) ?l0 = Some (disp, m')" "apply_disposition ?a disp m' = Some l'"
      using assms(1) pop(3) multi by (auto simp: HandleCqe_def single_shot_def Let_def split: bind_splits)
    show ?thesis by (rule finish [OF s ok0]) (use pop(2,4) in auto)
  qed
qed

section \<open>Turns\<close>

lemma in_scope_ok:
  assumes "in_scope body l = Some l'" "loop_ok d k b l"
    and "\<And>m m'. body m = Some m' \<Longrightarrow> loop_ok d k b m \<Longrightarrow> loop_ok d k b m'"
  shows "loop_ok d k b l'"
  using assms(1,2) assms(3) by (auto simp: in_scope_def split: bind_splits prod.splits)

lemma run_work_ok:
  assumes "run_work cl f w l = Some l'" "loop_ok d 0 b l" "client_ok cl"
  shows "loop_ok d 0 b l'"
proof -
  let ?l = "l\<lparr>lp_executed := lp_executed l @ [(f, w)]\<rparr>"
  have ok: "loop_ok d 0 b ?l" using assms(2) by simp
  show ?thesis
    by (rule calls_preserve [OF client_okD(1) [OF assms(3) ok] _ ok]) (use assms(1) in \<open>simp add: run_work_def Let_def\<close>)
qed

lemma DrainCompletion_ok:
  "DrainCompletion_loop cl n l = Some l' \<Longrightarrow> loop_ok d 0 b l \<Longrightarrow> client_ok cl \<Longrightarrow> loop_ok d 0 b l'"
proof (induction cl n l rule: DrainCompletion_loop.induct)
  case (2 cl n l)
  then show ?case using run_work_ok [of cl True _ _ _ d b] by (fastforce split: list.splits bind_splits)
qed simp

lemma RunReady_loop_ok:
  "RunReady_loop cl n r l = Some l' \<Longrightarrow> loop_ok d 0 b l \<Longrightarrow> client_ok cl \<Longrightarrow> loop_ok d 0 b l'"
proof (induction n arbitrary: r l)
  case (Suc n)
  then show ?case
    using run_work_ok [of cl True _ _ _ d b] run_work_ok [of cl False _ _ _ d b]
    by (fastforce split: list.splits bind_splits if_splits)
qed simp

lemma RunReady_ok:
  assumes "Loop_RunReady cl l = Some l'" "loop_ok d 0 b l" "client_ok cl"
  shows "loop_ok d 0 b l'"
  using assms by (auto simp: Loop_RunReady_def dest!: RunReady_loop_ok elim!: in_scope_ok split: bind_splits)

lemma DrainCompletionReady_ok:
  assumes "DrainCompletionReady cl l = Some l'" "loop_ok d 0 b l" "client_ok cl"
  shows "loop_ok d 0 b l'"
  using assms
  by (auto simp: DrainCompletionReady_def dest!: DrainCompletion_ok elim!: in_scope_ok split: if_splits bind_splits)

lemma Flush_ok:
  assumes "Loop_FlushSubmit l = Some (r, l')" "loop_ok d 0 b l"
  shows "loop_ok d 0 b l'"
  using assms FlushSubmit_ok by (auto simp: Loop_FlushSubmit_def)

lemma OnCqeHandled_ok:
  assumes "OnCqeHandled cl l = Some l'" "loop_ok d 0 b l" "client_ok cl"
  shows "loop_ok d 0 b l'"
proof -
  obtain r m where m: "Loop_FlushSubmit l = Some (r, m)" using assms(1) by (auto simp: OnCqeHandled_def split: bind_splits)
  note ok = Flush_ok [OF m assms(2)]
  show ?thesis using assms(1) m quiet_ok [OF quiet_RequestStop ok] DrainCompletionReady_ok [OF _ ok assms(3)]
    by (auto simp: OnCqeHandled_def split: sum.splits)
qed

lemma Reap_loop_ok:
  "Reap_loop cl n r l = Some (r', l') \<Longrightarrow> loop_ok 0 0 (Progress [] states) l \<Longrightarrow> client_ok cl \<Longrightarrow> loop_ok 0 0 (Progress [] states) l'"
proof (induction n arbitrary: r l)
  case (Suc n)
  show ?case
  proof (cases "rg_cq (lp_ring l)")
    case Nil
    then show ?thesis using Suc.prems by simp
  next
    case (Cons c rest)
    then obtain l1 l2 where s: "HandleCqe cl c (pop_cqe rest l) = Some l1" "OnCqeHandled cl l1 = Some l2"
      "Reap_loop cl n (Suc r) l2 = Some (r', l')"
      using Suc.prems(1) by (auto simp: pop_cqe_def split: bind_splits)
    show ?thesis
      by (rule Suc.IH [OF s(3) OnCqeHandled_ok [OF s(2) HandleCqe_ok [OF s(1) Suc.prems(2) Cons Suc.prems(3)] Suc.prems(3)] Suc.prems(3)])
  qed
qed simp

lemma Reap_ok:
  assumes "Ring_Reap cl n l = Some (r, l')" "loop_ok 0 0 (Progress [] states) l" "client_ok cl"
  shows "loop_ok 0 0 (Progress [] states) l'"
proof -
  obtain ret m where m: "kernel_call l = (ret, m)" by fastforce
  have ok: "loop_ok 0 0 (Progress [] states) m" using kernel_call_ok [OF m assms(2)] by simp
  show ?thesis using assms(1) m ok Reap_loop_ok [OF _ ok assms(3)]
    by (auto simp: Ring_Reap_def Let_def split: if_splits bind_splits)
qed

lemma Poll_ok:
  assumes "Loop_PollCompletions cl l = Some (r, l')" "loop_ok 0 0 (Progress [] states) l" "client_ok cl"
  shows "loop_ok 0 0 (Progress [] states) l'"
proof -
  obtain f m where m: "Loop_FlushSubmit l = Some (f, m)" using assms(1) by (auto simp: Loop_PollCompletions_def split: bind_splits)
  note ok = Flush_ok [OF m assms(2)]
  show ?thesis using assms(1) m ok Reap_ok [OF _ ok assms(3)]
    by (auto simp: Loop_PollCompletions_def split: sum.splits)
qed

lemma Wait_ok:
  assumes "Loop_WaitCompletionsFor cl l = Some (r, l')" "loop_ok 0 0 (Progress [] states) l" "client_ok cl"
  shows "loop_ok 0 0 (Progress [] states) l'"
proof -
  obtain f m where m: "Loop_FlushSubmit l = Some (f, m)" using assms(1) by (auto simp: Loop_WaitCompletionsFor_def split: bind_splits)
  note ok = Flush_ok [OF m assms(2)]
  obtain ret n where n: "kernel_call m = (ret, n)" by fastforce
  have okn: "loop_ok 0 0 (Progress [] states) n" using kernel_call_ok [OF n ok] by simp
  show ?thesis using assms(1) m n ok okn Reap_ok [OF _ okn assms(3)]
    by (auto simp: Loop_WaitCompletionsFor_def Let_def split: sum.splits if_splits)
qed

section \<open>Shutdown\<close>

lemma participants_ok:
  assumes "stop_participants cl cur l = Some l'"
  shows "loop_ok d 0 b l \<longrightarrow> client_ok cl \<longrightarrow> loop_ok d 0 b l'"
proof (rule stop_participants.raw_induct [where P = "\<lambda>cl cur l l'. loop_ok d 0 b l \<longrightarrow> client_ok cl \<longrightarrow> loop_ok d 0 b l'", OF _ assms], goal_cases)
  case (1 walk cl cur l l')
  show ?case
  proof (cases "cur = nullptr")
    case False
    then obtain m where m: "Loop_calls (cl_participant cl cur l) l = Some m" "walk cl (registry_next cur (lp_registry l)) m = Some l'"
      using 1(2) by (auto simp: Let_def split: bind_splits)
    then show ?thesis using 1(1) [OF m(2)] calls_preserve [OF client_okD(3) m(1)] by blast
  qed (use 1(2) in simp)
qed

lemma BeginShutdown_ok:
  assumes "Loop_BeginShutdown cl l = Some l'" "loop_ok d 0 b l" "client_ok cl"
  shows "loop_ok d 0 b l'"
  using assms participants_ok [of cl _ "l\<lparr>lp_shutdown_started := True\<rparr>" l' d b]
  by (auto simp: Loop_BeginShutdown_def split: if_splits)

lemma CancelPending_ok:
  assumes "Loop_CancelPendingOperations l = Some (r, l')" "loop_ok d 0 b l"
  shows "loop_ok d 0 b l'"
proof (cases "lp_cancel_all_pending l \<or> PendingSubmitCount l = 0 \<and> InflightCount l = 0")
  case True
  then show ?thesis using assms by (auto simp: Loop_CancelPendingOperations_def)
next
  case False
  let ?a = "lp_cancel_all_op l"
  let ?m = "set_op ?a (Op_BeginNextRequest (op_at l ?a)) l"
  obtain m where m: "Loop_SubmitOp ?a ?m = Some (r, m)"
    "l' = (case r of Inr _ \<Rightarrow> m\<lparr>lp_cancel_all_pending := True\<rparr> | Inl _ \<Rightarrow> m)"
    using assms(1) False by (auto simp: Loop_CancelPendingOperations_def Let_def split: bind_splits)
  have out: "?a \<notin> set (outstanding l)" using False assms(2) by (auto simp: loop_ok_def loop_inv_def requests_ok_def)
  have ok: "loop_ok d 0 b ?m" using assms(2) by (intro set_op_ok) (auto simp: Op_BeginNextRequest_def)
  from m(1) ok show ?thesis
  proof (cases rule: SubmitOp_cases)
    case (refused e)
    then show ?thesis using m(2) by simp
  next
    case (prepared n)
    let ?n = "n\<lparr>lp_cancel_all_pending := True\<rparr>"
    have f: "lp_cancel_all_op n = ?a" "?a \<notin> set (outstanding n)" using prepared(4) out by (auto simp: flush_frame_def)
    have okn: "loop_ok d 0 b ?n" by (rule clear_cancel [OF prepared(3)]) (simp add: f)
    have neq: "?a \<noteq> lp_wake_op n" using prepared(3) f(1) unfolding loop_ok_def loop_inv_def internal_ops_def by metis
    have out_n: "outstanding ?n = outstanding n" by (simp add: outstanding_def)
    have "loop_inv d 0 b (prepare ?a ?n)"
    proof (rule prepare_inv [OF _ prepared(2)])
      show "loop_inv d 0 b ?n" using okn by (simp only: loop_ok_def)
      show "?a \<notin> set (outstanding ?n)" unfolding out_n by (rule f(2))
    qed (simp_all add: f(1))
    moreover have "wake_ok 0 (prepare ?a ?n)"
      using okn neq by (simp add: loop_ok_def wake_ok_def out_n) (simp add: prepare_def outstanding_def)
    moreover have "prepare ?a ?n = l'" using m(2) prepared(1,5) by (simp add: prepare_def)
    ultimately show ?thesis by (simp only: loop_ok_def)
  qed
qed

lemma drain_wait_ok:
  assumes "drain_wait cl l = Some l'" "loop_ok 0 0 (Progress [] states) l" "client_ok cl"
  shows "loop_ok 0 0 (Progress [] states) l'"
proof -
  let ?m = "if lp_defer_task_run l then snd (Ring_GetEvents l) else l"
  have "loop_ok 0 0 (Progress [] states) (snd (Ring_GetEvents l))"
  proof -
    obtain ret n where k: "kernel_call l = (ret, n)" by fastforce
    show ?thesis using kernel_call_ok [OF k assms(2)] k by (simp add: Ring_GetEvents_def)
  qed
  then have ok: "loop_ok 0 0 (Progress [] states) ?m" using assms(2) by simp
  obtain r where "Loop_WaitCompletionsFor cl ?m = Some (r, l')" using assms(1) by (auto simp: drain_wait_def Let_def split: bind_splits)
  from Wait_ok [OF this ok assms(3)] show ?thesis .
qed

text \<open>Drained means that at most the loop's own wake poll is outstanding.\<close>

lemma drained_requests:
  assumes "loop_ok 0 0 b l" "IsDrained l"
  shows "set (outstanding l) \<subseteq> {lp_wake_op l}" "lp_ready l = []" "lp_completion_ready l = []"
proof -
  have n: "length (outstanding l) = lp_pending_submit l + lp_inflight l" "wake_ok 0 l" "distinct (outstanding l)"
    using assms(1) by (simp_all add: loop_ok_def loop_inv_def counts_ok_def requests_ok_def outstanding_def)
  have d: "size_minus (lp_pending_submit l) (if lp_wake_pending l then 1 else 0) = 0"
    "size_minus (lp_inflight l) (if lp_wake_inflight l then 1 else 0) = 0"
    using assms(2) by (simp_all only: IsDrained_def PendingSubmitCount_def InflightCount_def)
  have z: "size_minus a (if w then 1 else 0) = 0 \<Longrightarrow> a = of_bool w" for a w
    by (auto simp: size_minus_def split: if_splits)
  have len: "length (outstanding l) = of_bool (lp_wake_pending l) + of_bool (lp_wake_inflight l)" using n(1) z d by simp
  show "set (outstanding l) \<subseteq> {lp_wake_op l}"
  proof (cases "lp_wake_op l \<in> set (outstanding l)")
    case True
    then have "length (outstanding l) \<le> 1" using len n(2) by (auto simp: wake_ok_def)
    then show ?thesis using True by (cases "outstanding l") auto
  next
    case False
    then have "length (outstanding l) = 0" using len n(2) by (auto simp: wake_ok_def)
    then show ?thesis by simp
  qed
  show "lp_ready l = []" "lp_completion_ready l = []" using assms(2) by (simp_all add: IsDrained_def HasReadyWork_def)
qed

definition drains :: "LoopState set \<Rightarrow> client \<Rightarrow> Loop \<Rightarrow> Loop \<Rightarrow> bool" where
  "drains states cl l l' \<longleftrightarrow> (client_ok cl \<longrightarrow> loop_ok 0 0 (Progress [] states) l \<longrightarrow> loop_ok 0 0 (Progress [] states) l' \<and> IsDrained l')"

lemma DrainStopped_drains: "DrainStopped_loop cl l = Some l' \<Longrightarrow> drains states cl l l'"
proof (rule DrainStopped_loop.raw_induct [where P = "drains states"])
  fix f cl l l'
  assume ih: "\<And>cl m m'. f cl m = Some m' \<Longrightarrow> drains states cl m m'"
    and eq: "(if IsDrained l then Some l
      else do {
        l1 \<leftarrow> Loop_RunReady cl l;
        if IsDrained l1 then Some l1
        else do {
          (cancelled, l2) \<leftarrow> Loop_CancelPendingOperations l1;
          if (case cancelled of Inl _ \<Rightarrow> False | Inr _ \<Rightarrow> PendingSubmitCount l2 = 0 \<and> InflightCount l2 = 0)
          then f cl l2
          else do { l3 \<leftarrow> drain_wait cl l2; f cl l3 }
        }
      }) = Some l'"
  show "drains states cl l l'"
  proof (cases "IsDrained l")
    case True
    then show ?thesis using eq by (simp add: drains_def)
  next
    case False
    then obtain l1 where l1: "Loop_RunReady cl l = Some l1" using eq by (auto split: bind_splits)
    show ?thesis unfolding drains_def
    proof (intro impI)
      assume c: "client_ok cl" and ok: "loop_ok 0 0 (Progress [] states) l"
      have ok1: "loop_ok 0 0 (Progress [] states) l1" by (rule RunReady_ok [OF l1 ok c])
      show "loop_ok 0 0 (Progress [] states) l' \<and> IsDrained l'"
      proof (cases "IsDrained l1")
        case True
        then show ?thesis using eq False l1 ok1 by simp
      next
        case F1: False
        then obtain r l2 where l2: "Loop_CancelPendingOperations l1 = Some (r, l2)" using eq False l1 by (auto split: bind_splits)
        have ok2: "loop_ok 0 0 (Progress [] states) l2" by (rule CancelPending_ok [OF l2 ok1])
        consider "f cl l2 = Some l'" | l3 where "drain_wait cl l2 = Some l3" "f cl l3 = Some l'"
          using eq False l1 F1 l2 by (auto split: bind_splits if_splits)
        then show ?thesis
        proof cases
          case 1
          then show ?thesis using ih [OF 1] ok2 c by (simp add: drains_def)
        next
          case 2
          then show ?thesis using ih [OF 2(2)] drain_wait_ok [OF 2(1) ok2 c] c by (simp add: drains_def)
        qed
      qed
    qed
  qed
qed

lemma RunReady_idle:
  assumes "Loop_RunReady cl l = Some l'" "lp_ready l = []" "lp_completion_ready l = []"
  shows "\<exists>ctx. l' = l\<lparr>lp_context := ctx\<rparr>"
proof -
  have "RunReady_loop cl n 0 (l\<lparr>lp_context := t\<rparr>) = Some (l\<lparr>lp_context := t\<rparr>)" for n t
    using assms(2,3) by (cases n) simp_all
  then show ?thesis using assms(1) by (auto simp: Loop_RunReady_def in_scope_def split: bind_splits prod.splits)
qed

lemma DrainStoppedOperations_drains:
  assumes "Loop_DrainStoppedOperations cl l = Some l'" "loop_ok 0 0 (Progress [] states) l" "client_ok cl"
  shows "loop_ok 0 0 (Progress [] states) l' \<and> IsDrained l'"
proof -
  obtain m where m: "DrainStopped_loop cl l = Some m" "Loop_RunReady cl m = Some l'"
    using assms(1) by (auto simp: Loop_DrainStoppedOperations_def split: bind_splits)
  have ok: "loop_ok 0 0 (Progress [] states) m" "IsDrained m" using DrainStopped_drains [OF m(1), of states] assms(2,3) by (simp_all add: drains_def)
  obtain ctx where "l' = m\<lparr>lp_context := ctx\<rparr>" using RunReady_idle [OF m(2)] drained_requests(2,3) [OF ok] by blast
  then show ?thesis using ok by (simp add: IsDrained_def HasReadyWork_def PendingSubmitCount_def InflightCount_def)
qed

section \<open>After the drain\<close>

text \<open>
  Once stopping, only the operations that cancel a stream read or write at its deadline are still accepted.
\<close>

definition deadline_cancel :: "Loop \<Rightarrow> addr \<Rightarrow> bool" where
  "deadline_cancel l a \<longleftrightarrow> op_kind (op_at l a) \<in> {kStreamReadCancelComplete, kStreamWriteCancelComplete}"

definition closing :: "progress \<Rightarrow> Loop \<Rightarrow> bool" where
  "closing b l \<longleftrightarrow> loop_ok 0 0 b l \<and> lp_state l = kStopping \<and>
     (\<forall>a \<in> set (outstanding l). a = lp_wake_op l \<or> deadline_cancel l a)"

lemma closing_flush: "flush_frame l l' \<Longrightarrow> loop_ok 0 0 b l' \<Longrightarrow> closing b l \<Longrightarrow> closing b l'"
  by (auto simp: closing_def flush_frame_def deadline_cancel_def)

lemma closing_quiet:
  assumes "quiet l l'" "closing b l"
  shows "closing b l'"
proof -
  have "loop_ok 0 0 b l" using assms(2) by (simp add: closing_def)
  from closing_flush [OF quiet_frame [OF assms(1)] quiet_ok [OF assms(1) this] assms(2)] show ?thesis .
qed

lemma closing_indep [simp]:
  "closing b (l\<lparr>lp_executed := ex\<rparr>) = closing b l" "closing b (l\<lparr>lp_context := ctx\<rparr>) = closing b l"
  "closing b (l\<lparr>lp_ready := x\<rparr>) = closing b l" "closing b (l\<lparr>lp_completion_ready := x\<rparr>) = closing b l"
  "closing b (l\<lparr>lp_registry := x\<rparr>) = closing b l"
  by (simp_all add: closing_def deadline_cancel_def outstanding_def)

lemma submit_stopping:
  assumes "Loop_SubmitOp a l = Some (Inr (), l')" "lp_state l = kStopping" "a \<noteq> lp_wake_op l" "a \<noteq> lp_cancel_all_op l"
  shows "deadline_cancel l a"
  using assms by (auto simp: Loop_SubmitOp_def deadline_cancel_def Let_def split: if_splits)

lemma set_op_closing: "closing b l \<Longrightarrow> op_kind op = op_kind (op_at l a) \<Longrightarrow> loop_ok 0 0 b (set_op a op l) \<Longrightarrow> closing b (set_op a op l)"
  by (auto simp: closing_def deadline_cancel_def set_op_def outstanding_def)

lemma call_closing:
  assumes "call_ok c l" "Loop_call c l = Some l'" "closing b l"
  shows "closing b l'"
proof -
  have ok: "loop_ok 0 0 b l" using assms(3) by (simp add: closing_def)
  note ok' = call_preserves [OF assms(1,2) ok]
  show ?thesis
  proof (cases c)
    case (LC_Submit a)
    then obtain r where s: "Loop_SubmitOp a l = Some (r, l')" using assms(2) by auto
    from s ok show ?thesis
    proof (cases rule: SubmitOp_cases)
      case (refused e)
      then show ?thesis using closing_flush [OF _ _ assms(3)] by simp
    next
      case (prepared m)
      have m: "closing b m" by (rule closing_flush [OF prepared(4,3) assms(3)])
      have "deadline_cancel l a" using submit_stopping [of a l l'] s prepared(1) assms(1,3) LC_Submit by (simp add: closing_def)
      then have "deadline_cancel m a" using prepared(4) by (simp add: deadline_cancel_def flush_frame_def)
      then show ?thesis using m ok' unfolding prepared(5) closing_def
        by (auto simp: deadline_cancel_def prepare_def outstanding_def completed_cq_def)
    qed
  next
    case (LC_Op a act)
    then show ?thesis using assms(2) ok' set_op_closing [OF assms(3)] op_step_kind by (fastforce split: bind_splits)
  next
    case (LC_SetHandle a h)
    then show ?thesis using assms(2) ok' set_op_closing [OF assms(3)] by (auto split: bind_splits)
  next
    case (LC_Post p)
    then show ?thesis using assms(2) closing_quiet [OF quiet_Post assms(3)] by auto
  next
    case LC_RequestStop
    then show ?thesis using assms(2) closing_quiet [OF quiet_RequestStop assms(3)] by auto
  next
    case (LC_Schedule w)
    then show ?thesis using assms(2,3) by (auto simp: Loop_Schedule_def)
  next
    case (LC_ScheduleCompletion w)
    then show ?thesis using assms(2,3) by (auto simp: Loop_ScheduleCompletion_def)
  next
    case (LC_Register w)
    then show ?thesis using assms(2,3) by (auto simp: Loop_RegisterShutdownParticipant_def)
  next
    case (LC_Unregister w)
    then show ?thesis using assms(2,3) by (auto simp: Loop_UnregisterShutdownParticipant_def)
  qed
qed

lemma calls_closing: "calls_ok cs l \<Longrightarrow> Loop_calls cs l = Some l' \<Longrightarrow> closing b l \<Longrightarrow> closing b l'"
proof (induction cs arbitrary: l)
  case (Cons c cs)
  then obtain m where "Loop_call c l = Some m" "Loop_calls cs m = Some l'" by (auto split: bind_splits)
  with Cons call_closing [of c l m b] show ?case by auto
qed simp

lemma run_work_closing:
  assumes "run_work cl f w l = Some l'" "closing b l" "client_ok cl"
  shows "closing b l'"
proof -
  let ?l = "l\<lparr>lp_executed := lp_executed l @ [(f, w)]\<rparr>"
  have c: "closing b ?l" using assms(2) by simp
  then have "loop_ok 0 0 b ?l" by (simp only: closing_def)
  from calls_closing [OF client_okD(1) [OF assms(3) this] _ c] assms(1) show ?thesis by (simp add: run_work_def Let_def)
qed

lemma RunReady_loop_closing: "RunReady_loop cl n r l = Some l' \<Longrightarrow> closing b l \<Longrightarrow> client_ok cl \<Longrightarrow> closing b l'"
proof (induction n arbitrary: r l)
  case (Suc n)
  then show ?case
    using run_work_closing [of cl True _ _ _ b] run_work_closing [of cl False _ _ _ b]
    by (fastforce split: list.splits bind_splits if_splits)
qed simp

lemma RunReady_closing:
  assumes "Loop_RunReady cl l = Some l'" "closing b l" "client_ok cl"
  shows "closing b l'"
proof -
  obtain t m ctx where "RunReady_loop cl kMaxReadyWorkPerTurn 0 (l\<lparr>lp_context := t\<rparr>) = Some m" "l' = m\<lparr>lp_context := ctx\<rparr>"
    using assms(1) by (auto simp: Loop_RunReady_def in_scope_def split: bind_splits prod.splits)
  with RunReady_loop_closing [OF this(1) _ assms(3)] assms(2) show ?thesis by simp
qed

definition drained_ready :: "progress \<Rightarrow> client \<Rightarrow> Loop \<Rightarrow> Loop \<Rightarrow> bool" where
  "drained_ready b cl l l' \<longleftrightarrow> (client_ok cl \<longrightarrow> closing b l \<longrightarrow> closing b l')"

lemma drain_ready_closing: "drain_ready cl l = Some l' \<Longrightarrow> drained_ready b cl l l'"
proof (rule drain_ready.raw_induct [where P = "drained_ready b"])
  fix f cl l l'
  assume ih: "\<And>cl m m'. f cl m = Some m' \<Longrightarrow> drained_ready b cl m m'"
    and eq: "(if HasReadyWork l then do { l1 \<leftarrow> Loop_RunReady cl l; f cl l1 } else Some l) = Some l'"
  show "drained_ready b cl l l'"
  proof (cases "HasReadyWork l")
    case True
    then obtain m where m: "Loop_RunReady cl l = Some m" "f cl m = Some l'" using eq by (auto split: bind_splits)
    show ?thesis using ih [OF m(2)] RunReady_closing [OF m(1)] by (simp add: drained_ready_def)
  qed (use eq in \<open>simp add: drained_ready_def\<close>)
qed

lemma batch_closing:
  assumes "run_batch cl batch l = Some l'" "closing (Progress batch states) l" "client_ok cl"
  shows "closing (Progress [] states) l'"
  using assms(1,2)
proof (induction batch arbitrary: l)
  case (Cons p batch)
  let ?l = "l\<lparr>lp_ran := lp_ran l @ [p]\<rparr>"
  obtain m where m: "Loop_calls (cl_posted cl p ?l) ?l = Some m" "run_batch cl batch m = Some l'"
    using Cons.prems(1) by (auto simp: Let_def split: bind_splits)
  have c: "closing (Progress batch states) ?l"
    using Cons.prems(2) by (simp add: closing_def deadline_cancel_def loop_ok_defs)
  then have ok: "loop_ok 0 0 (Progress batch states) ?l" by (simp only: closing_def)
  show ?case by (rule Cons.IH [OF m(2) calls_closing [OF client_okD(2) [OF assms(3) ok] m(1) c]])
qed simp

definition closes :: "LoopState set \<Rightarrow> client \<Rightarrow> Loop \<Rightarrow> Loop \<Rightarrow> bool" where
  "closes states cl l l' \<longleftrightarrow> (client_ok cl \<longrightarrow> closing (Progress [] states) l \<longrightarrow>
     closing (Progress [] states) l' \<and> lp_posted l' = [] \<and> lp_post_closed l')"

lemma DrainPosted_closes: "Loop_DrainPostedAndClose cl l = Some l' \<Longrightarrow> closes states cl l l'"
proof (rule Loop_DrainPostedAndClose.raw_induct [where P = "closes states"])
  fix f cl l l'
  assume ih: "\<And>cl m m'. f cl m = Some m' \<Longrightarrow> closes states cl m m'"
    and eq: "(if lp_posted l = [] then Some (l\<lparr>lp_post_closed := True\<rparr>)
      else do {
        l1 \<leftarrow> run_batch cl (lp_posted l) (l\<lparr>lp_posted := []\<rparr>);
        l2 \<leftarrow> drain_ready cl l1;
        f cl l2
      }) = Some l'"
  show "closes states cl l l'"
  proof (cases "lp_posted l = []")
    case True
    have "closing (Progress [] states) l \<Longrightarrow> closing (Progress [] states) (l\<lparr>lp_post_closed := True\<rparr>)"
      using True by (simp add: closing_def deadline_cancel_def loop_ok_defs)
    then show ?thesis using eq True by (auto simp: closes_def)
  next
    case False
    then obtain l1 l2 where s: "run_batch cl (lp_posted l) (l\<lparr>lp_posted := []\<rparr>) = Some l1" "drain_ready cl l1 = Some l2" "f cl l2 = Some l'"
      using eq by (auto split: bind_splits)
    show ?thesis unfolding closes_def
    proof (intro impI)
      assume c: "client_ok cl" and cl: "closing (Progress [] states) l"
      have "closing (Progress (lp_posted l) states) (l\<lparr>lp_posted := []\<rparr>)"
        using cl by (simp add: closing_def deadline_cancel_def loop_ok_defs)
      from batch_closing [OF s(1) this c] have "closing (Progress [] states) l2"
        using drain_ready_closing [OF s(2), of "Progress [] states"] c by (simp add: drained_ready_def)
      then show "closing (Progress [] states) l' \<and> lp_posted l' = [] \<and> lp_post_closed l'"
        using ih [OF s(3)] c by (simp add: closes_def)
    qed
  qed
qed

section \<open>Run\<close>

definition runs :: "client \<Rightarrow> Loop \<Rightarrow> Loop \<Rightarrow> bool" where
  "runs cl l l' \<longleftrightarrow> (client_ok cl \<longrightarrow> loop_ok 0 0 (Progress [] {kRunning, kStopping}) l \<longrightarrow>
     loop_ok 0 0 (Progress [] {kRunning, kStopping}) l' \<and> lp_state l' = kStopping)"

lemma running_state: "loop_ok d k (Progress b {kRunning, kStopping}) l \<Longrightarrow> lp_state l \<noteq> kRunning \<Longrightarrow> lp_state l = kStopping"
  by (auto simp: loop_ok_def loop_inv_def posts_ok_def)

lemma Run_loop_runs: "Run_loop cl l = Some l' \<Longrightarrow> runs cl l l'"
proof (rule Run_loop.raw_induct [where P = runs])
  fix f cl l l'
  assume ih: "\<And>cl m m'. f cl m = Some m' \<Longrightarrow> runs cl m m'"
    and eq: "(if lp_state l \<noteq> kRunning then Some l
      else do {
        (completed, l1) \<leftarrow> Loop_PollCompletions cl l;
        case completed of
          Inl _ \<Rightarrow> Some (Loop_RequestStop l1)
        | Inr n \<Rightarrow>
            if lp_state l1 \<noteq> kRunning then Some l1
            else do {
              l2 \<leftarrow> Loop_RunReady cl l1;
              if n = 0 \<and> \<not> HasReadyWork l2 \<and> lp_inflight l2 > 0 then do {
                (completed, l3) \<leftarrow> Loop_WaitCompletionsFor cl l2;
                if (case completed of Inl e \<Rightarrow> e \<noteq> ETIME | Inr _ \<Rightarrow> False) then Some (Loop_RequestStop l3)
                else f cl l3
              } else f cl l2
            }
      }) = Some l'"
  show "runs cl l l'" unfolding runs_def
  proof (intro impI)
    assume c: "client_ok cl" and ok: "loop_ok 0 0 (Progress [] {kRunning, kStopping}) l"
    have stop: "loop_ok 0 0 (Progress [] {kRunning, kStopping}) (Loop_RequestStop m) \<and> lp_state (Loop_RequestStop m) = kStopping"
      if "loop_ok 0 0 (Progress [] {kRunning, kStopping}) m" for m
      using quiet_ok [OF quiet_RequestStop that] running_state [of 0 0 "[]" "Loop_RequestStop m"] RequestStop_state [of m] by blast
    show "loop_ok 0 0 (Progress [] {kRunning, kStopping}) l' \<and> lp_state l' = kStopping"
    proof (cases "lp_state l = kRunning")
      case False
      then show ?thesis using eq ok running_state [OF ok] by simp
    next
      case True
      then obtain r l1 where l1: "Loop_PollCompletions cl l = Some (r, l1)" using eq by (auto split: bind_splits)
      have ok1: "loop_ok 0 0 (Progress [] {kRunning, kStopping}) l1" by (rule Poll_ok [OF l1 ok c])
      show ?thesis
      proof (cases r)
        case (Inl e)
        then show ?thesis using eq True l1 stop [OF ok1] by simp
      next
        case (Inr n)
        show ?thesis
        proof (cases "lp_state l1 = kRunning")
          case False
          then show ?thesis using eq True l1 Inr ok1 running_state [OF ok1] by simp
        next
          case run1: True
          then obtain l2 where l2: "Loop_RunReady cl l1 = Some l2" using eq True l1 Inr by (auto split: bind_splits)
          have ok2: "loop_ok 0 0 (Progress [] {kRunning, kStopping}) l2" by (rule RunReady_ok [OF l2 ok1 c])
          consider (again) "f cl l2 = Some l'" | (wait) r3 l3 where "Loop_WaitCompletionsFor cl l2 = Some (r3, l3)"
              "l' = Loop_RequestStop l3 \<or> f cl l3 = Some l'"
            using eq True l1 Inr run1 l2 by (auto split: bind_splits if_splits)
          then show ?thesis
          proof cases
            case again
            then show ?thesis using ih [OF again] ok2 c by (simp add: runs_def)
          next
            case wait
            have ok3: "loop_ok 0 0 (Progress [] {kRunning, kStopping}) l3" by (rule Wait_ok [OF wait(1) ok2 c])
            show ?thesis using wait(2) stop [OF ok3] ih [of cl l3 l'] ok3 c by (auto simp: runs_def)
          qed
        qed
      qed
    qed
  qed
qed

lemma change_states:
  "loop_ok d k (Progress b S) l \<Longrightarrow> lp_state l \<in> S' \<Longrightarrow> kStopping \<in> S' \<Longrightarrow> loop_ok d k (Progress b S') l"
  by (simp add: loop_ok_def loop_inv_def posts_ok_def)

lemma Run_body_ok:
  assumes "Run_body cl stopped l = Some l'" "loop_ok 0 0 (Progress [] {kRunning, kStopping}) l" "client_ok cl"
  shows "closing (Progress [] {kStopping}) (l'\<lparr>lp_state := kStopping\<rparr>) \<and> lp_state l' = kStopped \<and>
    lp_posted l' = [] \<and> lp_post_closed l'"
proof -
  let ?l1 = "if stopped then Loop_RequestStop l else l"
  obtain l2 l3 where s: "Loop_RunPosted cl ?l1 = Some l2" "Run_loop cl l2 = Some l3"
    using assms(1) by (auto simp: Run_body_def Let_def split: bind_splits)
  have "loop_ok 0 0 (Progress [] {kRunning, kStopping}) ?l1" using assms(2) quiet_ok [OF quiet_RequestStop assms(2)] by simp
  then have "loop_ok 0 0 (Progress [] {kRunning, kStopping}) l2" using RunPosted_ok [OF s(1)] assms(3) by blast
  then have "loop_ok 0 0 (Progress [] {kRunning, kStopping}) l3" "lp_state l3 = kStopping"
    using Run_loop_runs [OF s(2)] assms(3) by (simp_all add: runs_def)
  then have l3: "loop_ok 0 0 (Progress [] {kStopping}) l3" "lp_state l3 = kStopping" using change_states [of 0 0 "[]"] by auto
  obtain l4 l5 l6 l7 where t: "Loop_BeginShutdown cl l3 = Some l4" "Loop_DrainStoppedOperations cl l4 = Some l5"
    "Loop_calls (cl_discard cl l5) l5 = Some l6" "Loop_DrainPostedAndClose cl l6 = Some l7" "l' = l7\<lparr>lp_state := kStopped\<rparr>"
    using assms(1) s l3(2) by (auto simp: Run_body_def Let_def split: bind_splits)
  have l5: "loop_ok 0 0 (Progress [] {kStopping}) l5" "IsDrained l5"
    using DrainStoppedOperations_drains [OF t(2) BeginShutdown_ok [OF t(1) l3(1) assms(3)] assms(3)] by blast+
  then have "lp_state l5 = kStopping" by (simp add: loop_ok_def loop_inv_def posts_ok_def)
  then have "closing (Progress [] {kStopping}) l5" using l5 drained_requests(1) [OF l5] by (auto simp: closing_def)
  then have "closing (Progress [] {kStopping}) l6" using calls_closing [OF client_okD(4) [OF assms(3) l5(1)] t(3)] by blast
  then have c: "closing (Progress [] {kStopping}) l7" "lp_posted l7 = []" "lp_post_closed l7"
    using DrainPosted_closes [OF t(4), of "{kStopping}"] assms(3) by (simp_all add: closes_def)
  have "lp_state l7 = kStopping" using c(1) by (simp add: closing_def)
  then have "l7\<lparr>lp_state := kStopping\<rparr> = l7" by simp
  then show ?thesis using c by (simp add: t(5))
qed

end
