(* ===== verification/Uring_Loop_Run.thy ===== *)
theory Uring_Loop_Run
  imports Uring_Loop_Inv
begin

text \<open>
  What the io_uring loop promises its users: exact counters in every reachable state, a shutdown that drains
  and runs every accepted callback, and a bounded, fair turn of the ready queues.
\<close>

section \<open>Reachable loops\<close>

text \<open>
  A loop that was initialized and then driven from the owner thread, by client calls and by the calls of
  other threads, in any order. The states between the turns of a running \<^verbatim>\<open>Run\<close> are among them: it starts by
  setting the state and then makes such calls.
\<close>

inductive loop_reach :: "client \<Rightarrow> Loop \<Rightarrow> bool" for cl where
  reach_new: "Loop_Init (Inr entries) fd deferred (Loop_new self resource standard wake cancel ctx answers) = Some (Inr (), l) \<Longrightarrow>
    wake \<noteq> nullptr \<Longrightarrow> cancel \<noteq> nullptr \<Longrightarrow> wake \<noteq> cancel \<Longrightarrow> loop_reach cl l"
| reach_start: "loop_reach cl l \<Longrightarrow> lp_state l = kCreated \<Longrightarrow> loop_reach cl (l\<lparr>lp_state := kRunning\<rparr>)"
| reach_owner: "loop_reach cl l \<Longrightarrow> calls_ok cs l \<Longrightarrow> Loop_calls cs l = Some l' \<Longrightarrow> loop_reach cl l'"
| reach_threads: "loop_reach cl l \<Longrightarrow> loop_reach cl (thread_calls cs l)"
| reach_flush: "loop_reach cl l \<Longrightarrow> Loop_FlushSubmit l = Some (r, l') \<Longrightarrow> loop_reach cl l'"
| reach_poll: "loop_reach cl l \<Longrightarrow> Loop_PollCompletions cl l = Some (s, l') \<Longrightarrow> loop_reach cl l'"
| reach_wait: "loop_reach cl l \<Longrightarrow> Loop_WaitCompletionsFor cl l = Some (s, l') \<Longrightarrow> loop_reach cl l'"
| reach_ready: "loop_reach cl l \<Longrightarrow> Loop_RunReady cl l = Some l' \<Longrightarrow> loop_reach cl l'"
| reach_cancel: "loop_reach cl l \<Longrightarrow> Loop_CancelPendingOperations l = Some (r, l') \<Longrightarrow> loop_reach cl l'"

lemma Init_ok:
  assumes "Loop_Init (Inr entries) fd deferred (Loop_new self resource standard wake cancel ctx answers) = Some (Inr (), l)"
    and "wake \<noteq> nullptr" "cancel \<noteq> nullptr" "wake \<noteq> cancel"
  shows "loop_ok 0 0 (Progress [] {kCreated, kRunning, kStopping}) l"
proof -
  let ?new = "Loop_new self resource standard wake cancel ctx answers"
  let ?m = "set_op cancel (Op_BeginNextRequest (op_at ?new cancel))
    (?new\<lparr>lp_ring := \<lparr>rg_entries = entries, rg_sq = [], rg_cq = [], rg_kernel = []\<rparr>, lp_wake_fd := fd,
      lp_defer_task_run := deferred, lp_initialized := True\<rparr>)"
  obtain r m where m: "Loop_ArmWakePoll ?m = Some (r, m)" "l = m"
    using assms(1) by (auto simp: Loop_Init_def Loop_new_def set_op_def Let_def split: if_splits bind_splits sum.splits)
  have ok: "loop_ok 0 0 (Progress [] {kCreated, kRunning, kStopping}) ?m"
    using assms(2-4) by (simp add: loop_ok_defs Loop_new_def set_op_def Op_BeginNextRequest_def Op_new_def)
  show ?thesis unfolding m(2)
    by (rule ArmWakePoll_ok [OF m(1) ok]) (simp add: Loop_new_def outstanding_def completed_cq_def set_op_def)
qed

lemma reach_ok:
  assumes "loop_reach cl l" "client_ok cl"
  shows "loop_ok 0 0 (Progress [] {kCreated, kRunning, kStopping}) l"
  using assms(1)
proof induction
  case (reach_new entries fd deferred self resource standard wake cancel ctx answers l)
  then show ?case by (rule Init_ok)
next
  case (reach_start l)
  then show ?case by (simp add: loop_ok_defs)
next
  case (reach_owner l cs l')
  then show ?case using calls_preserve by blast
next
  case (reach_threads l cs)
  then show ?case using quiet_ok [OF quiet_threads] by blast
next
  case (reach_flush l r l')
  then show ?case using Flush_ok by blast
next
  case (reach_poll l s l')
  then show ?case using Poll_ok assms(2) by blast
next
  case (reach_wait l s l')
  then show ?case using Wait_ok assms(2) by blast
next
  case (reach_ready l l')
  then show ?case using RunReady_ok assms(2) by blast
next
  case (reach_cancel l r l')
  then show ?case using CancelPending_ok by blast
qed

text \<open>A client that does nothing but let every request end.\<close>

definition idle_client :: client where
  "idle_client = \<lparr>cl_complete = (\<lambda>a event l. ([], \<lparr>kernel_request_terminal = \<not> Event_More event,
       decrement_inflight = \<not> Event_More event, resume_continuation = False\<rparr>)),
     cl_work = (\<lambda>w l. []), cl_posted = (\<lambda>p l. []), cl_participant = (\<lambda>p l. []), cl_discard = (\<lambda>l. [])\<rparr>"

lemma has_more_single: "\<not> returns_disposition k \<Longrightarrow> CompletionModelFor k = kSingleShot"
  by (cases k) simp_all

lemma idle_client_ok: "client_ok idle_client"
  by (auto simp: client_ok_def idle_client_def completes_ok_def handled_ok_def single_shot_def has_more_single)

text \<open>
  C4. The counters of the io_uring loop are exact. In every state reached by driving an initialized loop, the
  number of pending submissions is the number of prepared entries of the ring, the number of requests in flight
  is the number of submitted requests whose last completion was not handled, no request is outstanding twice,
  and a loop that reports itself drained has no ready work and no outstanding request but its own wake poll.
\<close>
theorem loop_accounting:
  assumes "loop_reach cl l" and "client_ok cl"
  shows "lp_pending_submit l = length (rg_sq (lp_ring l)) \<and>
    lp_inflight l = length (rg_kernel (lp_ring l)) + length (completed_cq (lp_ring l)) \<and>
    distinct (outstanding l) \<and>
    (IsDrained l \<longrightarrow> set (outstanding l) \<subseteq> {lp_wake_op l} \<and> \<not> HasReadyWork l)"
proof -
  note ok = reach_ok [OF assms]
  have "IsDrained l \<Longrightarrow> set (outstanding l) \<subseteq> {lp_wake_op l} \<and> \<not> HasReadyWork l"
    using drained_requests [OF ok] by (simp add: HasReadyWork_def)
  then show ?thesis using ok by (simp add: loop_ok_def loop_inv_def counts_ok_def requests_ok_def)
qed

text \<open>
  C3. When \<^verbatim>\<open>Run\<close> returns it has kept its promises: the loop is stopped, every callback whose \<^verbatim>\<open>Post\<close> was
  accepted has run, exactly once and in the order of acceptance, every later \<^verbatim>\<open>Post\<close> is refused, and no request is
  outstanding but the loop's own wake poll and the stream deadline cancels that callbacks of the shutdown
  submitted themselves.
\<close>
theorem loop_run_drains:
  assumes "loop_reach cl l" and "client_ok cl" and "lp_initialized l" and "lp_state l \<noteq> kRunning" and "Loop_Run cl stopped l = Some l'"
  shows "lp_state l' = kStopped \<and> lp_ran l' = lp_accepted l' \<and> Loop_Post callback l' = (Err ECANCELED, l') \<and>
    (\<forall>a \<in> set (outstanding l'). a = lp_wake_op l' \<or> deadline_cancel l' a)"
proof -
  note ok = reach_ok [OF assms(1,2)]
  then have st: "lp_state l = kCreated \<or> lp_state l = kStopping" using assms(4) by (simp add: loop_ok_def loop_inv_def posts_ok_def)
  let ?l = "if lp_state l = kCreated then l\<lparr>lp_state := kRunning\<rparr> else l"
  have run: "in_scope (Run_body cl stopped) ?l = Some l'" using assms(3,5) st by (auto simp: Loop_Run_def)
  then obtain t m ctx where m: "Run_body cl stopped (?l\<lparr>lp_context := t\<rparr>) = Some m" "l' = m\<lparr>lp_context := ctx\<rparr>"
    by (auto simp: in_scope_def split: bind_splits prod.splits)
  have "loop_ok 0 0 (Progress [] {kRunning, kStopping}) ?l" using ok st by (auto simp: loop_ok_defs)
  then have "loop_ok 0 0 (Progress [] {kRunning, kStopping}) (?l\<lparr>lp_context := t\<rparr>)" by simp
  from Run_body_ok [OF m(1) this assms(2)] show ?thesis unfolding m(2)
    by (auto simp: closing_def deadline_cancel_def outstanding_def Loop_Post_def loop_ok_def loop_inv_def posts_ok_def)
qed

section \<open>Concrete runs\<close>

declare Loop_DrainPostedAndClose.simps [code] DrainStopped_loop.simps [code] Run_loop.simps [code]
  drain_ready.simps [code] Loop_DrainWakeFd.simps [code] stop_participants.simps [code]

text \<open>
  The kernel takes what is submitted, three entries at the second call, and posts the ends of request 5 and of
  the cancel request 2.
\<close>

definition cqe_of :: "addr \<Rightarrow> 32 word \<Rightarrow> cqe" where
  "cqe_of a res = \<lparr>cqe_data = a, cqe_event = \<lparr>ev_result = res, ev_flags = 0\<rparr>\<rparr>"

definition shutdown_answers :: "nat \<Rightarrow> answer" where
  "shutdown_answers n = (if n = 2 then \<lparr>an_ret = 3, an_cqes = [cqe_of 5 7, cqe_of 2 0], an_threads = []\<rparr>
     else \<lparr>an_ret = (if n < 2 then 8 else 0), an_cqes = [], an_threads = []\<rparr>)"

definition fresh_loop :: "(nat \<Rightarrow> answer) \<Rightarrow> Loop" where
  "fresh_loop answers = snd (the (Loop_Init (Inr 8) 3 False (Loop_new 9 0 7 1 2 \<lparr>tc_scheduler = 0, tc_frame_resource = 7\<rparr> answers)))"

definition user_loop :: Loop where
  "user_loop = snd (Loop_Post 4 (the (Loop_calls [LC_Submit 5] (fresh_loop shutdown_answers))))"

lemma fresh_init:
  "Loop_Init (Inr 8) 3 False (Loop_new 9 0 7 1 2 \<lparr>tc_scheduler = 0, tc_frame_resource = 7\<rparr> answers) = Some (Inr (), fresh_loop answers)"
  by (simp add: fresh_loop_def Loop_Init_def Loop_new_def Loop_IsInLoopThread_def Loop_ArmWakePoll_def Loop_SubmitOp_def
      Ring_GetSqe_def set_op_def Let_def)

lemma fresh_reach: "loop_reach cl (fresh_loop answers)"
  by (rule reach_new [OF fresh_init]) simp_all

lemma fresh_fields:
  "outstanding (fresh_loop answers) = [1]" "lp_wake_op (fresh_loop answers) = 1" "lp_cancel_all_op (fresh_loop answers) = 2"
  "op_at (fresh_loop answers) 5 = Op_new kNone" "lp_initialized (fresh_loop answers)"
  by (simp_all add: fresh_loop_def Loop_Init_def Loop_new_def Loop_IsInLoopThread_def Loop_ArmWakePoll_def Loop_SubmitOp_def
      Ring_GetSqe_def set_op_def Let_def outstanding_def completed_cq_def)

lemma user_calls: "Loop_calls [LC_Submit 5] (fresh_loop answers) = Some (prepare 5 (fresh_loop answers))"
  by (simp add: fresh_loop_def Loop_Init_def Loop_new_def Loop_IsInLoopThread_def Loop_ArmWakePoll_def Loop_SubmitOp_def
      Ring_GetSqe_def set_op_def Let_def prepare_def Op_new_def)

lemma user_reach: "loop_reach cl user_loop"
proof -
  have "calls_ok [LC_Submit 5] (fresh_loop shutdown_answers)"
    by (auto simp: fresh_fields Op_all_defs split: option.splits)
  from reach_owner [OF fresh_reach this user_calls, of cl]
  have "loop_reach cl (thread_calls [TC_Post 4] (prepare 5 (fresh_loop shutdown_answers)))" by (rule reach_threads)
  then show ?thesis by (simp add: user_loop_def user_calls [simplified])
qed

theorem loop_accounting_witness:
  "loop_reach idle_client user_loop \<and> client_ok idle_client \<and> outstanding user_loop = [1, 5] \<and>
   lp_pending_submit user_loop = length (rg_sq (lp_ring user_loop)) \<and> distinct (outstanding user_loop)"
proof -
  have "outstanding user_loop = [1, 5]" by code_simp
  then show ?thesis using user_reach [of idle_client] idle_client_ok loop_accounting [OF user_reach idle_client_ok] by blast
qed

theorem loop_run_drains_witness:
  "\<exists>l'. Loop_Run idle_client True user_loop = Some l' \<and> lp_ran l' = [4] \<and> outstanding l' = [1] \<and> lp_state l' = kStopped"
proof -
  have "map_option (\<lambda>l. (lp_ran l, outstanding l)) (Loop_Run idle_client True user_loop) = Some ([4], [1])" by code_simp
  then obtain l' where l': "Loop_Run idle_client True user_loop = Some l'" "lp_ran l' = [4]" "outstanding l' = [1]" by auto
  have i: "lp_initialized user_loop" "lp_state user_loop \<noteq> kRunning" by code_simp+
  show ?thesis using l' loop_run_drains [OF user_reach idle_client_ok i l'(1)] by blast
qed

text \<open>A client whose posted callback submits request 5, and a kernel that takes the submissions one at a time.\<close>

definition submitting_client :: client where
  "submitting_client = idle_client\<lparr>cl_posted := (\<lambda>p l. if call_ok (LC_Submit 5) l then [LC_Submit 5] else [])\<rparr>"

lemma submitting_client_ok: "client_ok submitting_client"
proof -
  have p: "calls_ok (cl_posted submitting_client q l) l" for q l
    by (simp add: submitting_client_def split: option.splits)
  have s: "cl_complete submitting_client = cl_complete idle_client" "cl_work submitting_client = cl_work idle_client"
    "cl_participant submitting_client = cl_participant idle_client" "cl_discard submitting_client = cl_discard idle_client"
    by (simp_all add: submitting_client_def)
  show ?thesis using idle_client_ok p unfolding client_ok_def completes_ok_def s by simp
qed

definition partial_answers :: "nat \<Rightarrow> answer" where
  "partial_answers n =
     (if n = 1 then \<lparr>an_ret = 1, an_cqes = [cqe_of 1 1], an_threads = []\<rparr>
      else if n = 5 then \<lparr>an_ret = 1, an_cqes = [cqe_of 5 0], an_threads = []\<rparr>
      else if n \<in> {4, 6, 8} then \<lparr>an_ret = - EAGAIN, an_cqes = [], an_threads = []\<rparr>
      else \<lparr>an_ret = 8, an_cqes = [], an_threads = []\<rparr>)"

text \<open>
  C39. The user-visible count of requests in flight can wrap around. \<^verbatim>\<open>FlushSubmit\<close> marks the wake poll as
  submitted whenever the kernel took any entry, also when it took only entries in front of the wake poll. In a
  reachable state only the wake poll is outstanding, still unsubmitted, and \<^verbatim>\<open>InflightCount()\<close> is $2^{64} - 1$.
\<close>
theorem loop_inflight_wraps:
  "\<exists>l. loop_reach submitting_client l \<and> client_ok submitting_client \<and> rg_sq (lp_ring l) = [lp_wake_op l] \<and>
     rg_kernel (lp_ring l) = [] \<and> rg_cq (lp_ring l) = [] \<and> InflightCount l = 2 ^ 64 - 1"
proof -
  let ?l = "thread_calls [TC_Post 1] ((fresh_loop partial_answers)\<lparr>lp_state := kRunning\<rparr>)"
  have "lp_state (fresh_loop partial_answers) = kCreated" by code_simp
  from reach_start [OF fresh_reach this] have reach: "loop_reach submitting_client ?l" by (rule reach_threads)
  have "map_option (\<lambda>(r, l). (rg_sq (lp_ring l), lp_wake_op l, rg_kernel (lp_ring l), rg_cq (lp_ring l), lp_inflight l, lp_wake_inflight l))
    (Loop_PollCompletions submitting_client ?l) = Some ([1], 1, [], [], 0, True)" by code_simp
  then obtain r l where l: "Loop_PollCompletions submitting_client ?l = Some (r, l)" "rg_sq (lp_ring l) = [1]" "lp_wake_op l = 1"
    "rg_kernel (lp_ring l) = []" "rg_cq (lp_ring l) = []" "lp_inflight l = 0" "lp_wake_inflight l" by auto
  have "InflightCount l = 2 ^ 64 - 1" using l by (simp add: InflightCount_def size_minus_def)
  then show ?thesis using l reach_poll [OF reach l(1)] submitting_client_ok by auto
qed

section \<open>A turn of the ready queues\<close>

text \<open>What a client does while a work item runs can only append to the two queues.\<close>

definition queues_same :: "Loop \<Rightarrow> Loop \<Rightarrow> bool" where
  "queues_same l l' \<longleftrightarrow> lp_ready l' = lp_ready l \<and> lp_completion_ready l' = lp_completion_ready l \<and> lp_executed l' = lp_executed l"

definition queues_grow :: "Loop \<Rightarrow> Loop \<Rightarrow> bool" where
  "queues_grow l l' \<longleftrightarrow> (\<exists>xs ys. lp_ready l' = lp_ready l @ xs \<and> lp_completion_ready l' = lp_completion_ready l @ ys) \<and>
     lp_executed l' = lp_executed l"

lemma same_grow: "queues_same l l' \<Longrightarrow> queues_grow l l'"
  by (auto simp: queues_same_def queues_grow_def)

lemma grow_trans: "queues_grow l m \<Longrightarrow> queues_grow m n \<Longrightarrow> queues_grow l n"
  by (auto simp: queues_grow_def)

lemma same_trans: "queues_same l m \<Longrightarrow> queues_same m n \<Longrightarrow> queues_same l n"
  by (simp add: queues_same_def)

lemma quiet_same: "quiet l l' \<Longrightarrow> queues_same l l'"
  by (elim quietE) (simp add: queues_same_def)

lemma kernel_call_same: "kernel_call l = (ret, l') \<Longrightarrow> queues_same l l'"
  by (erule kernel_call_frame) (auto simp: posts_only_def queues_same_def elim!: quietE)

lemma Ring_Submit_same:
  assumes "Ring_Submit l = (r, l')"
  shows "queues_same l l'"
proof -
  let ?n = "nat (an_ret (lp_answers l (lp_calls l)))"
  obtain ret m where k: "kernel_call (take_submissions ?n l) = (ret, m)" by fastforce
  then have "l' = m" using assms by (auto simp: Ring_Submit_def take_answer_def take_submissions_def Let_def split: if_splits)
  moreover have "queues_same l (take_submissions ?n l)" by (simp add: queues_same_def take_submissions_def Let_def)
  ultimately show ?thesis using kernel_call_same [OF k] same_trans by blast
qed

lemma FlushSubmit_same: "FlushSubmit_loop l = (r, l') \<Longrightarrow> queues_same l l'"
proof (induction "lp_pending_submit l" arbitrary: l rule: less_induct)
  case less
  show ?case
  proof (cases "lp_pending_submit l > 0")
    case False
    then show ?thesis using less.prems by (simp add: FlushSubmit_loop.simps [of l] queues_same_def)
  next
    case p: True
    obtain s m where s: "Ring_Submit l = (s, m)" by fastforce
    note sm = Ring_Submit_same [OF s] Submit_pending [OF s]
    consider "l' = m" | n where "s = Inr n" "n \<noteq> 0" by (cases s) (use less.prems p s in \<open>auto simp: FlushSubmit_loop.simps [of l] split: if_splits\<close>)
    then show ?thesis
    proof cases
      case 2
      let ?k = "min n (lp_pending_submit m)"
      have "FlushSubmit_loop l = FlushSubmit_loop (count_submitted ?k m)"
        by (subst FlushSubmit_loop.simps) (simp only: p s 2 count_submitted_def Let_def prod.case sum.case if_True if_False)
      moreover have "lp_pending_submit (count_submitted ?k m) < lp_pending_submit l"
        using p sm(2) 2 by (simp add: count_submitted_def Let_def)
      ultimately have "queues_same (count_submitted ?k m) l'" using less by simp
      moreover have "queues_same m (count_submitted ?k m)" by (simp add: queues_same_def count_submitted_def Let_def)
      ultimately show ?thesis using sm(1) same_trans by blast
    qed (use sm in simp)
  qed
qed

lemma SubmitOp_same: "Loop_SubmitOp a l = Some (r, l') \<Longrightarrow> queues_same l l'"
proof (cases "FlushSubmit_loop l")
  case (Pair f m)
  assume "Loop_SubmitOp a l = Some (r, l')"
  then show ?thesis using FlushSubmit_same [OF Pair] Pair
    by (auto simp: Loop_SubmitOp_def Loop_FlushSubmit_def queues_same_def Let_def split: if_splits sum.splits)
qed

lemma call_grow:
  assumes "Loop_call c l = Some l'"
  shows "queues_grow l l'"
proof (cases c)
  case (LC_Submit a)
  then show ?thesis using assms SubmitOp_same same_grow by auto
next
  case (LC_Post p)
  then show ?thesis using assms same_grow [OF quiet_same [OF quiet_Post]] by auto
next
  case LC_RequestStop
  then show ?thesis using assms same_grow [OF quiet_same [OF quiet_RequestStop]] by auto
qed (use assms in \<open>auto simp: queues_grow_def set_op_def Loop_Schedule_def Loop_ScheduleCompletion_def
    Loop_RegisterShutdownParticipant_def Loop_UnregisterShutdownParticipant_def split: bind_splits if_splits\<close>)

lemma calls_grow: "Loop_calls cs l = Some l' \<Longrightarrow> queues_grow l l'"
proof (induction cs arbitrary: l)
  case (Cons c cs)
  then obtain m where "Loop_call c l = Some m" "Loop_calls cs m = Some l'" by (auto split: bind_splits)
  with Cons.IH call_grow grow_trans show ?case by blast
qed (simp add: queues_grow_def)

lemma run_work_grow:
  assumes "run_work cl f w l = Some l'"
  obtains xs ys where "lp_ready l' = lp_ready l @ xs" "lp_completion_ready l' = lp_completion_ready l @ ys"
    "lp_executed l' = lp_executed l @ [(f, w)]"
proof -
  let ?l = "l\<lparr>lp_executed := lp_executed l @ [(f, w)]\<rparr>"
  have "Loop_calls (cl_work cl w ?l) ?l = Some l'" using assms by (simp add: run_work_def Let_def)
  from calls_grow [OF this] show ?thesis using that by (auto simp: queues_grow_def)
qed

text \<open>
  The work of a turn: \<open>resumed\<close> was resumed, from the completion queue (\<open>True\<close>) or the ready queue, each queue in its
  order and with what was scheduled meanwhile behind it.
\<close>

definition from_queue :: "bool \<Rightarrow> (bool \<times> addr) list \<Rightarrow> addr list" where
  "from_queue f resumed = map snd (filter (\<lambda>x. fst x = f) resumed)"

definition turn :: "nat \<Rightarrow> nat \<Rightarrow> Loop \<Rightarrow> (bool \<times> addr) list \<Rightarrow> Loop \<Rightarrow> bool" where
  "turn n r l resumed l' \<longleftrightarrow>
     lp_executed l' = lp_executed l @ resumed \<and>
     (\<exists>xs. lp_ready l @ xs = from_queue False resumed @ lp_ready l') \<and>
     (\<exists>ys. lp_completion_ready l @ ys = from_queue True resumed @ lp_completion_ready l') \<and>
     length resumed \<le> n \<and> (length resumed < n \<longrightarrow> \<not> HasReadyWork l') \<and>
     min (length (lp_ready l)) (n - (kMaxCompletionWorkPerTurn - r)) \<le> length (from_queue False resumed)"

lemma RunReady_turn: "RunReady_loop cl n r l = Some l' \<Longrightarrow> \<exists>resumed. turn n r l resumed l'"
proof (induction n arbitrary: r l)
  case 0
  then show ?case by (auto simp: turn_def from_queue_def intro!: exI [of _ "[]"])
next
  case (Suc n)
  consider (none) "lp_completion_ready l = []" "lp_ready l = []"
    | (completion) w rest where "lp_completion_ready l = w # rest" "lp_ready l = [] \<or> r < kMaxCompletionWorkPerTurn"
    | (ready) w rest where "lp_ready l = w # rest" "lp_completion_ready l = [] \<or> \<not> r < kMaxCompletionWorkPerTurn"
    by (cases "lp_completion_ready l"; cases "lp_ready l"; blast)
  then show ?case
  proof cases
    case none
    then show ?thesis using Suc.prems by (auto simp: turn_def from_queue_def HasReadyWork_def intro!: exI [of _ "[]"])
  next
    case completion
    then obtain m where m: "run_work cl True w (l\<lparr>lp_completion_ready := rest\<rparr>) = Some m" "RunReady_loop cl n (Suc r) m = Some l'"
      using Suc.prems by (auto split: bind_splits)
    from run_work_grow [OF m(1)] obtain xs ys where g: "lp_ready m = lp_ready l @ xs" "lp_completion_ready m = rest @ ys"
      "lp_executed m = lp_executed l @ [(True, w)]" by auto
    from Suc.IH [OF m(2)] obtain resumed where t: "turn n (Suc r) m resumed l'" by blast
    have "min (length (lp_ready l)) (Suc n - (kMaxCompletionWorkPerTurn - r)) \<le> length (from_queue False resumed)"
      using t completion(2) g(1) by (auto simp: turn_def)
    then have "turn (Suc n) r l ((True, w) # resumed) l'"
      using t g completion(1) by (auto simp: turn_def from_queue_def)
    then show ?thesis by blast
  next
    case ready
    then obtain m where m: "run_work cl False w (l\<lparr>lp_ready := rest\<rparr>) = Some m" "RunReady_loop cl n r m = Some l'"
      using Suc.prems by (auto split: bind_splits list.splits)
    from run_work_grow [OF m(1)] obtain xs ys where g: "lp_ready m = rest @ xs" "lp_completion_ready m = lp_completion_ready l @ ys"
      "lp_executed m = lp_executed l @ [(False, w)]" by auto
    from Suc.IH [OF m(2)] obtain resumed where t: "turn n r m resumed l'" by blast
    have "min (length rest) (n - (kMaxCompletionWorkPerTurn - r)) \<le> length (from_queue False resumed)"
      using t g(1) by (auto simp: turn_def)
    then have "min (Suc (length rest)) (Suc n - (kMaxCompletionWorkPerTurn - r)) \<le> Suc (length (from_queue False resumed))"
      by arith
    then have "turn (Suc n) r l ((False, w) # resumed) l'"
      using t g ready(1) by (auto simp: turn_def from_queue_def)
    then show ?thesis by blast
  qed
qed

text \<open>
  C12. A turn of the loop is bounded and fair. \<^verbatim>\<open>RunReady\<close> resumes at most 256 work items, stops early only when both
  queues are empty, takes each queue in its order with newly scheduled work behind, and resumes at least 192 items
  of the ready queue, or all it held, however many completions keep arriving.
\<close>
theorem run_ready_fair:
  assumes "Loop_RunReady cl l = Some l'"
  shows "\<exists>resumed. lp_executed l' = lp_executed l @ resumed \<and>
    (\<exists>xs. lp_ready l @ xs = from_queue False resumed @ lp_ready l') \<and>
    (\<exists>ys. lp_completion_ready l @ ys = from_queue True resumed @ lp_completion_ready l') \<and>
    length resumed \<le> 256 \<and> (length resumed = 256 \<or> lp_ready l' = [] \<and> lp_completion_ready l' = []) \<and>
    min (length (lp_ready l)) 192 \<le> length (from_queue False resumed)"
proof -
  obtain t m ctx where m: "RunReady_loop cl kMaxReadyWorkPerTurn 0 (l\<lparr>lp_context := t\<rparr>) = Some m" "l' = m\<lparr>lp_context := ctx\<rparr>"
    using assms by (auto simp: Loop_RunReady_def in_scope_def split: bind_splits prod.splits)
  obtain resumed where "turn kMaxReadyWorkPerTurn 0 (l\<lparr>lp_context := t\<rparr>) resumed m" using RunReady_turn [OF m(1)] by blast
  then show ?thesis unfolding m(2) turn_def kMaxReadyWorkPerTurn_def kMaxCompletionWorkPerTurn_def
    by (intro exI [of _ resumed]) (auto simp: HasReadyWork_def)
qed

definition queued_loop :: Loop where
  "queued_loop = (fresh_loop shutdown_answers)\<lparr>lp_ready := [11, 12], lp_completion_ready := [13]\<rparr>"

theorem run_ready_fair_witness:
  "\<exists>l' resumed. Loop_RunReady idle_client queued_loop = Some l' \<and> lp_executed l' = resumed \<and> resumed = [(True, 13), (False, 11), (False, 12)] \<and>
     length resumed \<le> 256 \<and> from_queue False resumed = [11, 12]"
proof -
  have e: "map_option lp_executed (Loop_RunReady idle_client queued_loop) = Some [(True, 13), (False, 11), (False, 12)]" by code_simp
  then obtain l' where l': "Loop_RunReady idle_client queued_loop = Some l'" "lp_executed l' = [(True, 13), (False, 11), (False, 12)]" by auto
  have "lp_executed queued_loop = []" by code_simp
  with run_ready_fair [OF l'(1)] l' show ?thesis by (auto simp: from_queue_def)
qed

end
