(* ===== verification/Uring_Timer_Queue.thy ===== *)
theory Uring_Timer_Queue
  imports Timer_Index Uring_Loop_Inv
begin

text \<open>
  \<^verbatim>\<open>uring/detail/timer_queue.h\<close> and \<^verbatim>\<open>src/uring/timer_queue.cc\<close>: the timer queue of the io_uring loop, and the
  timer functions of \<^verbatim>\<open>Loop\<close> that call it. Two operations of the loop serve all timers: the driver, an absolute timeout for
  the earliest deadline, and the control operation, which moves the driver to an earlier deadline or, where the
  kernel refuses that, is a second timeout. The state holds the loop it submits to; clock readings are
  arguments, \<open>acquire\<close> stands for \<^verbatim>\<open>make_unique\<close>. A user callback is any program that adds and cancels timers
  and uses the loop: \<open>calls w\<close> are its calls, depending on the sequence numbers \<open>w\<close> of all timers that ran so
  far.
\<close>

section \<open>State\<close>

record kernel_timespec =
  tv_sec :: int
  tv_nsec :: int

record UringTimerQueue = TimerBook +
  utq_loop :: Loop
  utq_driver_op :: addr
  utq_control_op :: addr
  utq_driver_armed :: bool
  utq_control_pending :: bool
  utq_control_is_fallback :: bool
  utq_fallback_armed :: bool
  utq_update_supported :: bool
  utq_driver_deadline :: int
  utq_requested_deadline :: int
  utq_driver_timespec :: kernel_timespec
  utq_fallback_timespec :: kernel_timespec
  utq_update_timespec :: kernel_timespec

text \<open>Deadlines are nanoseconds since the epoch of the clock.\<close>

definition ToKernelTimespec :: "int \<Rightarrow> kernel_timespec" where
  "ToKernelTimespec deadline =
     (let clamped = max 0 deadline in \<lparr>tv_sec = clamped div 1000000000, tv_nsec = clamped mod 1000000000\<rparr>)"

section \<open>The kernel timeouts\<close>

definition begin_request :: "addr \<Rightarrow> UringTimerQueue \<Rightarrow> UringTimerQueue" where
  "begin_request a q = q\<lparr>utq_loop := set_op a (Op_BeginNextRequest (op_at (utq_loop q) a)) (utq_loop q)\<rparr>"

definition submit_request :: "addr \<Rightarrow> UringTimerQueue \<Rightarrow> (unit result \<times> UringTimerQueue) option" where
  "submit_request a q = do { (r, l) \<leftarrow> Loop_SubmitOp a (utq_loop q); Some (r, q\<lparr>utq_loop := l\<rparr>) }"

definition UringTimers_Arm :: "int \<Rightarrow> UringTimerQueue \<Rightarrow> (unit result \<times> UringTimerQueue) option" where
  "UringTimers_Arm deadline q = do {
     let q1 = begin_request (utq_driver_op q) (q\<lparr>utq_driver_timespec := ToKernelTimespec deadline\<rparr>);
     (r, q2) \<leftarrow> submit_request (utq_driver_op q1) q1;
     case r of
       Inl e \<Rightarrow> Some (Err e, q2)
     | Inr _ \<Rightarrow> Some (Ok (), q2\<lparr>utq_driver_armed := True, utq_driver_deadline := deadline\<rparr>)
   }"

definition UringTimers_ArmFallback :: "int \<Rightarrow> UringTimerQueue \<Rightarrow> (unit result \<times> UringTimerQueue) option" where
  "UringTimers_ArmFallback deadline q = do {
     let q1 = begin_request (utq_control_op q) (q\<lparr>utq_fallback_timespec := ToKernelTimespec deadline\<rparr>);
     let q2 = q1\<lparr>utq_control_is_fallback := True\<rparr>;
     (r, q3) \<leftarrow> submit_request (utq_control_op q2) q2;
     case r of
       Inr _ \<Rightarrow> Some (Ok (), q3\<lparr>utq_control_pending := True, utq_fallback_armed := True\<rparr>)
     | Inl e \<Rightarrow> Some (Err e, q3\<lparr>utq_control_is_fallback := False\<rparr>)
   }"

definition UringTimers_Update :: "int \<Rightarrow> UringTimerQueue \<Rightarrow> (unit result \<times> UringTimerQueue) option" where
  "UringTimers_Update deadline q = do {
     let q1 = begin_request (utq_control_op q)
       (q\<lparr>utq_update_timespec := ToKernelTimespec deadline, utq_requested_deadline := deadline\<rparr>);
     let q2 = q1\<lparr>utq_control_is_fallback := False\<rparr>;
     (r, q3) \<leftarrow> submit_request (utq_control_op q2) q2;
     case r of
       Inl e \<Rightarrow> Some (Err e, q3\<lparr>utq_requested_deadline := 0\<rparr>)
     | Inr _ \<Rightarrow> Some (Ok (), q3\<lparr>utq_control_pending := True\<rparr>)
   }"

definition UringTimers_Reconcile :: "UringTimerQueue \<Rightarrow> (unit result \<times> UringTimerQueue) option" where
  "UringTimers_Reconcile q =
     (if utq_control_pending q then Some (Ok (), q)
      else
        let earliest = TimerIndex_Earliest (tb_timers q) in
        if \<not> utq_driver_armed q then
          (if earliest \<noteq> nullptr then UringTimers_Arm (tb_exp q earliest) q else Some (Ok (), q))
        else if earliest \<noteq> nullptr \<and> tb_exp q earliest < utq_driver_deadline q then
          (if utq_update_supported q then UringTimers_Update (tb_exp q earliest) q
           else if \<not> utq_fallback_armed q then UringTimers_ArmFallback (tb_exp q earliest) q
           else Some (Ok (), q))
        else Some (Ok (), q))"

definition UringTimers_ReconcileOrStop :: "UringTimerQueue \<Rightarrow> UringTimerQueue option" where
  "UringTimers_ReconcileOrStop q = do {
     (reconciled, q1) \<leftarrow> UringTimers_Reconcile q;
     case reconciled of
       Inl _ \<Rightarrow> Some (q1\<lparr>utq_loop := Loop_RequestStop (utq_loop q1)\<rparr>)
     | Inr _ \<Rightarrow> Some q1
   }"

section \<open>Adding, cancelling and discarding\<close>

definition drop_timer :: "int \<Rightarrow> addr \<Rightarrow> 'z TimerBook_scheme \<Rightarrow> 'z TimerBook_scheme" where
  "drop_timer tid t q = q\<lparr>tb_active := (tb_active q)(tid := None), tb_live := tb_live q - {t}\<rparr>"

definition UringTimers_AddTimer ::
    "(addr set \<Rightarrow> addr) \<Rightarrow> callback option \<Rightarrow> int \<Rightarrow> int \<Rightarrow> UringTimerQueue \<Rightarrow> (int result \<times> UringTimerQueue) option" where
  "UringTimers_AddTimer acquire cb deadline interval q = do {
     check (Loop_IsInLoopThread (utq_loop q));
     let t = acquire (tb_live q);
     let q1 = Timer_construct t cb deadline interval q;
     let tid = tb_seq q1 t;
     if tb_active q1 tid \<noteq> None then Some (Err EEXIST, q1\<lparr>tb_live := tb_live q1 - {t}\<rparr>)
     else do {
       (inserted, q2) \<leftarrow> book_insert_timer t (q1\<lparr>tb_active := (tb_active q1)(tid \<mapsto> t)\<rparr>);
       if \<not> inserted then Some (Err EEXIST, drop_timer tid t q2)
       else do {
         (reconciled, q3) \<leftarrow> UringTimers_Reconcile q2;
         case reconciled of
           Inl e \<Rightarrow> do {
             (erased, q4) \<leftarrow> book_erase_timer t q3;
             check erased;
             Some (Err e, drop_timer tid t q4)
           }
         | Inr _ \<Rightarrow> Some (Ok tid, q3)
       }
     }
   }"

definition UringTimers_AddAfter ::
    "(addr set \<Rightarrow> addr) \<Rightarrow> int \<Rightarrow> callback option \<Rightarrow> int \<Rightarrow> UringTimerQueue \<Rightarrow> (int result \<times> UringTimerQueue) option" where
  "UringTimers_AddAfter acquire delay cb now q = UringTimers_AddTimer acquire cb (now + max delay 0) 0 q"

definition UringTimers_Cancel :: "int \<Rightarrow> UringTimerQueue \<Rightarrow> (unit result \<times> UringTimerQueue) option" where
  "UringTimers_Cancel tid q = do {
     check (Loop_IsInLoopThread (utq_loop q));
     if tb_processing q \<noteq> nullptr \<and> tb_seq q (tb_processing q) = tid then Some (Ok (), q\<lparr>tb_cancelled := True\<rparr>)
     else
       case tb_active q tid of
         None \<Rightarrow> Some (Err ENOENT, q)
       | Some t \<Rightarrow> do {
           (erased, q1) \<leftarrow> book_erase_timer t q;
           check erased;
           q2 \<leftarrow> UringTimers_ReconcileOrStop (drop_timer tid t q1);
           Some (Ok (), q2)
         }
   }"

text \<open>\<^verbatim>\<open>active_.clear()\<close> destroys the timers that it owns.\<close>

definition UringTimers_DiscardAll :: "UringTimerQueue \<Rightarrow> UringTimerQueue option" where
  "UringTimers_DiscardAll q = do {
     check (Loop_IsInLoopThread (utq_loop q));
     store \<leftarrow> TimerIndex_Clear (tb_timers q);
     Some (q\<lparr>tb_timers := store, tb_active := Map.empty, tb_live := tb_live q - ran (tb_active q),
       utq_driver_armed := False, utq_control_pending := False, utq_control_is_fallback := False,
       utq_fallback_armed := False, utq_driver_deadline := 0, utq_requested_deadline := 0\<rparr>)
   }"

definition UringTimers_destroy :: "UringTimerQueue \<Rightarrow> UringTimerQueue option" where
  "UringTimers_destroy q = do {
     q1 \<leftarrow> UringTimers_DiscardAll q;
     check (TimerIndex_Empty (tb_timers q1));
     check (tb_active q1 = Map.empty);
     Some q1
   }"

section \<open>The timer functions of the loop\<close>

definition Loop_RunAfter ::
    "(addr set \<Rightarrow> addr) \<Rightarrow> int \<Rightarrow> callback option \<Rightarrow> int \<Rightarrow> UringTimerQueue \<Rightarrow> (int result \<times> UringTimerQueue) option" where
  "Loop_RunAfter acquire delay cb now q = do {
     check (Loop_IsInLoopThread (utq_loop q));
     if \<not> lp_initialized (utq_loop q) then Some (Err EBADF, q) else UringTimers_AddAfter acquire delay cb now q
   }"

definition Loop_RunAt ::
    "(addr set \<Rightarrow> addr) \<Rightarrow> int \<Rightarrow> callback option \<Rightarrow> UringTimerQueue \<Rightarrow> (int result \<times> UringTimerQueue) option" where
  "Loop_RunAt acquire deadline cb q = do {
     check (Loop_IsInLoopThread (utq_loop q));
     if \<not> lp_initialized (utq_loop q) then Some (Err EBADF, q) else UringTimers_AddTimer acquire cb deadline 0 q
   }"

definition Loop_RunEvery ::
    "(addr set \<Rightarrow> addr) \<Rightarrow> int \<Rightarrow> callback option \<Rightarrow> int \<Rightarrow> UringTimerQueue \<Rightarrow> (int result \<times> UringTimerQueue) option" where
  "Loop_RunEvery acquire interval cb now q = do {
     check (Loop_IsInLoopThread (utq_loop q));
     if \<not> lp_initialized (utq_loop q) then Some (Err EBADF, q)
     else UringTimers_AddTimer acquire cb (now + interval) interval q
   }"

definition Loop_Cancel :: "int \<Rightarrow> UringTimerQueue \<Rightarrow> (unit result \<times> UringTimerQueue) option" where
  "Loop_Cancel tid q = do {
     check (Loop_IsInLoopThread (utq_loop q));
     if \<not> lp_initialized (utq_loop q) then Some (Err EBADF, q) else UringTimers_Cancel tid q
   }"

section \<open>Expiry\<close>

datatype utimer_call =
    UC_RunAfter int "callback option" int
  | UC_RunAt int "callback option"
  | UC_RunEvery int "callback option" int
  | UC_Cancel int
  | UC_Loop loop_call

fun UringTimers_call :: "(addr set \<Rightarrow> addr) \<Rightarrow> utimer_call \<Rightarrow> UringTimerQueue \<Rightarrow> UringTimerQueue option" where
  "UringTimers_call acquire (UC_RunAfter delay cb now) q = map_option snd (Loop_RunAfter acquire delay cb now q)"
| "UringTimers_call acquire (UC_RunAt deadline cb) q = map_option snd (Loop_RunAt acquire deadline cb q)"
| "UringTimers_call acquire (UC_RunEvery interval cb now) q = map_option snd (Loop_RunEvery acquire interval cb now q)"
| "UringTimers_call acquire (UC_Cancel tid) q = map_option snd (Loop_Cancel tid q)"
| "UringTimers_call acquire (UC_Loop c) q = map_option (\<lambda>l. q\<lparr>utq_loop := l\<rparr>) (Loop_call c (utq_loop q))"

fun UringTimers_calls :: "(addr set \<Rightarrow> addr) \<Rightarrow> utimer_call list \<Rightarrow> UringTimerQueue \<Rightarrow> UringTimerQueue option" where
  "UringTimers_calls acquire [] q = Some q"
| "UringTimers_calls acquire (c # cs) q = do { q' \<leftarrow> UringTimers_call acquire c q; UringTimers_calls acquire cs q' }"

definition UringTimer_Run ::
    "(addr set \<Rightarrow> addr) \<Rightarrow> (int list \<Rightarrow> utimer_call list) \<Rightarrow> addr \<Rightarrow> UringTimerQueue \<Rightarrow> int list \<Rightarrow> (UringTimerQueue \<times> int list) option" where
  "UringTimer_Run acquire calls timer q w =
     (case tm_callback (tb_pool q timer) of
        None \<Rightarrow> Some (q, w @ [tb_seq q timer])
      | Some _ \<Rightarrow> do {
          q' \<leftarrow> UringTimers_calls acquire (calls (w @ [tb_seq q timer])) q;
          Some (q', w @ [tb_seq q timer])
        })"

definition UringTimers_OnExpired ::
    "(addr set \<Rightarrow> addr) \<Rightarrow> (int list \<Rightarrow> utimer_call list) \<Rightarrow> int \<Rightarrow> addr \<Rightarrow> UringTimerQueue \<Rightarrow> int list \<Rightarrow> (UringTimerQueue \<times> int list) option" where
  "UringTimers_OnExpired acquire calls now timer q w = do {
     let tid = tb_seq q timer;
     check (tb_active q tid \<noteq> None);
     let q1 = q\<lparr>tb_active := (tb_active q)(tid := None)\<rparr>;
     if \<not> tm_repeat (tb_pool q1 timer) then do {
       (q2, w2) \<leftarrow> UringTimer_Run acquire calls timer q1 w;
       Some (q2\<lparr>tb_live := tb_live q2 - {timer}\<rparr>, w2)
     }
     else do {
       (q2, w2) \<leftarrow> UringTimer_Run acquire calls timer (q1\<lparr>tb_processing := timer, tb_cancelled := False\<rparr>) w;
       let cancelled = tb_cancelled q2;
       let q3 = q2\<lparr>tb_processing := nullptr, tb_cancelled := False\<rparr>;
       if cancelled then Some (q3\<lparr>tb_live := tb_live q3 - {timer}\<rparr>, w2)
       else do {
         let q4 = q3\<lparr>tb_pool := (tb_pool q3)(timer := Timer_Restart now (tb_pool q3 timer))\<rparr>;
         check (tb_active q4 tid = None);
         (inserted, q5) \<leftarrow> book_insert_timer timer (q4\<lparr>tb_active := (tb_active q4)(tid \<mapsto> timer)\<rparr>);
         check inserted;
         Some (q5, w2)
       }
     }
   }"

text \<open>\<^verbatim>\<open>PopWhile\<close> with the callback above, which may change the index while it is walked.\<close>

partial_function (option) UringTimers_ProcessExpired ::
    "(addr set \<Rightarrow> addr) \<Rightarrow> (int list \<Rightarrow> utimer_call list) \<Rightarrow> int \<Rightarrow> UringTimerQueue \<Rightarrow> int list \<Rightarrow> (UringTimerQueue \<times> int list) option" where
  "UringTimers_ProcessExpired acquire calls now q w =
     (if TimerIndex_Empty (tb_timers q) then Some (q, w)
      else
        let elem = TimerIndex_Earliest (tb_timers q) in
        if \<not> tb_exp q elem \<le> now then Some (q, w)
        else do {
          (erased, q1) \<leftarrow> book_erase_timer elem q;
          check erased;
          (q2, w2) \<leftarrow> UringTimers_OnExpired acquire calls now elem q1 w;
          UringTimers_ProcessExpired acquire calls now q2 w2
        })"

section \<open>Completions\<close>

text \<open>The read of \<^verbatim>\<open>op->result\<close> fails its check when there is no result.\<close>

definition HandleDriverComplete ::
    "(addr set \<Rightarrow> addr) \<Rightarrow> (int list \<Rightarrow> utimer_call list) \<Rightarrow> int \<Rightarrow> UringTimerQueue \<Rightarrow> int list \<Rightarrow> (UringTimerQueue \<times> int list) option" where
  "HandleDriverComplete acquire calls now q w = do {
     r \<leftarrow> CqeResult_read (op_result (op_at (utq_loop q) (utq_driver_op q)));
     let expired = (sint r = - ETIME);
     let q1 = q\<lparr>utq_driver_armed := False, utq_driver_deadline := 0\<rparr>;
     (q2, w2) \<leftarrow> (if expired then UringTimers_ProcessExpired acquire calls now q1 w else Some (q1, w));
     q3 \<leftarrow> UringTimers_ReconcileOrStop q2;
     Some (q3, w2)
   }"

definition HandleControlComplete ::
    "(addr set \<Rightarrow> addr) \<Rightarrow> (int list \<Rightarrow> utimer_call list) \<Rightarrow> int \<Rightarrow> UringTimerQueue \<Rightarrow> int list \<Rightarrow> (UringTimerQueue \<times> int list) option" where
  "HandleControlComplete acquire calls now q w = do {
     r \<leftarrow> CqeResult_read (op_result (op_at (utq_loop q) (utq_control_op q)));
     let q1 = q\<lparr>utq_control_pending := False\<rparr>;
     if utq_control_is_fallback q1 then do {
       let q2 = q1\<lparr>utq_control_is_fallback := False, utq_fallback_armed := False\<rparr>;
       (q3, w3) \<leftarrow> (if sint r = - ETIME then UringTimers_ProcessExpired acquire calls now q2 w else Some (q2, w));
       q4 \<leftarrow> UringTimers_ReconcileOrStop q3;
       Some (q4, w3)
     }
     else do {
       let q2 = (if r = 0 then q1\<lparr>utq_driver_deadline := utq_requested_deadline q1\<rparr> else q1\<lparr>utq_update_supported := False\<rparr>);
       q3 \<leftarrow> UringTimers_ReconcileOrStop q2;
       Some (q3, w)
     }
   }"

definition UringTimers_init :: "Loop \<Rightarrow> addr \<Rightarrow> addr \<Rightarrow> addr \<Rightarrow> RBHeap \<Rightarrow> int \<Rightarrow> UringTimerQueue" where
  "UringTimers_init l driver control s h seq =
     \<lparr>tb_timers = Tree_init s h, tb_pool = (\<lambda>_. Timer_new None 0 0 0), tb_live = {}, tb_active = Map.empty,
      tb_processing = nullptr, tb_cancelled = False, tb_sequence = seq,
      utq_loop = set_op control (Op_new kTimerControlComplete) (set_op driver (Op_new kTimerDriverComplete) l),
      utq_driver_op = driver, utq_control_op = control,
      utq_driver_armed = False, utq_control_pending = False, utq_control_is_fallback = False, utq_fallback_armed = False,
      utq_update_supported = True, utq_driver_deadline = 0, utq_requested_deadline = 0,
      utq_driver_timespec = \<lparr>tv_sec = 0, tv_nsec = 0\<rparr>, utq_fallback_timespec = \<lparr>tv_sec = 0, tv_nsec = 0\<rparr>,
      utq_update_timespec = \<lparr>tv_sec = 0, tv_nsec = 0\<rparr>\<rparr>"

section \<open>The invariant of the timeouts\<close>

definition stopping :: "Loop \<Rightarrow> bool" where
  "stopping l \<longleftrightarrow> lp_state l \<in> {kStopping, kStopped}"

definition ops_ok :: "nat \<Rightarrow> progress \<Rightarrow> addr \<Rightarrow> addr \<Rightarrow> Loop \<Rightarrow> bool" where
  "ops_ok d b driver control l \<longleftrightarrow> loop_ok d 0 b l \<and> Loop_IsInLoopThread l \<and> driver \<noteq> control \<and>
     (\<forall>a\<in>{driver, control}. a \<noteq> nullptr \<and> a \<noteq> lp_wake_op l \<and> a \<noteq> lp_cancel_all_op l) \<and>
     op_kind (op_at l driver) = kTimerDriverComplete \<and> op_kind (op_at l control) = kTimerControlComplete"

text \<open>
  The flags say which of the two requests is outstanding in the loop. \<open>d\<close> and \<open>b\<close> are the parameters of the
  loop's own invariant.
\<close>

definition timers_ok :: "nat \<Rightarrow> progress \<Rightarrow> UringTimerQueue \<Rightarrow> bool" where
  "timers_ok d b q \<longleftrightarrow> ops_ok d b (utq_driver_op q) (utq_control_op q) (utq_loop q) \<and>
     (utq_driver_op q \<in> set (outstanding (utq_loop q)) \<longleftrightarrow> utq_driver_armed q) \<and>
     (utq_control_op q \<in> set (outstanding (utq_loop q)) \<longleftrightarrow> utq_control_pending q) \<and>
     (utq_fallback_armed q \<longleftrightarrow> utq_control_pending q \<and> utq_control_is_fallback q)"

text \<open>What a step of the queue keeps of the loop.\<close>

definition loop_kept :: "UringTimerQueue \<Rightarrow> UringTimerQueue \<Rightarrow> bool" where
  "loop_kept q q' \<longleftrightarrow> utq_driver_op q' = utq_driver_op q \<and> utq_control_op q' = utq_control_op q \<and>
     (stopping (utq_loop q) \<longrightarrow> stopping (utq_loop q'))"

lemma loop_kept_refl [simp]: "loop_kept q q"
  by (simp add: loop_kept_def)

lemma loop_kept_trans: "loop_kept p q \<Longrightarrow> loop_kept q r \<Longrightarrow> loop_kept p r"
  by (simp add: loop_kept_def)

lemma book_inv_cong: "TimerBook.truncate q' = TimerBook.truncate q \<Longrightarrow> book_inv q' T X = book_inv q T X"
  by (simp add: book_inv_def TimerBook.truncate_def)

lemma SubmitOp_total: "Loop_IsInLoopThread l \<Longrightarrow> \<exists>r l'. Loop_SubmitOp a l = Some (r, l')"
  by (cases "FlushSubmit_loop l"; cases "fst (FlushSubmit_loop l)")
    (auto simp: Loop_SubmitOp_def Loop_FlushSubmit_def Let_def)

lemma stopping_progress:
  "loop_ok d k b l \<Longrightarrow> stopping l \<Longrightarrow> loop_ok d k (Progress (pg_batch b) {kStopping, kStopped}) l"
  by (auto simp: loop_ok_def loop_inv_def posts_ok_def stopping_def)

lemma progress_stopping: "loop_ok d k (Progress batch {kStopping, kStopped}) l \<Longrightarrow> stopping l"
  by (auto simp: loop_ok_def loop_inv_def posts_ok_def stopping_def)

lemma submit_ops:
  assumes ok: "ops_ok d b driver control l" and a: "a \<in> {driver, control}" "a \<notin> set (outstanding l)" "\<not> Op_CqeCompletionRecorded (op_at l a)"
  shows "\<exists>r l'. Loop_SubmitOp a l = Some (r, l') \<and> ops_ok d b driver control l' \<and> (stopping l \<longrightarrow> stopping l') \<and>
     set (outstanding l') = set (outstanding l) \<union> (if r = Inr () then {a} else {})"
proof -
  have l: "loop_ok d 0 b l" "Loop_IsInLoopThread l" "a \<noteq> lp_wake_op l" "a \<noteq> lp_cancel_all_op l"
    using ok a(1) by (auto simp: ops_ok_def)
  obtain r l' where s: "Loop_SubmitOp a l = Some (r, l')" using SubmitOp_total [OF l(2)] by blast
  have call: "Uring_Loop_Inv.call_ok (LC_Submit a) l" using l a by simp
  have st: "stopping l'" if "stopping l"
    using progress_stopping [OF call_submit_ok [OF call s stopping_progress [OF l(1) that]]] .
  have "(\<exists>e. r = Inl e) \<and> flush_frame l l' \<or> r = Inr () \<and> (\<exists>l1. flush_frame l l1 \<and> l' = prepare a l1)"
    using s l(1) by (cases rule: SubmitOp_cases) auto
  moreover have "loop_ok d 0 b l'" by (rule call_submit_ok [OF call s l(1)])
  ultimately show ?thesis
    using s st ok by (intro exI [of _ r] exI [of _ l'])
      (auto simp: ops_ok_def flush_frame_def Loop_IsInLoopThread_def prepare_def outstanding_def completed_cq_def)
qed

lemma request_timer:
  assumes ok: "ops_ok d b (utq_driver_op q) (utq_control_op q) (utq_loop q)"
    and a: "a \<in> {utq_driver_op q, utq_control_op q}" "a \<notin> set (outstanding (utq_loop q))"
  shows "\<exists>r l. submit_request a (begin_request a q) = Some (r, q\<lparr>utq_loop := l\<rparr>) \<and>
     ops_ok d b (utq_driver_op q) (utq_control_op q) l \<and> (stopping (utq_loop q) \<longrightarrow> stopping l) \<and>
     set (outstanding l) = set (outstanding (utq_loop q)) \<union> (if r = Inr () then {a} else {})"
proof -
  let ?op = "Op_BeginNextRequest (op_at (utq_loop q) a)"
  let ?l = "set_op a ?op (utq_loop q)"
  have op: "op_kind ?op = op_kind (op_at (utq_loop q) a)" "\<not> Op_CqeCompletionRecorded ?op"
    by (simp_all add: Op_BeginNextRequest_def Op_CqeCompletionRecorded_def Slot_Completed_def Slot_BeginNextRequest_def CompletionGate_defs)
  have lo: "loop_ok d 0 b ?l"
    by (rule set_op_ok) (use ok op in \<open>simp_all add: ops_ok_def\<close>)
  have k: "ops_ok d b (utq_driver_op q) (utq_control_op q) ?l"
    unfolding ops_ok_def using ok lo op(1) by (auto simp: ops_ok_def Loop_IsInLoopThread_def set_op_def)
  have "\<not> Op_CqeCompletionRecorded (op_at ?l a)" "a \<notin> set (outstanding ?l)" using op(2) a(2) by simp_all
  from submit_ops [OF k a(1) this(2,1)] obtain r l' where
    "Loop_SubmitOp a ?l = Some (r, l')" "ops_ok d b (utq_driver_op q) (utq_control_op q) l'"
    "stopping ?l \<longrightarrow> stopping l'"
    "set (outstanding l') = set (outstanding ?l) \<union> (if r = Inr () then {a} else {})" by blast
  moreover have "lp_state ?l = lp_state (utq_loop q)" by (simp add: set_op_def)
  ultimately show ?thesis
    by (intro exI [of _ r] exI [of _ l']) (simp add: stopping_def submit_request_def begin_request_def)
qed

text \<open>A timer that is due wakes the loop: the driver is armed early enough, or a control request is outstanding.\<close>

definition covered :: "UringTimerQueue \<Rightarrow> rtree \<Rightarrow> bool" where
  "covered q T \<longleftrightarrow> stopping (utq_loop q) \<or>
     (case inord T of [] \<Rightarrow> True
      | x # _ \<Rightarrow> utq_control_pending q \<or> utq_driver_armed q \<and> utq_driver_deadline q \<le> tb_exp q x)"

text \<open>A failed step leaves the armed requests as they were.\<close>

definition same_requests :: "UringTimerQueue \<Rightarrow> UringTimerQueue \<Rightarrow> bool" where
  "same_requests q q' \<longleftrightarrow> utq_driver_armed q' = utq_driver_armed q \<and> utq_control_pending q' = utq_control_pending q \<and>
     utq_driver_deadline q' = utq_driver_deadline q"

definition reconciles :: "nat \<Rightarrow> progress \<Rightarrow> UringTimerQueue \<Rightarrow> (unit result \<times> UringTimerQueue) option \<Rightarrow> bool" where
  "reconciles d b q out \<longleftrightarrow> (\<exists>r q'. out = Some (r, q') \<and> timers_ok d b q' \<and> loop_kept q q' \<and>
     TimerBook.truncate q' = TimerBook.truncate q \<and> ((\<exists>e. r = Inl e) \<longrightarrow> same_requests q q') \<and>
     (r = Inr () \<longrightarrow> utq_control_pending q' \<or> (let x = TimerIndex_Earliest (tb_timers q) in
        x \<noteq> nullptr \<longrightarrow> utq_driver_armed q' \<and> utq_driver_deadline q' \<le> tb_exp q x)))"

lemma reconcilesI:
  "\<lbrakk>timers_ok d b q'; loop_kept q q'; TimerBook.truncate q' = TimerBook.truncate q; \<And>e. r = Inl e \<Longrightarrow> same_requests q q';
    r = Inr () \<Longrightarrow> utq_control_pending q' \<or> (let x = TimerIndex_Earliest (tb_timers q) in
        x \<noteq> nullptr \<longrightarrow> utq_driver_armed q' \<and> utq_driver_deadline q' \<le> tb_exp q x)\<rbrakk> \<Longrightarrow> reconciles d b q (Some (r, q'))"
  unfolding reconciles_def by blast

lemma result_cases: obtains (err) e where "r = Inl e" | (ok) "(r :: unit result) = Inr ()"
  by (cases r) auto

lemmas utq_simps = timers_ok_def loop_kept_def same_requests_def TimerBook.truncate_def

lemma Arm_reconciles:
  assumes ok: "timers_ok d b q" and na: "\<not> utq_driver_armed q" and e: "e = TimerIndex_Earliest (tb_timers q)"
  shows "reconciles d b q (UringTimers_Arm (tb_exp q e) q)"
proof -
  let ?q = "q\<lparr>utq_driver_timespec := ToKernelTimespec (tb_exp q e)\<rparr>"
  obtain r l where s: "submit_request (utq_driver_op q) (begin_request (utq_driver_op q) ?q) = Some (r, ?q\<lparr>utq_loop := l\<rparr>)"
    "ops_ok d b (utq_driver_op q) (utq_control_op q) l" "stopping (utq_loop q) \<longrightarrow> stopping l"
    "set (outstanding l) = set (outstanding (utq_loop q)) \<union> (if r = Inr () then {utq_driver_op q} else {})"
    using request_timer [of d b ?q "utq_driver_op q"] ok na by (auto simp: timers_ok_def split del: if_split)
  have d: "utq_driver_op (begin_request a p) = utq_driver_op p" for a p by (simp add: begin_request_def)
  have dc: "utq_driver_op q \<noteq> utq_control_op q" using ok by (simp add: timers_ok_def ops_ok_def)
  have run: "UringTimers_Arm (tb_exp q e) q = (case r of Inl err \<Rightarrow> Some (Inl err, ?q\<lparr>utq_loop := l\<rparr>)
      | Inr _ \<Rightarrow> Some (Inr (), ?q\<lparr>utq_loop := l, utq_driver_armed := True, utq_driver_deadline := tb_exp q e\<rparr>))"
    using s(1) unfolding UringTimers_Arm_def Let_def d by simp
  show ?thesis
  proof (cases r rule: result_cases)
    case (err err)
    show ?thesis unfolding run err sum.case
      by (rule reconcilesI) (use ok s(2-4) dc err in \<open>simp_all add: utq_simps\<close>)
  next
    case ok: ok
    show ?thesis unfolding run ok sum.case
      by (rule reconcilesI) (use assms(1) s(2-4) dc ok e in \<open>simp_all add: utq_simps Let_def\<close>)
  qed
qed

lemma Update_reconciles:
  assumes ok: "timers_ok d b q" and na: "\<not> utq_control_pending q"
  shows "reconciles d b q (UringTimers_Update t q)"
proof -
  let ?q = "q\<lparr>utq_update_timespec := ToKernelTimespec t, utq_requested_deadline := t, utq_control_is_fallback := False\<rparr>"
  obtain r l where s: "submit_request (utq_control_op q) (begin_request (utq_control_op q) ?q) = Some (r, ?q\<lparr>utq_loop := l\<rparr>)"
    "ops_ok d b (utq_driver_op q) (utq_control_op q) l" "stopping (utq_loop q) \<longrightarrow> stopping l"
    "set (outstanding l) = set (outstanding (utq_loop q)) \<union> (if r = Inr () then {utq_control_op q} else {})"
    using request_timer [of d b ?q "utq_control_op q"] ok na by (auto simp: timers_ok_def)
  have d: "begin_request a (q\<lparr>utq_update_timespec := x, utq_requested_deadline := y\<rparr>)\<lparr>utq_control_is_fallback := False\<rparr> =
      begin_request a (q\<lparr>utq_update_timespec := x, utq_requested_deadline := y, utq_control_is_fallback := False\<rparr>)"
    "utq_control_op (begin_request a p) = utq_control_op p" for a x y p by (simp_all add: begin_request_def)
  have dc: "utq_driver_op q \<noteq> utq_control_op q" using ok by (simp add: timers_ok_def ops_ok_def)
  have run: "UringTimers_Update t q = (case r of Inl err \<Rightarrow> Some (Inl err, ?q\<lparr>utq_loop := l, utq_requested_deadline := 0\<rparr>)
      | Inr _ \<Rightarrow> Some (Inr (), ?q\<lparr>utq_loop := l, utq_control_pending := True\<rparr>))"
    using s(1) unfolding UringTimers_Update_def Let_def d by (simp split: sum.splits)
  show ?thesis
  proof (cases r rule: result_cases)
    case (err err)
    show ?thesis unfolding run err sum.case
      by (rule reconcilesI) (use assms s(2-4) dc err in \<open>simp_all add: utq_simps\<close>)
  next
    case ok: ok
    show ?thesis unfolding run ok sum.case
      by (rule reconcilesI) (use assms s(2-4) dc ok in \<open>simp_all add: utq_simps\<close>)
  qed
qed

lemma ArmFallback_reconciles:
  assumes ok: "timers_ok d b q" and na: "\<not> utq_control_pending q"
  shows "reconciles d b q (UringTimers_ArmFallback t q)"
proof -
  let ?q = "q\<lparr>utq_fallback_timespec := ToKernelTimespec t, utq_control_is_fallback := True\<rparr>"
  obtain r l where s: "submit_request (utq_control_op q) (begin_request (utq_control_op q) ?q) = Some (r, ?q\<lparr>utq_loop := l\<rparr>)"
    "ops_ok d b (utq_driver_op q) (utq_control_op q) l" "stopping (utq_loop q) \<longrightarrow> stopping l"
    "set (outstanding l) = set (outstanding (utq_loop q)) \<union> (if r = Inr () then {utq_control_op q} else {})"
    using request_timer [of d b ?q "utq_control_op q"] ok na by (auto simp: timers_ok_def)
  have d: "begin_request a (q\<lparr>utq_fallback_timespec := x\<rparr>)\<lparr>utq_control_is_fallback := True\<rparr> =
      begin_request a (q\<lparr>utq_fallback_timespec := x, utq_control_is_fallback := True\<rparr>)"
    "utq_control_op (begin_request a p) = utq_control_op p" for a x p by (simp_all add: begin_request_def)
  have dc: "utq_driver_op q \<noteq> utq_control_op q" using ok by (simp add: timers_ok_def ops_ok_def)
  have run: "UringTimers_ArmFallback t q = (case r of Inl err \<Rightarrow> Some (Inl err, ?q\<lparr>utq_loop := l, utq_control_is_fallback := False\<rparr>)
      | Inr _ \<Rightarrow> Some (Inr (), ?q\<lparr>utq_loop := l, utq_control_pending := True, utq_fallback_armed := True\<rparr>))"
    using s(1) unfolding UringTimers_ArmFallback_def Let_def d by (simp split: sum.splits)
  show ?thesis
  proof (cases r rule: result_cases)
    case (err err)
    show ?thesis unfolding run err sum.case
      by (rule reconcilesI) (use assms s(2-4) dc err in \<open>simp_all add: utq_simps\<close>)
  next
    case ok: ok
    show ?thesis unfolding run ok sum.case
      by (rule reconcilesI) (use assms s(2-4) dc ok in \<open>simp_all add: utq_simps\<close>)
  qed
qed

lemma Reconcile_reconciles:
  assumes ok: "timers_ok d b q"
  shows "reconciles d b q (UringTimers_Reconcile q)"
proof -
  have still: "reconciles d b q (Some (Inr (), q))"
    if "utq_control_pending q \<or> TimerIndex_Earliest (tb_timers q) = nullptr \<or>
      utq_driver_armed q \<and> utq_driver_deadline q \<le> tb_exp q (TimerIndex_Earliest (tb_timers q))"
    using that ok by (intro reconcilesI) (auto simp: Let_def)
  show ?thesis
    using still Arm_reconciles [OF ok] Update_reconciles [OF ok] ArmFallback_reconciles [OF ok] ok
    unfolding UringTimers_Reconcile_def Let_def by (auto simp: timers_ok_def)
qed

lemma request_stop_ok:
  assumes "ops_ok d b driver control l"
  shows "ops_ok d b driver control (Loop_RequestStop l)" "stopping (Loop_RequestStop l)"
    "outstanding (Loop_RequestStop l) = outstanding l"
proof -
  have q: "quiet l (Loop_RequestStop l)" by (rule quiet_RequestStop)
  from q show "outstanding (Loop_RequestStop l) = outstanding l"
    by (elim quietE) (simp add: outstanding_def)
  from q assms quiet_ok [OF q, of d 0 b] show "ops_ok d b driver control (Loop_RequestStop l)"
    by (elim quietE) (auto simp: ops_ok_def Loop_IsInLoopThread_def)
  show "stopping (Loop_RequestStop l)"
    using RequestStop_state [of l] by (cases "lp_state (Loop_RequestStop l)") (simp_all add: stopping_def)
qed

lemma book_earliest_node: "book_inv q T X \<Longrightarrow> inord T = x # xs \<Longrightarrow> x \<noteq> nullptr"
  using Tree_inv_nodes [OF book_inv_Tree] by fastforce

lemma covered_earliest:
  assumes "book_inv q T X" and "tb_pool q' = tb_pool q"
    and "utq_control_pending q' \<or> (let x = TimerIndex_Earliest (tb_timers q) in
        x \<noteq> nullptr \<longrightarrow> utq_driver_armed q' \<and> utq_driver_deadline q' \<le> tb_exp q x)"
  shows "covered q' T"
  using assms book_earliest(2) [OF assms(1)] book_earliest_node [OF assms(1)]
  by (auto simp: covered_def Let_def split: list.splits)

lemma truncate_fields:
  assumes "TimerBook.truncate q' = TimerBook.truncate q"
  shows "tb_pool q' = tb_pool q" "tb_timers q' = tb_timers q" "tb_active q' = tb_active q" "tb_live q' = tb_live q"
    "tb_processing q' = tb_processing q" "tb_cancelled q' = tb_cancelled q" "tb_sequence q' = tb_sequence q"
  using assms by (simp_all add: TimerBook.truncate_def)

lemma ReconcileOrStop_correct:
  assumes inv: "book_inv q T X" and ok: "timers_ok d b q"
  shows "\<exists>q'. UringTimers_ReconcileOrStop q = Some q' \<and> timers_ok d b q' \<and> loop_kept q q' \<and>
     TimerBook.truncate q' = TimerBook.truncate q \<and> covered q' T"
proof -
  obtain r q1 where s: "UringTimers_Reconcile q = Some (r, q1)" "timers_ok d b q1" "loop_kept q q1"
    "TimerBook.truncate q1 = TimerBook.truncate q"
    "r = Inr () \<longrightarrow> utq_control_pending q1 \<or> (let x = TimerIndex_Earliest (tb_timers q) in
        x \<noteq> nullptr \<longrightarrow> utq_driver_armed q1 \<and> utq_driver_deadline q1 \<le> tb_exp q x)"
    using Reconcile_reconciles [OF ok] unfolding reconciles_def by blast
  show ?thesis
  proof (cases r rule: result_cases)
    case ok
    then show ?thesis
      using s covered_earliest [OF inv truncate_fields(1) [OF s(4)]] by (simp add: UringTimers_ReconcileOrStop_def)
  next
    case (err e)
    let ?q = "q1\<lparr>utq_loop := Loop_RequestStop (utq_loop q1)\<rparr>"
    note stop = request_stop_ok [of d b "utq_driver_op q1" "utq_control_op q1" "utq_loop q1"]
    have "timers_ok d b ?q" "stopping (utq_loop ?q)" using s(2) stop by (simp_all add: timers_ok_def)
    then show ?thesis
      using s(1,3,4) err by (simp add: UringTimers_ReconcileOrStop_def covered_def loop_kept_def TimerBook.truncate_def)
  qed
qed

lemma remove1_insert_after: "t \<notin> set xs \<Longrightarrow> remove1 t (insert_after k t xs) = xs"
  by (induction xs) (auto simp: insert_after_Cons)

lemma timers_ok_book [simp]:
  "timers_ok d b (q\<lparr>tb_timers := s\<rparr>) = timers_ok d b q" "timers_ok d b (q\<lparr>tb_active := m\<rparr>) = timers_ok d b q"
  "timers_ok d b (q\<lparr>tb_live := L\<rparr>) = timers_ok d b q" "timers_ok d b (q\<lparr>tb_pool := f\<rparr>) = timers_ok d b q"
  "timers_ok d b (q\<lparr>tb_processing := p\<rparr>) = timers_ok d b q" "timers_ok d b (q\<lparr>tb_cancelled := c\<rparr>) = timers_ok d b q"
  "timers_ok d b (q\<lparr>tb_sequence := n\<rparr>) = timers_ok d b q"
  "timers_ok d b (Timer_construct t cb when interval q) = timers_ok d b q" "timers_ok d b (drop_timer tid t q) = timers_ok d b q"
  by (simp_all add: timers_ok_def Timer_construct_def drop_timer_def)

text \<open>What a call on the queue does to the timers that are not its subject; \<open>X\<close> are those that are running.\<close>

definition call_rel :: "nat \<Rightarrow> progress \<Rightarrow> UringTimerQueue \<Rightarrow> rtree \<Rightarrow> UringTimerQueue \<Rightarrow> rtree \<Rightarrow> addr set \<Rightarrow> bool" where
  "call_rel d b q T q' T' X \<longleftrightarrow> book_inv q' T' X \<and> timers_ok d b q' \<and> loop_kept q q' \<and>
     tb_processing q' = tb_processing q \<and> rt_sentinel (tb_timers q') = rt_sentinel (tb_timers q) \<and>
     (\<forall>x\<in>set (inord T) \<union> X. tb_pool q' x = tb_pool q x) \<and> (covered q T \<longrightarrow> covered q' T')"

definition added :: "addr \<Rightarrow> callback option \<Rightarrow> int \<Rightarrow> int \<Rightarrow> UringTimerQueue \<Rightarrow> rtree \<Rightarrow> UringTimerQueue \<Rightarrow> rtree \<Rightarrow> bool" where
  "added t cb deadline interval q T q' T' \<longleftrightarrow> t \<notin> set (inord T) \<and>
     tb_pool q' t = Timer_new cb deadline interval (tb_sequence q) \<and>
     inord T' = insert_after (TimerLess (tb_pool q')) t (inord T)"

lemma book_drop:
  assumes inv: "book_inv q T' X" and t: "t \<in> set (inord T')" "tb_seq q t = tid"
  shows "\<exists>q' T''. book_erase_timer t q = Some (True, q') \<and> book_inv (drop_timer tid t q') T'' X \<and> inord T'' = remove1 t (inord T') \<and>
     q' = q\<lparr>tb_timers := tb_timers q'\<rparr> \<and> rt_sentinel (tb_timers q') = rt_sentinel (tb_timers q)"
proof -
  obtain store T'' where s: "book_erase_timer t q = Some (True, q\<lparr>tb_timers := store\<rparr>)"
    "book_inv (q\<lparr>tb_timers := store, tb_active := (tb_active q)(tid := None)\<rparr>) T'' (insert t X)"
    "inord T'' = remove1 t (inord T')" "rt_sentinel store = rt_sentinel (tb_timers q)"
    using book_erase [OF inv t(1)] t(2) by blast
  have "t \<notin> X" using inv t(1) by (auto simp: book_inv_def)
  then have "book_inv (drop_timer tid t (q\<lparr>tb_timers := store\<rparr>)) T'' X"
    using book_release [OF s(2), of t] by (simp add: drop_timer_def insert_Diff_if)
  then show ?thesis
    using s by (intro exI [of _ "q\<lparr>tb_timers := store\<rparr>"] exI [of _ T'']) simp
qed

definition inserted_rel :: "nat \<Rightarrow> progress \<Rightarrow> UringTimerQueue \<Rightarrow> rtree \<Rightarrow> UringTimerQueue \<Rightarrow> rtree \<Rightarrow> addr set \<Rightarrow> bool" where
  "inserted_rel d b q T q' T' X \<longleftrightarrow> book_inv q' T' X \<and> timers_ok d b q' \<and> loop_kept q q' \<and> same_requests q q' \<and>
     tb_processing q' = tb_processing q \<and> rt_sentinel (tb_timers q') = rt_sentinel (tb_timers q) \<and>
     (\<forall>x\<in>set (inord T) \<union> X. tb_pool q' x = tb_pool q x)"

lemma AddTimer_inserted:
  assumes inv: "book_inv q T X" and ok: "timers_ok d b q" and acq: "acquire_ok acquire (rt_sentinel (tb_timers q))"
  shows "\<exists>t q2 T1. inserted_rel d b q T q2 T1 X \<and> added t cb deadline interval q T q2 T1 \<and>
     UringTimers_AddTimer acquire cb deadline interval q = do {
       (r, q3) \<leftarrow> UringTimers_Reconcile q2;
       case r of
         Inl e \<Rightarrow> do { (erased, q4) \<leftarrow> book_erase_timer t q3; check erased; Some (Inl e, drop_timer (tb_sequence q) t q4) }
       | Inr _ \<Rightarrow> Some (Inr (tb_sequence q), q3) }"
proof -
  obtain t store T1 where s: "t = acquire (tb_live q)" "t \<notin> set (inord T) \<union> X"
     "let q1 = Timer_construct t cb deadline interval q; q3 = q1\<lparr>tb_timers := store, tb_active := (tb_active q)(tb_sequence q \<mapsto> t)\<rparr> in
      book_inv q1 T (insert t X) \<and>
      book_insert_timer t q1 = Some (True, q1\<lparr>tb_timers := store\<rparr>) \<and> tb_active q (tb_sequence q) = None \<and>
      book_inv q3 T1 X \<and> inord T1 = insert_after (TimerLess (tb_pool q3)) t (inord T) \<and>
      rt_sentinel store = rt_sentinel (tb_timers q)"
    using book_add_steps [OF inv acq] by blast
  define q1 where "q1 = Timer_construct t cb deadline interval q"
  define q2 where "q2 = q1\<lparr>tb_timers := store, tb_active := (tb_active q)(tb_sequence q \<mapsto> t)\<rparr>"
  have q1: "book_insert_timer t q1 = Some (True, q1\<lparr>tb_timers := store\<rparr>)" "tb_active q (tb_sequence q) = None"
    and q2: "book_inv q2 T1 X" "inord T1 = insert_after (TimerLess (tb_pool q2)) t (inord T)" "rt_sentinel store = rt_sentinel (tb_timers q)"
    using s(3) unfolding q1_def [symmetric] q2_def [symmetric] Let_def by simp_all
  have f: "tb_seq q1 t = tb_sequence q" "tb_active q1 = tb_active q" "tb_pool q2 = (tb_pool q)(t := Timer_new cb deadline interval (tb_sequence q))"
    "tb_live q1 = insert t (tb_live q)" "utq_loop q1 = utq_loop q" "tb_processing q2 = tb_processing q" "tb_timers q2 = store"
    by (simp_all add: q1_def q2_def Timer_construct_def Timer_new_def)
  have "timers_ok d b q2" "loop_kept q q2" "same_requests q q2"
    using ok by (simp_all add: q2_def q1_def loop_kept_def same_requests_def Timer_construct_def)
  then have "inserted_rel d b q T q2 T1 X"
    using q2(1,3) f s(2) by (auto simp: inserted_rel_def)
  moreover have "added t cb deadline interval q T q2 T1"
    using s(2) f(3) q2(2) by (simp add: added_def)
  moreover have "Loop_IsInLoopThread (utq_loop q)" using ok by (simp add: timers_ok_def ops_ok_def)
  ultimately show ?thesis
    using q1 f(1,2) unfolding UringTimers_AddTimer_def s(1) [symmetric] q1_def [symmetric] Let_def f(1)
    by (intro exI [of _ t] exI [of _ q2] exI [of _ T1]) (simp add: q2_def)
qed

lemma uring_AddTimer_correct:
  assumes inv: "book_inv q T X" and ok: "timers_ok d b q" and acq: "acquire_ok acquire (rt_sentinel (tb_timers q))"
  shows "\<exists>r q' T'. UringTimers_AddTimer acquire cb deadline interval q = Some (r, q') \<and> call_rel d b q T q' T' X \<and>
     (case r of Inl e \<Rightarrow> inord T' = inord T
      | Inr tid \<Rightarrow> tid = tb_sequence q \<and> covered q' T' \<and> (\<exists>t. added t cb deadline interval q T q' T'))"
proof -
  obtain t q2 T1 where i: "inserted_rel d b q T q2 T1 X" and a: "added t cb deadline interval q T q2 T1"
    and run: "UringTimers_AddTimer acquire cb deadline interval q = do {
       (r, q3) \<leftarrow> UringTimers_Reconcile q2;
       case r of
         Inl e \<Rightarrow> do { (erased, q4) \<leftarrow> book_erase_timer t q3; check erased; Some (Inl e, drop_timer (tb_sequence q) t q4) }
       | Inr _ \<Rightarrow> Some (Inr (tb_sequence q), q3) }"
    using AddTimer_inserted [OF assms] by blast
  have q2: "book_inv q2 T1 X" "timers_ok d b q2" "loop_kept q q2" "same_requests q q2" "tb_processing q2 = tb_processing q"
    "rt_sentinel (tb_timers q2) = rt_sentinel (tb_timers q)" "\<forall>x\<in>set (inord T) \<union> X. tb_pool q2 x = tb_pool q x"
    using i unfolding inserted_rel_def by blast+
  obtain r q3 where r: "UringTimers_Reconcile q2 = Some (r, q3)" "timers_ok d b q3" "loop_kept q2 q3"
    "TimerBook.truncate q3 = TimerBook.truncate q2" "(\<exists>e. r = Inl e) \<longrightarrow> same_requests q2 q3"
    "r = Inr () \<longrightarrow> utq_control_pending q3 \<or> (let x = TimerIndex_Earliest (tb_timers q2) in
        x \<noteq> nullptr \<longrightarrow> utq_driver_armed q3 \<and> utq_driver_deadline q3 \<le> tb_exp q2 x)"
    using Reconcile_reconciles [OF q2(2)] unfolding reconciles_def by blast
  note tr = truncate_fields [OF r(4)]
  have q3: "book_inv q3 T1 X" "added t cb deadline interval q T q3 T1" "loop_kept q q3" 
    using q2(1) book_inv_cong [OF r(4)] a tr(1) loop_kept_trans [OF q2(3) r(3)] by (simp_all add: added_def)
  show ?thesis
  proof (cases r rule: result_cases)
    case ok
    have "covered q3 T1" using covered_earliest [OF q2(1) tr(1)] r(6) ok by simp
    then show ?thesis
      using run r(1,2) ok q3 tr q2(5-7)
      by (intro exI [of _ "Inr (tb_sequence q)"] exI [of _ q3] exI [of _ T1]) (auto simp: call_rel_def)
  next
    case (err e)
    have t: "t \<in> set (inord T1)" "tb_seq q3 t = tb_sequence q" "remove1 t (inord T1) = inord T"
      using q3(2) by (auto simp: added_def remove1_insert_after Timer_new_def) (simp add: insert_after_def)
    from book_drop [OF q3(1) t(1,2)] obtain q4 T2 where q4: "book_erase_timer t q3 = Some (True, q4)"
      "book_inv (drop_timer (tb_sequence q) t q4) T2 X" "inord T2 = remove1 t (inord T1)" "q4 = q3\<lparr>tb_timers := tb_timers q4\<rparr>"
      "rt_sentinel (tb_timers q4) = rt_sentinel (tb_timers q3)" by blast
    let ?q = "drop_timer (tb_sequence q) t q4"
    have eq: "tb_pool ?q = tb_pool q3" "utq_loop ?q = utq_loop q3" "tb_processing ?q = tb_processing q3" "tb_timers ?q = tb_timers q4"
       "loop_kept q3 ?q" "same_requests q3 ?q" "timers_ok d b ?q = timers_ok d b q3"
      by (subst q4(4), simp add: drop_timer_def same_requests_def loop_kept_def)+
    have "covered ?q T2" if "covered q T"
      using that eq(1,2,6) r(5) err q2(4,7) q3(3) q4(3) t(3) tr(1)
      by (auto simp: covered_def same_requests_def loop_kept_def split: list.splits)
    then show ?thesis
      using run err r(1,2) q4(1,2,3,5) eq tr(1,2,5) q2(5-7) t(3) loop_kept_trans [OF q3(3) eq(5)]
      by (intro exI [of _ "Inl e"] exI [of _ ?q] exI [of _ T2]) (simp add: call_rel_def)
  qed
qed

lemma uring_Cancel_correct:
  assumes inv: "book_inv q T X" and ok: "timers_ok d b q"
  shows "\<exists>r q' T'. UringTimers_Cancel tid q = Some (r, q') \<and> call_rel d b q T q' T' X \<and> tb_pool q' = tb_pool q \<and>
     (inord T' = inord T \<or> (\<exists>t. tb_active q tid = Some t \<and> inord T' = remove1 t (inord T)))"
proof -
  have thr: "Loop_IsInLoopThread (utq_loop q)" using ok by (simp add: timers_ok_def ops_ok_def)
  show ?thesis
  proof (cases "tb_processing q \<noteq> nullptr \<and> tb_seq q (tb_processing q) = tid \<or> tb_active q tid = None")
    case True
    have "\<exists>r c. UringTimers_Cancel tid q = Some (r, q\<lparr>tb_cancelled := c\<rparr>)"
    proof (cases "tb_processing q \<noteq> nullptr \<and> tb_seq q (tb_processing q) = tid")
      case True
      then show ?thesis using thr by (intro exI [of _ "Inr ()"] exI [of _ True]) (simp add: UringTimers_Cancel_def)
    next
      case False
      then show ?thesis using thr \<open>_ \<or> _\<close> by (intro exI [of _ "Inl ENOENT"] exI [of _ "tb_cancelled q"]) (auto simp: UringTimers_Cancel_def)
    qed
    then obtain r c where "UringTimers_Cancel tid q = Some (r, q\<lparr>tb_cancelled := c\<rparr>)" by blast
    moreover have "call_rel d b q T (q\<lparr>tb_cancelled := c\<rparr>) T X"
      using inv ok by (simp add: call_rel_def covered_def loop_kept_def split: list.splits)
    ultimately show ?thesis by (intro exI [of _ r] exI [of _ "q\<lparr>tb_cancelled := c\<rparr>"] exI [of _ T]) simp
  next
    case False
    then obtain t where t: "tb_active q tid = Some t" by auto
    then have m: "t \<in> set (inord T)" "tb_seq q t = tid" using inv by (auto simp: book_inv_def)
    from book_drop [OF inv m] obtain q1 T1 where s: "book_erase_timer t q = Some (True, q1)"
      "book_inv (drop_timer tid t q1) T1 X" "inord T1 = remove1 t (inord T)" "q1 = q\<lparr>tb_timers := tb_timers q1\<rparr>"
      "rt_sentinel (tb_timers q1) = rt_sentinel (tb_timers q)" by blast
    let ?q = "drop_timer tid t q1"
    have eq: "tb_pool ?q = tb_pool q" "tb_processing ?q = tb_processing q" "loop_kept q ?q" "timers_ok d b ?q = timers_ok d b q"
       "tb_timers ?q = tb_timers q1"
      by (subst s(4), simp add: drop_timer_def loop_kept_def)+
    obtain q2 where q2: "UringTimers_ReconcileOrStop ?q = Some q2" "timers_ok d b q2" "loop_kept ?q q2"
      "TimerBook.truncate q2 = TimerBook.truncate ?q" "covered q2 T1"
      using ReconcileOrStop_correct [OF s(2)] eq(4) ok by blast
    note tr = truncate_fields [OF q2(4)]
    have "UringTimers_Cancel tid q = Some (Inr (), q2)"
      using thr False t s(1) q2(1) by (auto simp: UringTimers_Cancel_def)
    moreover have "call_rel d b q T q2 T1 X"
      using book_inv_cong [OF q2(4)] s(2,5) q2(2,5) loop_kept_trans [OF eq(3) q2(3)] tr eq by (simp add: call_rel_def)
    ultimately show ?thesis using t s(3) tr(1) eq(1) by (intro exI [of _ "Inr ()"] exI [of _ q2] exI [of _ T1]) simp
  qed
qed

section \<open>A pass over the due timers\<close>

text \<open>
  From a callback the theorems allow the timer functions, posting and stop requests; \<open>late now\<close> says that an
  added timer lies after the pass, \<open>is_uadd\<close> that the call cancels nothing.
\<close>

fun ucall_ok :: "utimer_call \<Rightarrow> bool" where
  "ucall_ok (UC_Loop (LC_Post callback)) = True"
| "ucall_ok (UC_Loop LC_RequestStop) = True"
| "ucall_ok (UC_Loop c) = False"
| "ucall_ok c = True"

fun late :: "int \<Rightarrow> utimer_call \<Rightarrow> bool" where
  "late now (UC_RunAfter delay cb n) = (now < n + max delay 0)"
| "late now (UC_RunAt deadline cb) = (now < deadline)"
| "late now (UC_RunEvery interval cb n) = (now < n + interval)"
| "late now _ = True"

fun is_uadd :: "utimer_call \<Rightarrow> bool" where
  "is_uadd (UC_Cancel tid) = False"
| "is_uadd _ = True"

definition keeps_due :: "bool \<Rightarrow> int \<Rightarrow> UringTimerQueue \<Rightarrow> rtree \<Rightarrow> UringTimerQueue \<Rightarrow> rtree \<Rightarrow> bool" where
  "keeps_due adds now q T q' T' \<longleftrightarrow> subseq (due now q' T') (due now q T) \<and> (adds \<longrightarrow> due now q' T' = due now q T)"

lemma subseq_remove1: "subseq (remove1 x xs) xs"
  by (induction xs) auto

lemma due_remove1:
  assumes "tb_pool q' = tb_pool q" and "inord T' = remove1 x (inord T)"
  shows "subseq (due now q' T') (due now q T)"
  using assms by (simp add: due_def subseq_map subseq_filter subseq_remove1)

lemma keeps_due_eq: "due now q' T' = due now q T \<Longrightarrow> keeps_due adds now q T q' T'"
  by (simp add: keeps_due_def)

lemma call_rel_refl: "book_inv q T X \<Longrightarrow> timers_ok d b q \<Longrightarrow> call_rel d b q T q T X"
  by (simp add: call_rel_def)

lemma same_inord_due: "inord T' = inord T \<Longrightarrow> (\<And>x. x \<in> set (inord T) \<Longrightarrow> tb_pool q' x = tb_pool q x) \<Longrightarrow> due now q' T' = due now q T"
  by (simp add: due_def cong: filter_cong map_cong)

lemma add_keeps_due:
  assumes "call_rel d b q T q' T' X" "(case r of Inl e \<Rightarrow> inord T' = inord T
      | Inr tid \<Rightarrow> tid = tb_sequence q \<and> covered q' T' \<and> (\<exists>t. added t cb deadline interval q T q' T'))" "now < deadline"
  shows "keeps_due adds now q T q' T'"
proof (rule keeps_due_eq)
  have pool: "tb_pool q' x = tb_pool q x" if "x \<in> set (inord T)" for x using assms(1) that by (simp add: call_rel_def)
  show "due now q' T' = due now q T"
  proof (cases r)
    case (Inl e)
    then show ?thesis using assms(2) same_inord_due [OF _ pool] by simp
  next
    case (Inr tid)
    then obtain t where t: "inord T' = insert_after (TimerLess (tb_pool q')) t (inord T)" "tb_pool q' t = Timer_new cb deadline interval (tb_sequence q)"
      using assms(2) by (auto simp: added_def)
    show ?thesis by (rule due_insert_later [OF t(1)]) (use t(2) assms(3) pool in \<open>auto simp: Timer_new_def\<close>)
  qed
qed

lemma loop_change_rel:
  assumes inv: "book_inv q T X" and ok: "timers_ok d b q" and l: "quiet (utq_loop q) l"
  shows "call_rel d b q T (q\<lparr>utq_loop := l\<rparr>) T X" "keeps_due adds now q T (q\<lparr>utq_loop := l\<rparr>) T"
proof -
  have "ops_ok d b (utq_driver_op q) (utq_control_op q) l" "outstanding l = outstanding (utq_loop q)" "stopping (utq_loop q) \<longrightarrow> stopping l"
    using l ok quiet_ok [OF l, of d 0 b]
    by (elim quietE; auto simp: timers_ok_def ops_ok_def outstanding_def Loop_IsInLoopThread_def stopping_def)+
  then show "call_rel d b q T (q\<lparr>utq_loop := l\<rparr>) T X"
    using inv ok book_inv_cong [of "q\<lparr>utq_loop := l\<rparr>" q]
    by (auto simp: call_rel_def timers_ok_def loop_kept_def covered_def TimerBook.truncate_def split: list.splits)
  show "keeps_due adds now q T (q\<lparr>utq_loop := l\<rparr>) T" by (simp add: keeps_due_def due_def)
qed

lemma add_call_correct:
  assumes inv: "book_inv q T X" and ok: "timers_ok d b q" and acq: "acquire_ok acquire (rt_sentinel (tb_timers q))"
  shows "\<exists>q' T'. map_option snd (if \<not> lp_initialized (utq_loop q) then Some (Err EBADF, q) else UringTimers_AddTimer acquire cb deadline interval q) = Some q' \<and>
     call_rel d b q T q' T' X \<and> (now < deadline \<longrightarrow> keeps_due adds now q T q' T')"
proof (cases "lp_initialized (utq_loop q)")
  case True
  obtain r q' T' where s: "UringTimers_AddTimer acquire cb deadline interval q = Some (r, q')" "call_rel d b q T q' T' X"
     "(case r of Inl e \<Rightarrow> inord T' = inord T
      | Inr tid \<Rightarrow> tid = tb_sequence q \<and> covered q' T' \<and> (\<exists>t. added t cb deadline interval q T q' T'))"
    using uring_AddTimer_correct [OF assms] by blast
  show ?thesis using s(1,2) add_keeps_due [OF s(2,3)] True by (intro exI [of _ q'] exI [of _ T']) simp
next
  case False
  then show ?thesis using call_rel_refl [OF inv ok] keeps_due_eq by auto
qed

lemma uring_call_correct:
  assumes inv: "book_inv q T X" and ok: "timers_ok d b q" and acq: "acquire_ok acquire (rt_sentinel (tb_timers q))" and c: "ucall_ok c"
  shows "\<exists>q' T'. UringTimers_call acquire c q = Some q' \<and> call_rel d b q T q' T' X \<and> (late now c \<longrightarrow> keeps_due (is_uadd c) now q T q' T')"
proof -
  have thr: "check (Loop_IsInLoopThread (utq_loop q)) = Some ()" using ok by (simp add: timers_ok_def ops_ok_def)
  note add = add_call_correct [OF inv ok acq]
  show ?thesis
  proof (cases c)
    case (UC_RunAfter delay cb n)
    then show ?thesis using add [of cb "n + max delay 0" 0 now True] thr
      by (simp add: Loop_RunAfter_def UringTimers_AddAfter_def [abs_def] split del: if_split cong: if_cong)
  next
    case (UC_RunAt deadline cb)
    then show ?thesis using add [of cb deadline 0 now True] thr by (simp add: Loop_RunAt_def split del: if_split)
  next
    case (UC_RunEvery interval cb n)
    then show ?thesis using add [of cb "n + interval" interval now True] thr by (simp add: Loop_RunEvery_def split del: if_split)
  next
    case (UC_Cancel tid)
    obtain r q' T' where s: "UringTimers_Cancel tid q = Some (r, q')" "call_rel d b q T q' T' X" "tb_pool q' = tb_pool q"
      "inord T' = inord T \<or> (\<exists>t. tb_active q tid = Some t \<and> inord T' = remove1 t (inord T))"
      using uring_Cancel_correct [OF inv ok] by blast
    have "subseq (due now q' T') (due now q T)" using s(4) due_remove1 [OF s(3)] same_inord_due [of T' T q' q] s(3) by auto
    then show ?thesis
      using s(1,2) UC_Cancel thr call_rel_refl [OF inv ok] by (auto simp: Loop_Cancel_def keeps_due_def)
  next
    case (UC_Loop lc)
    with c consider p where "lc = LC_Post p" | "lc = LC_RequestStop" by (cases lc) auto
    then have "\<exists>l. quiet (utq_loop q) l \<and> UringTimers_call acquire c q = Some (q\<lparr>utq_loop := l\<rparr>)"
      using quiet_Post quiet_RequestStop UC_Loop by cases auto
    then show ?thesis using loop_change_rel [OF inv ok] by blast
  qed
qed

text \<open>A sequence of calls; only the timers in \<open>X\<close> are sure to be unchanged.\<close>

definition ucalls_rel :: "nat \<Rightarrow> progress \<Rightarrow> UringTimerQueue \<Rightarrow> rtree \<Rightarrow> UringTimerQueue \<Rightarrow> rtree \<Rightarrow> addr set \<Rightarrow> bool" where
  "ucalls_rel d b q T q' T' X \<longleftrightarrow> book_inv q' T' X \<and> timers_ok d b q' \<and> loop_kept q q' \<and>
     tb_processing q' = tb_processing q \<and> rt_sentinel (tb_timers q') = rt_sentinel (tb_timers q) \<and>
     (\<forall>x\<in>X. tb_pool q' x = tb_pool q x) \<and> (covered q T \<longrightarrow> covered q' T')"

lemma ucalls_rel_trans: "call_rel d b q T q1 T1 X \<Longrightarrow> ucalls_rel d b q1 T1 q2 T2 X \<Longrightarrow> ucalls_rel d b q T q2 T2 X"
  using loop_kept_trans by (auto simp: call_rel_def ucalls_rel_def)

lemma keeps_due_trans: "keeps_due a now q T q1 T1 \<Longrightarrow> keeps_due a' now q1 T1 q2 T2 \<Longrightarrow> keeps_due (a \<and> a') now q T q2 T2"
  by (auto simp: keeps_due_def elim: subseq_order.order_trans)

lemma uring_calls_correct:
  assumes "book_inv q T X" and "timers_ok d b q" and "acquire_ok acquire (rt_sentinel (tb_timers q))" and "\<forall>c\<in>set cs. ucall_ok c"
  shows "\<exists>q' T'. UringTimers_calls acquire cs q = Some q' \<and> ucalls_rel d b q T q' T' X \<and>
     ((\<forall>c\<in>set cs. late now c) \<longrightarrow> keeps_due (\<forall>c\<in>set cs. is_uadd c) now q T q' T')"
  using assms
proof (induction cs arbitrary: q T)
  case Nil
  then show ?case by (intro exI [of _ q] exI [of _ T]) (simp add: ucalls_rel_def keeps_due_def)
next
  case (Cons c cs)
  have c: "ucall_ok c" using Cons.prems(4) by simp
  obtain q1 T1 where q1: "UringTimers_call acquire c q = Some q1" "call_rel d b q T q1 T1 X" "late now c \<longrightarrow> keeps_due (is_uadd c) now q T q1 T1"
    using uring_call_correct [OF Cons.prems(1-3) c] by blast
  then have inv: "book_inv q1 T1 X" "timers_ok d b q1" "acquire_ok acquire (rt_sentinel (tb_timers q1))"
    using Cons.prems(3) by (simp_all add: call_rel_def)
  obtain q2 T2 where q2: "UringTimers_calls acquire cs q1 = Some q2" "ucalls_rel d b q1 T1 q2 T2 X"
    "(\<forall>c\<in>set cs. late now c) \<longrightarrow> keeps_due (\<forall>c\<in>set cs. is_uadd c) now q1 T1 q2 T2"
    using Cons.IH [OF inv] Cons.prems(4) by auto
  have "keeps_due (is_uadd c \<and> (\<forall>c\<in>set cs. is_uadd c)) now q T q2 T2" if "late now c" "\<forall>c\<in>set cs. late now c"
    using keeps_due_trans q1(3) q2(3) that by blast
  then show ?case
    using q1(1) q2(1) ucalls_rel_trans [OF q1(2) q2(2)] by (intro exI [of _ q2] exI [of _ T2]) simp
qed

lemma uring_Run_correct:
  assumes "book_inv q T X" and "timers_ok d b q" and "acquire_ok acquire (rt_sentinel (tb_timers q))"
    and "\<forall>w. \<forall>c\<in>set (calls w). ucall_ok c"
  shows "\<exists>q' T'. UringTimer_Run acquire calls x q w = Some (q', w @ [tb_seq q x]) \<and> ucalls_rel d b q T q' T' X \<and>
     ((\<forall>w. \<forall>c\<in>set (calls w). late now c) \<longrightarrow> keeps_due (\<forall>w. \<forall>c\<in>set (calls w). is_uadd c) now q T q' T')"
proof (cases "tm_callback (tb_pool q x)")
  case None
  then show ?thesis
    using assms(1,2) by (intro exI [of _ q] exI [of _ T]) (simp add: UringTimer_Run_def ucalls_rel_def keeps_due_def)
next
  case (Some cb)
  let ?cs = "calls (w @ [tb_seq q x])"
  obtain q' T' where s: "UringTimers_calls acquire ?cs q = Some q'" "ucalls_rel d b q T q' T' X"
    "(\<forall>c\<in>set ?cs. late now c) \<longrightarrow> keeps_due (\<forall>c\<in>set ?cs. is_uadd c) now q T q' T'"
    using uring_calls_correct [OF assms(1-3), of ?cs now] assms(4) by blast
  have "keeps_due (\<forall>w. \<forall>c\<in>set (calls w). is_uadd c) now q T q' T'" if "\<forall>w. \<forall>c\<in>set (calls w). late now c"
    using s(3) that by (auto simp: keeps_due_def)
  then show ?thesis
    using Some s(1,2) by (intro exI [of _ q'] exI [of _ T']) (simp add: UringTimer_Run_def)
qed

text \<open>The state after the earliest timer \<open>tid\<close> expired; the due timers are determined when every added timer is \<open>later\<close>.\<close>

definition uexpired_rel :: "nat \<Rightarrow> progress \<Rightarrow> bool \<Rightarrow> bool \<Rightarrow> int \<Rightarrow> int \<Rightarrow> UringTimerQueue \<Rightarrow> rtree \<Rightarrow> UringTimerQueue \<Rightarrow> rtree \<Rightarrow> bool" where
  "uexpired_rel d b later adds now tid q T q' T' \<longleftrightarrow> book_inv q' T' {} \<and> timers_ok d b q' \<and> loop_kept q q' \<and>
     rt_sentinel (tb_timers q') = rt_sentinel (tb_timers q) \<and>
     (later \<longrightarrow> subseq (tid # due now q' T') (due now q T) \<and> (adds \<longrightarrow> due now q T = tid # due now q' T'))"

lemma uring_reinsert_timer:
  fixes now :: int
  assumes q: "book_inv q T {x}" and ok: "timers_ok d b q" and rep: "tm_repeat (tb_pool q x)"
  defines "q4 \<equiv> q\<lparr>tb_pool := (tb_pool q)(x := Timer_Restart now (tb_pool q x))\<rparr>"
  shows "\<exists>q5 T'. tb_active q4 (tb_seq q x) = None \<and>
     book_insert_timer x (q4\<lparr>tb_active := (tb_active q4)(tb_seq q x \<mapsto> x)\<rparr>) = Some (True, q5) \<and> book_inv q5 T' {} \<and> timers_ok d b q5 \<and>
     loop_kept q q5 \<and> rt_sentinel (tb_timers q5) = rt_sentinel (tb_timers q) \<and> due now q5 T' = due now q T"
proof -
  have q4: "book_inv q4 T {x}" unfolding q4_def by (rule book_restart [OF q]) simp
  have seq: "tb_seq q4 x = tb_seq q x" by (simp add: q4_def Timer_Restart_def)
  obtain st T' where st: "book_insert_timer x q4 = Some (True, q4\<lparr>tb_timers := st\<rparr>)" "tb_active q4 (tb_seq q x) = None"
    "book_inv (q4\<lparr>tb_timers := st, tb_active := (tb_active q4)(tb_seq q x \<mapsto> x)\<rparr>) T' {}"
    "inord T' = insert_after (TimerLess (tb_pool q4)) x (inord T)" "rt_sentinel st = rt_sentinel (tb_timers q4)"
    using book_insert [OF q4, of x] seq by auto
  define q5 where "q5 = q4\<lparr>tb_timers := st, tb_active := (tb_active q4)(tb_seq q x \<mapsto> x)\<rparr>"
  have "0 < tm_interval (tb_pool q x)" "x \<notin> set (inord T)" using q rep by (simp_all add: book_inv_def)
  then have "due now q5 T' = due now q T"
    by (intro due_insert_later [OF st(4)]) (auto simp: q5_def q4_def Timer_Restart_def)
  moreover have "timers_ok d b q5" "loop_kept q q5" "rt_sentinel (tb_timers q5) = rt_sentinel (tb_timers q)"
    using ok st(5) by (simp_all add: q5_def q4_def loop_kept_def)
  ultimately show ?thesis
    using st(1-3) by (intro exI [of _ q5] exI [of _ T']) (simp add: q5_def)
qed

lemma release_timer:
  assumes "book_inv q T {x}" and "timers_ok d b q"
  shows "book_inv (q\<lparr>tb_live := tb_live q - {x}\<rparr>) T {}" "timers_ok d b (q\<lparr>tb_live := tb_live q - {x}\<rparr>)"
    "due now (q\<lparr>tb_live := tb_live q - {x}\<rparr>) T = due now q T"
  using book_release [OF assms(1), of x] assms(2) by (simp_all add: due_def)

lemma uring_OnExpired_correct:
  assumes inv: "book_inv q T {}" and ok: "timers_ok d b q" and x: "inord T = x # xs" "tb_exp q x \<le> now"
    and acq: "acquire_ok acquire (rt_sentinel (tb_timers q))" and calls: "\<forall>w. \<forall>c\<in>set (calls w). ucall_ok c"
  shows "\<exists>q1 q2 T2. book_erase_timer x q = Some (True, q1) \<and>
     UringTimers_OnExpired acquire calls now x q1 w = Some (q2, w @ [tb_seq q x]) \<and>
     uexpired_rel d b (\<forall>w. \<forall>c\<in>set (calls w). late now c) (\<forall>w. \<forall>c\<in>set (calls w). is_uadd c) now (tb_seq q x) q T q2 T2"
proof -
  obtain store T1 where s: "book_erase_timer x q = Some (True, q\<lparr>tb_timers := store\<rparr>)" "tb_active q (tb_seq q x) = Some x"
    "book_inv (q\<lparr>tb_timers := store, tb_active := (tb_active q)(tb_seq q x := None)\<rparr>) T1 {x}"
    "inord T1 = remove1 x (inord T)" "rt_sentinel store = rt_sentinel (tb_timers q)"
    using book_erase [OF inv, of x] x(1) by auto
  define q1 where "q1 = q\<lparr>tb_timers := store, tb_active := (tb_active q)(tb_seq q x := None)\<rparr>"
  define rep where "rep = tm_repeat (tb_pool q x)"
  define p where "p = (if rep then q1\<lparr>tb_processing := x, tb_cancelled := False\<rparr> else q1)"
  have p: "book_inv p T1 {x}" "timers_ok d b p" "loop_kept q p" "rt_sentinel (tb_timers p) = rt_sentinel (tb_timers q)"
    "tb_pool p = tb_pool q" "due now q T = tb_seq q x # due now p T1"
    using s(3-5) ok x by (simp_all add: p_def q1_def loop_kept_def due_def)
  obtain q2 T2 where q2: "UringTimer_Run acquire calls x p w = Some (q2, w @ [tb_seq q x])" "ucalls_rel d b p T1 q2 T2 {x}"
    "(\<forall>w. \<forall>c\<in>set (calls w). late now c) \<longrightarrow> keeps_due (\<forall>w. \<forall>c\<in>set (calls w). is_uadd c) now p T1 q2 T2"
    using uring_Run_correct [OF p(1,2), of acquire calls x w now] acq calls p(4,5) by auto
  define q3 where "q3 = (if rep then q2\<lparr>tb_processing := nullptr, tb_cancelled := False\<rparr> else q2)"
  have q3: "book_inv q3 T2 {x}" "timers_ok d b q3" "loop_kept q q3" "rt_sentinel (tb_timers q3) = rt_sentinel (tb_timers q)"
    "tb_pool q3 x = tb_pool q x" "due now q3 T2 = due now q2 T2"
    using q2(2) p(3-5) loop_kept_trans [OF p(3), of q2] by (simp_all add: ucalls_rel_def q3_def loop_kept_def due_def)
  have rel: "uexpired_rel d b (\<forall>w. \<forall>c\<in>set (calls w). late now c) (\<forall>w. \<forall>c\<in>set (calls w). is_uadd c) now (tb_seq q x) q T q' T'"
    if "book_inv q' T' {}" "timers_ok d b q'" "loop_kept q3 q'" "rt_sentinel (tb_timers q') = rt_sentinel (tb_timers q3)" "due now q' T' = due now q3 T2" for q' T'
    using that q2(3) q3(3,4,6) p(6) loop_kept_trans [OF q3(3) that(3)] by (simp add: uexpired_rel_def keeps_due_def)
  have fin: ?thesis if "UringTimers_OnExpired acquire calls now x (q\<lparr>tb_timers := store\<rparr>) w = Some (q', w @ [tb_seq q x])"
    "book_inv q' T' {}" "timers_ok d b q'" "loop_kept q3 q'" "rt_sentinel (tb_timers q') = rt_sentinel (tb_timers q3)" "due now q' T' = due now q3 T2" for q' T'
    using s(1) that(1) rel [OF that(2-6)] by blast
  note r = release_timer [OF q3(1,2)]
  show ?thesis
  proof (cases "rep \<and> \<not> tb_cancelled q2")
    case False
    then have "UringTimers_OnExpired acquire calls now x (q\<lparr>tb_timers := store\<rparr>) w = Some (q3\<lparr>tb_live := tb_live q3 - {x}\<rparr>, w @ [tb_seq q x])"
      using q2(1) s(2) by (auto simp: UringTimers_OnExpired_def Let_def p_def q1_def q3_def rep_def split: if_splits)
    then show ?thesis by (rule fin) (use r in \<open>simp_all add: loop_kept_def\<close>)
  next
    case True
    then have "tm_repeat (tb_pool q3 x)" using q3(5) by (simp add: rep_def)
    from uring_reinsert_timer [OF q3(1,2) this, of now] obtain q5 T5 where q5:
      "tb_active q3 (tb_seq q3 x) = None"
      "book_insert_timer x (q3\<lparr>tb_pool := (tb_pool q3)(x := Timer_Restart now (tb_pool q3 x)), tb_active := (tb_active q3)(tb_seq q3 x \<mapsto> x)\<rparr>) = Some (True, q5)"
      "book_inv q5 T5 {}" "timers_ok d b q5" "loop_kept q3 q5" "rt_sentinel (tb_timers q5) = rt_sentinel (tb_timers q3)" "due now q5 T5 = due now q3 T2"
      by auto
    have "UringTimers_OnExpired acquire calls now x (q\<lparr>tb_timers := store\<rparr>) w = Some (q5, w @ [tb_seq q x])"
      using q2(1) s(2) True q5(1,2) q3(5)
      by (simp add: UringTimers_OnExpired_def Let_def p_def q1_def q3_def rep_def del: book_steps_active)
    then show ?thesis by (rule fin) (use q5 in simp_all)
  qed
qed

text \<open>Every pass that returns keeps the invariants, whatever the callbacks add.\<close>

lemma uring_ProcessExpired_partial:
  assumes "UringTimers_ProcessExpired acquire calls now q w = Some y"
  shows "\<forall>T. book_inv q T {} \<longrightarrow> timers_ok d b q \<longrightarrow> acquire_ok acquire (rt_sentinel (tb_timers q)) \<longrightarrow> (\<forall>w. \<forall>c\<in>set (calls w). ucall_ok c) \<longrightarrow>
     (\<exists>T'. book_inv (fst y) T' {} \<and> timers_ok d b (fst y) \<and> rt_sentinel (tb_timers (fst y)) = rt_sentinel (tb_timers q))"
proof (rule UringTimers_ProcessExpired.raw_induct [where P = "\<lambda>acquire calls now q w y. \<forall>T. book_inv q T {} \<longrightarrow> timers_ok d b q \<longrightarrow>
     acquire_ok acquire (rt_sentinel (tb_timers q)) \<longrightarrow> (\<forall>w. \<forall>c\<in>set (calls w). ucall_ok c) \<longrightarrow>
     (\<exists>T'. book_inv (fst y) T' {} \<and> timers_ok d b (fst y) \<and> rt_sentinel (tb_timers (fst y)) = rt_sentinel (tb_timers q))", OF _ assms], goal_cases)
  case (1 pop acquire calls now q w y)
  show ?case
  proof (intro allI impI)
    fix T
    assume inv: "book_inv q T {}" "timers_ok d b q" and acq: "acquire_ok acquire (rt_sentinel (tb_timers q))" and calls: "\<forall>w. \<forall>c\<in>set (calls w). ucall_ok c"
    show "\<exists>T'. book_inv (fst y) T' {} \<and> timers_ok d b (fst y) \<and> rt_sentinel (tb_timers (fst y)) = rt_sentinel (tb_timers q)"
    proof (cases "TimerIndex_Empty (tb_timers q) \<or> \<not> tb_exp q (TimerIndex_Earliest (tb_timers q)) \<le> now")
      case True
      then have "y = (q, w)" using 1(2) by (auto simp: Let_def split: if_splits)
      then show ?thesis using inv by auto
    next
      case False
      then obtain x xs where x: "inord T = x # xs" "TimerIndex_Earliest (tb_timers q) = x"
        using book_earliest [OF inv(1)] by (cases "inord T") auto
      have "tb_exp q x \<le> now" using False x(2) by simp
      from uring_OnExpired_correct [OF inv x(1) this acq calls, of w]
      obtain q1 q2 T2 la ad where s: "book_erase_timer x q = Some (True, q1)"
        "UringTimers_OnExpired acquire calls now x q1 w = Some (q2, w @ [tb_seq q x])" "uexpired_rel d b la ad now (tb_seq q x) q T q2 T2"
        by blast
      have "pop acquire calls now q2 (w @ [tb_seq q x]) = Some y"
        using 1(2) False x(2) s(1,2) by (simp add: Let_def)
      from 1(1) [OF this] s(3) acq calls show ?thesis by (auto simp: uexpired_rel_def)
    qed
  qed
qed

lemma ProcessExpired_correct:
  assumes "book_inv q T {}" and "timers_ok d b q" and "acquire_ok acquire (rt_sentinel (tb_timers q))"
    and "\<forall>w. \<forall>c\<in>set (calls w). ucall_ok c \<and> late now c"
  shows "\<exists>q' T' fired. UringTimers_ProcessExpired acquire calls now q w = Some (q', w @ fired) \<and> book_inv q' T' {} \<and>
     timers_ok d b q' \<and> loop_kept q q' \<and> rt_sentinel (tb_timers q') = rt_sentinel (tb_timers q) \<and>
     subseq fired (due now q T) \<and> ((\<forall>w. \<forall>c\<in>set (calls w). is_uadd c) \<longrightarrow> fired = due now q T) \<and>
     (\<forall>x\<in>set (inord T'). now < tb_exp q' x)"
  using assms(1-3)
proof (induction "length (due now q T)" arbitrary: q T w rule: less_induct)
  case less
  show ?case
  proof (cases "inord T = [] \<or> now < tb_exp q (hd (inord T))")
    case True
    have all: "\<forall>y\<in>set (inord T). now < tb_exp q y"
      using True book_earliest(4) [OF less.prems(1)] by (cases "inord T") force+
    have "UringTimers_ProcessExpired acquire calls now q w = Some (q, w)"
      using True book_earliest [OF less.prems(1)]
      by (subst UringTimers_ProcessExpired.simps) (cases "inord T"; simp)
    moreover have "due now q T = []" using all by (simp add: due_def filter_empty_conv not_le)
    ultimately show ?thesis
      using all less.prems by (intro exI [of _ q] exI [of _ T] exI [of _ "[]"]) simp
  next
    case False
    then obtain x xs where x: "inord T = x # xs" "tb_exp q x \<le> now" by (cases "inord T") auto
    obtain q1 q2 T2 where s: "book_erase_timer x q = Some (True, q1)"
      "UringTimers_OnExpired acquire calls now x q1 w = Some (q2, w @ [tb_seq q x])"
      "uexpired_rel d b True (\<forall>w. \<forall>c\<in>set (calls w). is_uadd c) now (tb_seq q x) q T q2 T2"
      using uring_OnExpired_correct [OF less.prems(1,2) x less.prems(3), of calls w] assms(4) by auto
    have q2: "book_inv q2 T2 {}" "timers_ok d b q2" "loop_kept q q2" "rt_sentinel (tb_timers q2) = rt_sentinel (tb_timers q)"
      "subseq (tb_seq q x # due now q2 T2) (due now q T)"
      "(\<forall>w. \<forall>c\<in>set (calls w). is_uadd c) \<longrightarrow> due now q T = tb_seq q x # due now q2 T2"
      using s(3) unfolding uexpired_rel_def by simp_all
    have "length (due now q2 T2) < length (due now q T)" using list_emb_length [OF q2(5)] by simp
    moreover have "acquire_ok acquire (rt_sentinel (tb_timers q2))" using q2(4) less.prems(3) by simp
    ultimately obtain q3 T3 fired where r: "UringTimers_ProcessExpired acquire calls now q2 (w @ [tb_seq q x]) = Some (q3, (w @ [tb_seq q x]) @ fired)"
      "book_inv q3 T3 {}" "timers_ok d b q3" "loop_kept q2 q3" "rt_sentinel (tb_timers q3) = rt_sentinel (tb_timers q2)"
      "subseq fired (due now q2 T2)" "(\<forall>w. \<forall>c\<in>set (calls w). is_uadd c) \<longrightarrow> fired = due now q2 T2"
      "\<forall>y\<in>set (inord T3). now < tb_exp q3 y"
      using less.hyps [OF _ q2(1,2)] by blast
    have "UringTimers_ProcessExpired acquire calls now q w = Some (q3, w @ tb_seq q x # fired)"
      using book_earliest [OF less.prems(1)] x s(1,2) r(1) by (subst UringTimers_ProcessExpired.simps) simp
    moreover have "subseq (tb_seq q x # fired) (due now q T)"
      using q2(5) r(6) subseq_order.order_trans by (metis subseq_Cons2)
    ultimately show ?thesis
      using r q2 loop_kept_trans [OF q2(3) r(4)]
      by (intro exI [of _ q3] exI [of _ T3] exI [of _ "tb_seq q x # fired"]) simp
  qed
qed

end
