(* ===== verification/Uring_Timer_Run.thy ===== *)
theory Uring_Timer_Run
  imports Uring_Timer_Queue Uring_Loop_Run
begin

text \<open>
  The life of an io_uring timer queue beside the other users of its loop: in every reachable state its flags agree with the
  requests that are outstanding, no check fails, and the earliest timer has a request that wakes the loop. An
  expiry pass whose callbacks add only later timers ends; it runs the due timers in order.
\<close>

section \<open>The steps of the other components\<close>

text \<open>
  What the rest of the program may do to the loop between two steps of the queue: it keeps the loop's own
  invariant and does not touch the two timer operations.
\<close>

definition env_step :: "UringTimerQueue \<Rightarrow> Loop \<Rightarrow> bool" where
  "env_step q l \<longleftrightarrow> (\<exists>d b. ops_ok d b (utq_driver_op q) (utq_control_op q) l) \<and>
     (\<forall>a\<in>{utq_driver_op q, utq_control_op q}. a \<in> set (outstanding l) \<longleftrightarrow> a \<in> set (outstanding (utq_loop q))) \<and>
     (stopping (utq_loop q) \<longrightarrow> stopping l)"

text \<open>The loop has reaped the completion of operation \<open>a\<close> and recorded its result \<open>r\<close>, as \<^verbatim>\<open>HandleCqe\<close> does before it dispatches.\<close>

definition op_completed :: "addr \<Rightarrow> 32 word \<Rightarrow> UringTimerQueue \<Rightarrow> Loop \<Rightarrow> bool" where
  "op_completed a r q l \<longleftrightarrow> (\<exists>d b. ops_ok d b (utq_driver_op q) (utq_control_op q) l) \<and>
     a \<in> {utq_driver_op q, utq_control_op q} \<and> a \<in> set (outstanding (utq_loop q)) \<and> a \<notin> set (outstanding l) \<and>
     (\<forall>c\<in>{utq_driver_op q, utq_control_op q} - {a}. c \<in> set (outstanding l) \<longleftrightarrow> c \<in> set (outstanding (utq_loop q))) \<and>
     (stopping (utq_loop q) \<longrightarrow> stopping l) \<and> CqeResult_read (op_result (op_at l a)) = Some r"

inductive timers_run :: "(addr set \<Rightarrow> addr) \<Rightarrow> UringTimerQueue \<Rightarrow> int list \<Rightarrow> bool" for acquire where
  run_init: "q = UringTimers_init l driver control s h seq \<Longrightarrow> ops_ok d b driver control (utq_loop q) \<Longrightarrow>
    driver \<notin> set (outstanding l) \<Longrightarrow> control \<notin> set (outstanding l) \<Longrightarrow> s \<noteq> nullptr \<Longrightarrow> \<not> rb_linked h s \<Longrightarrow>
    acquire_ok acquire s \<Longrightarrow> timers_run acquire q []"
| run_call: "timers_run acquire q w \<Longrightarrow> ucall_ok c \<Longrightarrow> UringTimers_call acquire c q = Some q' \<Longrightarrow> timers_run acquire q' w"
| run_env: "timers_run acquire q w \<Longrightarrow> env_step q l \<Longrightarrow> timers_run acquire (q\<lparr>utq_loop := l\<rparr>) w"
| run_driver: "timers_run acquire q w \<Longrightarrow> op_completed (utq_driver_op q) r q l \<Longrightarrow> \<forall>w. \<forall>c\<in>set (calls w). ucall_ok c \<Longrightarrow>
    HandleDriverComplete acquire calls now (q\<lparr>utq_loop := l\<rparr>) w = Some (q', w') \<Longrightarrow> timers_run acquire q' w'"
| run_control: "timers_run acquire q w \<Longrightarrow> op_completed (utq_control_op q) r q l \<Longrightarrow> \<forall>w. \<forall>c\<in>set (calls w). ucall_ok c \<Longrightarrow>
    HandleControlComplete acquire calls now (q\<lparr>utq_loop := l\<rparr>) w = Some (q', w') \<Longrightarrow> timers_run acquire q' w'"

section \<open>The loop keeps its side\<close>

lemma flush_env:
  assumes ok: "timers_ok d b q" and run: "Loop_FlushSubmit (utq_loop q) = Some (r, l)"
  shows "env_step q l"
proof -
  have lo: "loop_ok d 0 b (utq_loop q)" and f: "FlushSubmit_loop (utq_loop q) = (r, l)"
    using ok run by (auto simp: timers_ok_def ops_ok_def Loop_FlushSubmit_def)
  note k = FlushSubmit_ok [OF f lo]
  have "stopping l" if "stopping (utq_loop q)"
    using progress_stopping conjunct1 [OF FlushSubmit_ok [OF f stopping_progress [OF lo that]]] by blast
  moreover have "ops_ok d b (utq_driver_op q) (utq_control_op q) l"
    using k ok by (auto simp: timers_ok_def ops_ok_def flush_frame_def Loop_IsInLoopThread_def)
  ultimately show ?thesis using k by (auto simp: env_step_def flush_frame_def)
qed

lemma reap_completed:
  assumes ok: "timers_ok 0 b q" and cq: "rg_cq (lp_ring (utq_loop q)) = c # rest" and a: "cqe_data c \<in> {utq_driver_op q, utq_control_op q}"
    and rec: "Op_TryRecordCqeCompletion (ev_result (cqe_event c)) (op_at (utq_loop q) (cqe_data c)) = Some (True, op)"
  shows "op_completed (cqe_data c) (ev_result (cqe_event c)) q (set_op (cqe_data c) op (pop_cqe rest (utq_loop q)))"
proof -
  let ?l = "utq_loop q" and ?a = "cqe_data c"
  let ?m = "pop_cqe rest ?l"
  have o: "ops_ok 0 b (utq_driver_op q) (utq_control_op q) ?l" and lo: "loop_ok 0 0 b ?l" using ok by (simp_all add: timers_ok_def ops_ok_def)
  note p = pop_inv [OF lo cq] and s = pop_sets [OF lo cq]
  have kind: "op_kind op = op_kind (op_at ?l ?a)" by (rule record_kind [OF rec])
  have "single_shot ?m ?a" using o a by (auto simp: single_shot_def pop_fields ops_ok_def)
  then have t: "terminal c" by (rule p(4))
  have w: "?a \<noteq> lp_wake_op ?l" using o a by (auto simp: ops_ok_def)
  have m: "loop_ok 1 0 b ?m" using p(1) pop_wake(1) [OF lo cq] w t by (simp add: loop_ok_def)
  have "loop_ok 1 0 b (set_op ?a op ?m)"
    by (rule set_op_ok [OF m]) (use kind s(2) [OF t] in \<open>simp_all add: pop_fields\<close>)
  then have "ops_ok 1 b (utq_driver_op q) (utq_control_op q) (set_op ?a op ?m)"
    using o kind by (auto simp: ops_ok_def set_op_def pop_cqe_def Loop_IsInLoopThread_def)
  moreover have "CqeResult_read (op_result op) = Some (ev_result (cqe_event c))"
    using rec by (auto simp: Op_all_defs Let_def split: if_splits prod.splits)
  moreover have "set (outstanding ?l) = insert ?a (set (outstanding ?m))" using s(3) t by simp
  ultimately show ?thesis
    using s(2) [OF t] a by (auto simp: op_completed_def stopping_def set_op_def pop_cqe_def outstanding_def)
qed

section \<open>Completions\<close>

lemma ReconcileOrStop_rel:
  assumes "book_inv q T {}" and "timers_ok d b q"
  shows "\<exists>q'. UringTimers_ReconcileOrStop q = Some q' \<and> book_inv q' T {} \<and> timers_ok d b q' \<and> covered q' T \<and> loop_kept q q' \<and>
     tb_pool q' = tb_pool q \<and> rt_sentinel (tb_timers q') = rt_sentinel (tb_timers q)"
proof -
  obtain q' where q': "UringTimers_ReconcileOrStop q = Some q'" "timers_ok d b q'" "loop_kept q q'"
     "TimerBook.truncate q' = TimerBook.truncate q" "covered q' T"
    using ReconcileOrStop_correct [OF assms] by blast
  then show ?thesis using assms(1) book_inv_cong [OF q'(4)] truncate_fields [OF q'(4)] by (intro exI [of _ q']) simp
qed

definition pass_body :: "(addr set \<Rightarrow> addr) \<Rightarrow> (int list \<Rightarrow> utimer_call list) \<Rightarrow> bool \<Rightarrow> int \<Rightarrow> UringTimerQueue \<Rightarrow> int list \<Rightarrow> (UringTimerQueue \<times> int list) option" where
  "pass_body acquire calls expired now q w = do {
     (q2, w2) \<leftarrow> (if expired then UringTimers_ProcessExpired acquire calls now q w else Some (q, w));
     q3 \<leftarrow> UringTimers_ReconcileOrStop q2;
     Some (q3, w2) }"

lemma pass_partial:
  assumes inv: "book_inv q T {}" and ok: "timers_ok d b q" and acq: "acquire_ok acquire (rt_sentinel (tb_timers q))"
    and calls: "\<forall>w. \<forall>c\<in>set (calls w). ucall_ok c" and run: "pass_body acquire calls expired now q w = Some (q', w')"
  shows "\<exists>T'. book_inv q' T' {} \<and> timers_ok d b q' \<and> covered q' T' \<and> rt_sentinel (tb_timers q') = rt_sentinel (tb_timers q)"
proof -
  obtain q2 where q2: "(if expired then UringTimers_ProcessExpired acquire calls now q w else Some (q, w)) = Some (q2, w')"
    "UringTimers_ReconcileOrStop q2 = Some q'"
    using run unfolding pass_body_def by (auto simp: bind_eq_Some_conv split del: if_split)
  have "\<exists>T'. book_inv q2 T' {} \<and> timers_ok d b q2 \<and> rt_sentinel (tb_timers q2) = rt_sentinel (tb_timers q)"
  proof (cases expired)
    case True
    then show ?thesis using uring_ProcessExpired_partial [of acquire calls now q w "(q2, w')" d b] q2(1) assms(1-4) by auto
  next
    case False
    then show ?thesis using q2(1) inv ok by auto
  qed
  then obtain T2 where T2: "book_inv q2 T2 {}" "timers_ok d b q2" "rt_sentinel (tb_timers q2) = rt_sentinel (tb_timers q)" by blast
  show ?thesis using ReconcileOrStop_rel [OF T2(1,2)] q2(2) T2(3) by auto
qed

text \<open>A completion handler clears its own flags and then makes a pass, which runs the due timers if the timeout \<open>expired\<close>.\<close>

definition reduces :: "(addr set \<Rightarrow> addr) \<Rightarrow> (int list \<Rightarrow> utimer_call list) \<Rightarrow> bool \<Rightarrow> int \<Rightarrow> UringTimerQueue \<Rightarrow> rtree \<Rightarrow> int list \<Rightarrow>
    (UringTimerQueue \<times> int list) option \<Rightarrow> bool" where
  "reduces acquire calls expired now q T w out \<longleftrightarrow> (\<exists>q1 d b. out = pass_body acquire calls expired now q1 w \<and> book_inv q1 T {} \<and>
     timers_ok d b q1 \<and> tb_pool q1 = tb_pool q \<and> rt_sentinel (tb_timers q1) = rt_sentinel (tb_timers q))"

lemma completed_ops:
  assumes "op_completed a r q l"
  obtains d b where "ops_ok d b (utq_driver_op q) (utq_control_op q) l" "CqeResult_read (op_result (op_at l a)) = Some r"
  using assms unfolding op_completed_def by blast

lemma driver_reduces:
  assumes inv: "book_inv q T {}" and ok: "timers_ok d0 b0 q" and c: "op_completed (utq_driver_op q) r q l"
  shows "reduces acquire calls (sint r = - ETIME) now q T w (HandleDriverComplete acquire calls now (q\<lparr>utq_loop := l\<rparr>) w)"
proof -
  obtain d b where l: "ops_ok d b (utq_driver_op q) (utq_control_op q) l" "CqeResult_read (op_result (op_at l (utq_driver_op q))) = Some r"
    using completed_ops [OF c] by blast
  let ?q = "q\<lparr>utq_loop := l, utq_driver_armed := False, utq_driver_deadline := 0\<rparr>"
  have tr: "TimerBook.truncate ?q = TimerBook.truncate q" by (simp add: TimerBook.truncate_def)
  have "timers_ok d b ?q" using ok l(1) c by (auto simp: timers_ok_def ops_ok_def op_completed_def)
  moreover have "book_inv ?q T {}" using inv book_inv_cong [OF tr] by simp
  moreover have "HandleDriverComplete acquire calls now (q\<lparr>utq_loop := l\<rparr>) w = pass_body acquire calls (sint r = - ETIME) now ?q w"
    using l(2) by (simp add: HandleDriverComplete_def pass_body_def Let_def)
  ultimately show ?thesis unfolding reduces_def by (intro exI [of _ ?q] exI [of _ d] exI [of _ b]) simp
qed

lemma control_reduces:
  assumes inv: "book_inv q T {}" and ok: "timers_ok d0 b0 q" and c: "op_completed (utq_control_op q) r q l"
  shows "reduces acquire calls (utq_control_is_fallback q \<and> sint r = - ETIME) now q T w (HandleControlComplete acquire calls now (q\<lparr>utq_loop := l\<rparr>) w)"
proof -
  obtain d b where l: "ops_ok d b (utq_driver_op q) (utq_control_op q) l" "CqeResult_read (op_result (op_at l (utq_control_op q))) = Some r"
    using completed_ops [OF c] by blast
  define q2 where "q2 = (if utq_control_is_fallback q then q\<lparr>utq_loop := l, utq_control_pending := False, utq_control_is_fallback := False, utq_fallback_armed := False\<rparr>
    else if r = 0 then q\<lparr>utq_loop := l, utq_control_pending := False, utq_driver_deadline := utq_requested_deadline q\<rparr>
    else q\<lparr>utq_loop := l, utq_control_pending := False, utq_update_supported := False\<rparr>)"
  have tr: "TimerBook.truncate q2 = TimerBook.truncate q" by (simp add: TimerBook.truncate_def q2_def)
  have "timers_ok d b q2" using ok l(1) c by (auto simp: timers_ok_def ops_ok_def op_completed_def q2_def)
  moreover have "book_inv q2 T {}" using inv book_inv_cong [OF tr] by simp
  moreover have "HandleControlComplete acquire calls now (q\<lparr>utq_loop := l\<rparr>) w = pass_body acquire calls (utq_control_is_fallback q \<and> sint r = - ETIME) now q2 w"
    using l(2) by (auto simp: HandleControlComplete_def Let_def q2_def pass_body_def)
  ultimately show ?thesis unfolding reduces_def using truncate_fields [OF tr] by (intro exI [of _ q2] exI [of _ d] exI [of _ b]) simp
qed

lemma reduces_inv:
  assumes "reduces acquire calls expired now q T w (Some (q', w'))" "acquire_ok acquire (rt_sentinel (tb_timers q))"
    "\<forall>w. \<forall>c\<in>set (calls w). ucall_ok c"
  shows "\<exists>T d b. book_inv q' T {} \<and> timers_ok d b q' \<and> covered q' T \<and> acquire_ok acquire (rt_sentinel (tb_timers q'))"
proof -
  obtain q1 d b where q1: "pass_body acquire calls expired now q1 w = Some (q', w')" "book_inv q1 T {}" "timers_ok d b q1"
    "rt_sentinel (tb_timers q1) = rt_sentinel (tb_timers q)"
    using assms(1) unfolding reduces_def by auto
  have "acquire_ok acquire (rt_sentinel (tb_timers q1))" using assms(2) q1(4) by simp
  from pass_partial [OF q1(2,3) this assms(3) q1(1)] show ?thesis using assms(2) q1(4) by metis
qed

lemma reduces_total:
  assumes "reduces acquire calls expired now q T w out" "acquire_ok acquire (rt_sentinel (tb_timers q))"
    "\<forall>w. \<forall>c\<in>set (calls w). ucall_ok c \<and> late now c"
  shows "\<exists>q' T' fired. out = Some (q', w @ fired) \<and> book_inv q' T' {} \<and> covered q' T' \<and>
     (if expired then subseq fired (due now q T) \<and> ((\<forall>w. \<forall>c\<in>set (calls w). is_uadd c) \<longrightarrow> fired = due now q T) \<and>
        (\<forall>x\<in>set (inord T'). now < tb_exp q' x)
      else fired = [] \<and> inord T' = inord T)"
proof -
  obtain q1 d b where q1: "out = pass_body acquire calls expired now q1 w" "book_inv q1 T {}" "timers_ok d b q1"
    "rt_sentinel (tb_timers q1) = rt_sentinel (tb_timers q)" "tb_pool q1 = tb_pool q"
    using assms(1) unfolding reduces_def by auto
  have acq: "acquire_ok acquire (rt_sentinel (tb_timers q1))" using assms(2) q1(4) by simp
  show ?thesis
  proof (cases expired)
    case True
    obtain q2 T2 fired where p: "UringTimers_ProcessExpired acquire calls now q1 w = Some (q2, w @ fired)" "book_inv q2 T2 {}"
       "timers_ok d b q2" "subseq fired (due now q1 T)"
       "(\<forall>w. \<forall>c\<in>set (calls w). is_uadd c) \<longrightarrow> fired = due now q1 T" "\<forall>x\<in>set (inord T2). now < tb_exp q2 x"
      using ProcessExpired_correct [OF q1(2,3) acq assms(3)] by blast
    obtain q3 where q3: "UringTimers_ReconcileOrStop q2 = Some q3" "book_inv q3 T2 {}" "covered q3 T2" "tb_pool q3 = tb_pool q2"
      using ReconcileOrStop_rel [OF p(2,3)] by blast
    have "due now q1 T = due now q T" using q1(5) by (simp add: due_def)
    then show ?thesis
      using p q3 True q1(1) by (intro exI [of _ q3] exI [of _ T2] exI [of _ fired]) (simp add: pass_body_def)
  next
    case False
    then show ?thesis
      using ReconcileOrStop_rel [OF q1(2,3)] q1(1) by (auto simp: pass_body_def)
  qed
qed

lemma init_timers:
  assumes "q = UringTimers_init l driver control s h seq" "ops_ok d b driver control (utq_loop q)" "driver \<notin> set (outstanding l)"
    "control \<notin> set (outstanding l)" "s \<noteq> nullptr" "\<not> rb_linked h s"
  shows "book_inv q Leaf {}" "timers_ok d b q" "covered q Leaf" "rt_sentinel (tb_timers q) = s"
proof -
  have q: "tb_timers q = Tree_init s h" "tb_live q = {}" "tb_active q = Map.empty"
    using assms(1) by (simp_all add: UringTimers_init_def)
  then show "book_inv q Leaf {}" "rt_sentinel (tb_timers q) = s"
    using assms(5,6) Tree_init_inv by (simp_all add: book_inv_def Tree_init_def)
  show "timers_ok d b q" "covered q Leaf"
    using assms(1-4) by (simp_all add: UringTimers_init_def timers_ok_def covered_def)
qed

lemma timers_run_inv:
  assumes "timers_run acquire q w"
  shows "\<exists>T d b. book_inv q T {} \<and> timers_ok d b q \<and> covered q T \<and> acquire_ok acquire (rt_sentinel (tb_timers q))"
  using assms
proof induction
  case (run_init q l driver control s h seq d b)
  show ?case using init_timers [OF run_init(1-6)] run_init(7) by blast
next
  case (run_call q w c q')
  then obtain T d b where i: "book_inv q T {}" "timers_ok d b q" "covered q T" "acquire_ok acquire (rt_sentinel (tb_timers q))" by blast
  then obtain T' where "call_rel d b q T q' T' {}" using uring_call_correct [OF i(1,2,4) run_call(2)] run_call(3) by fastforce
  then show ?case using i(3,4) unfolding call_rel_def by metis
next
  case (run_env q w l)
  then obtain T d b where i: "book_inv q T {}" "timers_ok d b q" "covered q T" "acquire_ok acquire (rt_sentinel (tb_timers q))" by blast
  obtain d' b' where l: "ops_ok d' b' (utq_driver_op q) (utq_control_op q) l" using run_env(2) unfolding env_step_def by blast
  have "timers_ok d' b' (q\<lparr>utq_loop := l\<rparr>)" "covered (q\<lparr>utq_loop := l\<rparr>) T"
    using i(2,3) l run_env(2) by (auto simp: timers_ok_def env_step_def covered_def split: list.splits)
  moreover have "book_inv (q\<lparr>utq_loop := l\<rparr>) T {}" using i(1) book_inv_cong [of "q\<lparr>utq_loop := l\<rparr>" q] by (simp add: TimerBook.truncate_def)
  ultimately show ?case using i(4) by auto
next
  case (run_driver q w r l calls now q' w')
  then obtain T d b where i: "book_inv q T {}" "timers_ok d b q" "acquire_ok acquire (rt_sentinel (tb_timers q))" by blast
  show ?case by (rule reduces_inv [OF driver_reduces [OF i(1,2) run_driver(2), of acquire calls now w, unfolded run_driver(4)] i(3) run_driver(3)])
next
  case (run_control q w r l calls now q' w')
  then obtain T d b where i: "book_inv q T {}" "timers_ok d b q" "acquire_ok acquire (rt_sentinel (tb_timers q))" by blast
  show ?case by (rule reduces_inv [OF control_reduces [OF i(1,2) run_control(2), of acquire calls now w, unfolded run_control(4)] i(3) run_control(3)])
qed

text \<open>
  When the driver timeout expires and callbacks add only later timers, the handler returns; the timers it ran were
  due, each once and in deadline order, and it ran all of them if no callback cancels one.
\<close>

lemma driver_pass:
  assumes "timers_run acquire q w" and "op_completed (utq_driver_op q) r q l" and "sint r = - ETIME"
    and "\<forall>w. \<forall>c\<in>set (calls w). ucall_ok c \<and> late now c"
  shows "\<exists>T q' T' fired. book_inv q T {} \<and>
     HandleDriverComplete acquire calls now (q\<lparr>utq_loop := l\<rparr>) w = Some (q', w @ fired) \<and>
     subseq fired (due now q T) \<and> ((\<forall>w. \<forall>c\<in>set (calls w). is_uadd c) \<longrightarrow> fired = due now q T) \<and>
     book_inv q' T' {} \<and> (\<forall>x\<in>set (inord T'). now < tb_exp q' x) \<and> covered q' T'"
proof -
  obtain T d b where i: "book_inv q T {}" "timers_ok d b q" "acquire_ok acquire (rt_sentinel (tb_timers q))"
    using timers_run_inv [OF assms(1)] by blast
  show ?thesis
    using reduces_total [OF driver_reduces [OF i(1,2) assms(2), of acquire calls now w] i(3) assms(4)] i(1)
    unfolding if_P [OF assms(3)] by blast
qed

section \<open>Properties\<close>



declare Insert_descend.simps [code] InsertFixup_loop.simps [code] Minimum_loop.simps [code] Next_loop.simps [code]






end
