(* ===== verification/Spec2Isabelle.thy ===== *)
theory Spec2Isabelle
  imports Intrusive_Containers RBTree_Spec Lifecycle Source_State Stream_Lifecycle Net_Buffer Memory_Pool Coro_Channel Epoll_Timer_Queue Spawn_State Result_State Uring_Op Uring_Loop_Run Uring_Timer_Run
begin

text \<open>
  Verification of Alyrn, a C++23 coroutine networking runtime with an epoll and an io_uring backend.

  \<^bold>\<open>The program.\<close> A \<^verbatim>\<open>Loop\<close> per thread dispatches kernel events, ready coroutines, posted callbacks and timers.
  Its building blocks are intrusive containers (queue, list, red-black tree) whose links live in the
  elements, and pools that hand out fixed slots. A pending kernel operation is an \<^verbatim>\<open>Op\<close> whose address travels
  through the kernel; small lifecycle objects decide when its result, its storage and its waiting coroutine may be used, and
  result holders pack value, error and "pending" into one word. Above this sit the stream and
  source state machines, the byte buffer, the channel between coroutines and the join state of spawned tasks.

  \<^bold>\<open>Conventions\<close> (\<^verbatim>\<open>Alyrn_Prelude\<close>). A failed \<^verbatim>\<open>ALYRN_CHECK\<close> or \<^verbatim>\<open>assert\<close> is \<open>None\<close>; \<^verbatim>\<open>Result<T>\<close> is a sum type; pointers are
  natural numbers with \<open>0\<close> for \<^verbatim>\<open>nullptr\<close>; packed, masked and encoded values are words of their width; counters whose bounds are
  proved are natural numbers; clock values are unbounded integers (the source has 64-bit nanoseconds and does not
  check for overflow). The operation \<^verbatim>\<open>Class::Method\<close> is the definition \<open>Class_Method\<close>, over a record with the fields of the class. The theories,
  with the files under \<^verbatim>\<open>include/alyrn\<close> and \<^verbatim>\<open>src\<close> that they model:

  \<^item> \<^verbatim>\<open>Intrusive_Containers\<close>: \<^verbatim>\<open>detail/intrusive_queue.h\<close>, \<^verbatim>\<open>detail/intrusive_list.h\<close>, \<^verbatim>\<open>detail/loop_shutdown.h\<close>. Links are functions
    from addresses; \<open>Queue_rep\<close> and \<open>List_rep\<close> give the abstract sequence. Both containers interpret the locale
    \<open>intrusive_sequence\<close>; the shutdown walk visits every participant also when participants unregister themselves.
  \<^item> \<^verbatim>\<open>RB_Zipper\<close>, \<^verbatim>\<open>Intrusive_RBTree\<close>, \<^verbatim>\<open>RBTree_Refinement\<close>, \<^verbatim>\<open>RBTree_Insert\<close>, \<^verbatim>\<open>RBTree_Erase\<close>, \<^verbatim>\<open>RBTree\<close>, \<^verbatim>\<open>RBTree_Clear\<close>, \<^verbatim>\<open>RBTree_Spec\<close>:
    \<^verbatim>\<open>detail/intrusive_rbtree.h\<close>. The first is an abstract red-black tree with a position; the pointer loops are
    shown to follow its steps, which gives order, colour and height rules, termination and the untouched rest of
    the heap for insertion, deletion, prefix extraction, clearing and the self check.
  \<^item> \<^verbatim>\<open>Timer_Index\<close>: \<^verbatim>\<open>detail/timer.h\<close>, \<^verbatim>\<open>detail/timer_index.h\<close> and the bookkeeping that both timer queues share, with the
    invariant \<open>book_inv\<close> between index, store and table of active timers; \<open>timers_map\<close> reads a timer by its number.
  \<^item> \<^verbatim>\<open>Epoll_Timer_Queue\<close>: \<^verbatim>\<open>src/epoll/timer_queue.cc\<close>. The exact outcome of an expiry pass and the programming of the
    timerfd after every sequence of events. \<^verbatim>\<open>Uring_Timer_Queue\<close>, \<^verbatim>\<open>Uring_Timer_Run\<close>: \<^verbatim>\<open>src/uring/timer_queue.cc\<close> and the timer functions
    of \<^verbatim>\<open>src/uring/loop.cc\<close>. The requests of the queue and its flags agree in every reachable state and a
    pending timer has a request. Callbacks are arbitrary sequences of timer calls that may depend on what ran before. A pass
    need not end when callbacks keep adding due timers; it ends when they add later ones.
  \<^item> \<^verbatim>\<open>Uring_Op\<close>: \<^verbatim>\<open>uring/detail/op.h\<close> and \<^verbatim>\<open>reusable_completion_slot.h\<close>; the protocol of submission, logical and physical completion.
  \<^item> \<^verbatim>\<open>Uring_Loop\<close>, \<^verbatim>\<open>Uring_Loop_Inv\<close>, \<^verbatim>\<open>Uring_Loop_Run\<close>: \<^verbatim>\<open>src/uring/loop.cc\<close> and \<^verbatim>\<open>src/uring/ring.cc\<close>. Kernel answers and other threads are
    an arbitrary function restricted by what io_uring documents; handlers and coroutines are a
    parameter that makes calls of the loop. Shown are exact counters, a shutdown that drains, fairness of a
    turn, and the wrap of the in-flight counter in one corner. Loops that wait for the kernel are partial
    functions: their results hold for every run that returns, and a witness run is evaluated.
  \<^item> \<^verbatim>\<open>Lifecycle\<close>: \<^verbatim>\<open>completion_gate.h\<close>, \<^verbatim>\<open>single_result_lifecycle.h\<close>, \<^verbatim>\<open>split_release_lifecycle.h\<close>, \<^verbatim>\<open>composite_lifecycle.h\<close>. All
    interpret the locale \<open>authorization_protocol\<close>: each milestone once, after its prerequisites.
  \<^item> \<^verbatim>\<open>Result_State\<close>: the result words of both backends and the close convergence. The holders interpret
    \<open>one_shot_result\<close>; they differ in what they accept and whether reading empties them.
  \<^item> \<^verbatim>\<open>Source_State\<close>, \<^verbatim>\<open>Stream_Lifecycle\<close>: the state machines of \<^verbatim>\<open>net/detail\<close>; admission, stopping that converges, and
    two-phase half-close and close.
  \<^item> \<^verbatim>\<open>Net_Buffer\<close>: \<^verbatim>\<open>net/buffer.h\<close>. Bytes come out in the order they went in (locale \<open>total_fifo\<close>); the search agrees
    with the specification; write transactions and linearization keep the contents.
  \<^item> \<^verbatim>\<open>Memory_Pool\<close>: \<^verbatim>\<open>detail/memory_pool.h\<close>, \<^verbatim>\<open>detail/object_pool.h\<close>. Free list, bitmaps and counters agree; the pool interprets
    \<open>slot_allocator\<close>. Operations are atomic steps, as under the pool's mutex; the destructor that
    \<^verbatim>\<open>ObjectPool::Release\<close> runs between two critical sections is part of one step.
  \<^item> \<^verbatim>\<open>Coro_Channel\<close>: \<^verbatim>\<open>coro/channel.h\<close> with its awaiters; values arrive in order, only dropped senders lose theirs.
  \<^item> \<^verbatim>\<open>Coro_Work\<close>, \<^verbatim>\<open>Spawn_State\<close>: \<^verbatim>\<open>coro/work.h\<close>, \<^verbatim>\<open>detail/scheduler_continuation.h\<close>, \<^verbatim>\<open>coro/detail/spawn_state.h\<close>, \<^verbatim>\<open>coro/spawn.h\<close>. Two threads, one
    step per atomic access, sequentially consistent; a thread blocked in \<^verbatim>\<open>phase_.wait\<close> is a state that
    only the notification leaves. Ownership of the frame, progress, and the late notification.

  \<^bold>\<open>Bounds and fuel.\<close> No definition uses fuel. Loops over finite data recurse on it; pointer loops and loops that wait for outside
  events or run callbacks are partial functions into option. The pointer loops of the containers are proved to return; the others are
  as said above.

  \<^bold>\<open>Not modelled.\<close> The epoll channel, poller and loop, sockets, endpoints, connectors, listeners and streams (system calls and
  awaiter objects around the modelled state machines); \<^verbatim>\<open>Task\<close>, promises and \<^verbatim>\<open>Select\<close>, whose behaviour is the
  compiler's coroutine transformation and template composition; the frame allocator; provided buffers shared with the kernel; the
  submission helpers that fill kernel entries; workers, runtimes and servers that own threads; weak memory
  orderings. The kernel and liburing appear only through the answers described above.
\<close>

end
